(* ===== verification/Prelude.thy ===== *)
theory Prelude
  imports Complex_Main "HOL-Library.Word" "HOL-Library.Multiset"
begin

text \<open>
  Shared base of the NeuralDB development: results with errors as values, checked
  indexing, monadic iteration, and the two judgements in which the component proofs are
  written.  \<open>okR m P\<close> says that the computation \<open>m\<close> returns and its result satisfies
  \<open>P\<close>; \<open>postR m P\<close> says that its result satisfies \<open>P\<close> if it returns.
\<close>

section \<open>Errors and results\<close>

text \<open>
  Every \<open>throw\<close> of the sources is a value of \<open>err\<close>.  An access outside an object, a
  comparator that is no strict weak order, an out-of-range conversion and any other
  behaviour the C++ standard leaves undefined is the value \<open>Undefined_Behaviour\<close>, so a
  theorem that an operation returns also says that it never gets there.
\<close>

datatype err =
    Invalid_Argument string
  | Runtime_Error string
  | Out_Of_Range string
  | Length_Error
  | Terminated
  | Undefined_Behaviour

type_synonym 'a res = "err + 'a"

definition bindR :: "'a res \<Rightarrow> ('a \<Rightarrow> 'b res) \<Rightarrow> 'b res" where
  "bindR m f = (case m of Inl e \<Rightarrow> Inl e | Inr x \<Rightarrow> f x)"

definition guardR :: "bool \<Rightarrow> err \<Rightarrow> unit res" where
  "guardR b e = (if b then Inr () else Inl e)"

text \<open>
  Evaluation runs the first computation before it looks at the continuation, and the
  definition of a \<open>let\<close> before its body.
\<close>

declare bindR_def [code_unfold]

lemma let_eager [code_unfold]: "Let x f = (case (x, ()) of (y, u) \<Rightarrow> f y)"
  by simp

text \<open>Reading \<open>xs[i]\<close>: outside the vector it is undefined behaviour.\<close>

definition nth_r :: "'a list \<Rightarrow> nat \<Rightarrow> 'a res" where
  "nth_r xs i = (if i < length xs then Inr (xs ! i) else Inl Undefined_Behaviour)"

text \<open>Writing \<open>xs[i] = v\<close>.\<close>

definition upd_r :: "'a list \<Rightarrow> nat \<Rightarrow> 'a \<Rightarrow> 'a list res" where
  "upd_r xs i v = (if i < length xs then Inr (xs[i := v]) else Inl Undefined_Behaviour)"

text \<open>Reading the \<open>n\<close> elements from offset \<open>off\<close> of a buffer.\<close>

definition slice_r :: "'a list \<Rightarrow> nat \<Rightarrow> nat \<Rightarrow> 'a list res" where
  "slice_r xs off n =
     (if off + n \<le> length xs then Inr (take n (drop off xs)) else Inl Undefined_Behaviour)"

text \<open>\<open>std::vector::resize(n, d)\<close>.\<close>

definition resize :: "'a \<Rightarrow> nat \<Rightarrow> 'a list \<Rightarrow> 'a list" where
  "resize d n xs = take n xs @ replicate (n - length xs) d"

text \<open>
  A loop over the indices below \<open>n\<close> that stops at the first element with a property.
\<close>

fun find_first :: "('a \<Rightarrow> bool) \<Rightarrow> 'a list \<Rightarrow> nat \<Rightarrow> nat option res" where
  "find_first P xs 0 = Inr None"
| "find_first P [] (Suc n) = Inl Undefined_Behaviour"
| "find_first P (x # xs) (Suc n) =
     (if P x then Inr (Some 0) else bindR (find_first P xs n) (\<lambda>r. Inr (map_option Suc r)))"

text \<open>A range-for loop whose body may fail: it threads a state through the elements.\<close>

primrec foldR :: "('a \<Rightarrow> 's \<Rightarrow> 's res) \<Rightarrow> 'a list \<Rightarrow> 's \<Rightarrow> 's res" where
  "foldR f [] s = Inr s"
| "foldR f (x # xs) s = bindR (f x s) (foldR f xs)"

text \<open>A loop that fills slot \<open>i\<close> of its output from element \<open>i\<close> of its input.\<close>

primrec mapR :: "('a \<Rightarrow> 'b res) \<Rightarrow> 'a list \<Rightarrow> 'b list res" where
  "mapR f [] = Inr []"
| "mapR f (x # xs) = bindR (f x) (\<lambda>y. bindR (mapR f xs) (\<lambda>ys. Inr (y # ys)))"

named_theorems res_defs \<open>definitions of the checked accesses\<close>

lemmas [res_defs] = guardR_def nth_r_def upd_r_def slice_r_def

section \<open>Total and partial correctness of results\<close>

definition okR :: "'a res \<Rightarrow> ('a \<Rightarrow> bool) \<Rightarrow> bool" where
  "okR m P = (case m of Inl _ \<Rightarrow> False | Inr x \<Rightarrow> P x)"

definition postR :: "'a res \<Rightarrow> ('a \<Rightarrow> bool) \<Rightarrow> bool" where
  "postR m P = (case m of Inl _ \<Rightarrow> True | Inr x \<Rightarrow> P x)"

lemma bindR_simps [simp]:
  "bindR (Inl e) f = Inl e"
  "bindR (Inr x) f = f x"
  by (simp_all add: bindR_def)

lemma bindR_Inr_iff: "bindR m f = Inr y \<longleftrightarrow> (\<exists>x. m = Inr x \<and> f x = Inr y)"
  by (cases m) auto

lemma bindR_assoc: "bindR (bindR m f) g = bindR m (\<lambda>x. bindR (f x) g)"
  by (cases m) auto

lemma bindR_cong [fundef_cong]:
  "m = m' \<Longrightarrow> (\<And>x. m' = Inr x \<Longrightarrow> f x = g x) \<Longrightarrow> bindR m f = bindR m' g"
  by (cases m') auto

lemma okR_simps [simp]:
  "okR (Inl e) P \<longleftrightarrow> False"
  "okR (Inr x) P \<longleftrightarrow> P x"
  by (simp_all add: okR_def)

lemma postR_simps [simp]:
  "postR (Inl e) P \<longleftrightarrow> True"
  "postR (Inr x) P \<longleftrightarrow> P x"
  by (simp_all add: postR_def)

lemma okR_bind [simp]: "okR (bindR m f) Q \<longleftrightarrow> okR m (\<lambda>x. okR (f x) Q)"
  by (cases m) auto

lemma postR_bind [simp]: "postR (bindR m f) Q \<longleftrightarrow> postR m (\<lambda>x. postR (f x) Q)"
  by (cases m) auto

lemma okR_iff: "okR m P \<longleftrightarrow> (\<exists>x. m = Inr x \<and> P x)"
  by (cases m) auto

lemma postR_iff: "postR m P \<longleftrightarrow> (\<forall>x. m = Inr x \<longrightarrow> P x)"
  by (cases m) auto

lemma okR_mono: "okR m P \<Longrightarrow> (\<And>x. m = Inr x \<Longrightarrow> P x \<Longrightarrow> Q x) \<Longrightarrow> okR m Q"
  by (cases m) auto

lemma postR_mono: "postR m P \<Longrightarrow> (\<And>x. m = Inr x \<Longrightarrow> P x \<Longrightarrow> Q x) \<Longrightarrow> postR m Q"
  by (cases m) auto

lemma postR_bindI: "postR m P \<Longrightarrow> (\<And>x. P x \<Longrightarrow> postR (f x) Q) \<Longrightarrow> postR (bindR m f) Q"
  by (cases m) auto

lemma postR_bind_any: "(\<And>x. postR (f x) Q) \<Longrightarrow> postR (bindR m f) Q"
  by (cases m) auto

lemma postR_conj: "postR m P \<Longrightarrow> postR m Q \<Longrightarrow> postR m (\<lambda>x. P x \<and> Q x)"
  by (cases m) auto

lemma okR_conj_postR: "okR m P \<Longrightarrow> postR m Q \<Longrightarrow> okR m (\<lambda>x. P x \<and> Q x)"
  by (cases m) auto

lemma okR_postR: "okR m P \<Longrightarrow> postR m P"
  by (cases m) auto

lemma guardR_simps [simp]: "guardR True e = Inr ()" "guardR False e = Inl e"
  by (simp_all add: guardR_def)

lemma okR_guard [simp]: "okR (guardR b e) P \<longleftrightarrow> b \<and> P ()"
  by (simp add: guardR_def)

lemma postR_guard [simp]: "postR (guardR b e) P \<longleftrightarrow> (b \<longrightarrow> P ())"
  by (simp add: guardR_def)

lemma okR_nth [simp]: "okR (nth_r xs i) P \<longleftrightarrow> i < length xs \<and> P (xs ! i)"
  by (simp add: nth_r_def)

lemma postR_nth [simp]: "postR (nth_r xs i) P \<longleftrightarrow> (i < length xs \<longrightarrow> P (xs ! i))"
  by (simp add: nth_r_def)

lemma okR_upd [simp]: "okR (upd_r xs i v) P \<longleftrightarrow> i < length xs \<and> P (xs[i := v])"
  by (simp add: upd_r_def)

lemma postR_upd [simp]: "postR (upd_r xs i v) P \<longleftrightarrow> (i < length xs \<longrightarrow> P (xs[i := v]))"
  by (simp add: upd_r_def)

lemma okR_slice [simp]:
  "okR (slice_r xs off n) P \<longleftrightarrow> off + n \<le> length xs \<and> P (take n (drop off xs))"
  by (simp add: slice_r_def)

lemma postR_slice [simp]:
  "postR (slice_r xs off n) P \<longleftrightarrow> (off + n \<le> length xs \<longrightarrow> P (take n (drop off xs)))"
  by (simp add: slice_r_def)

text \<open>
  Both judgements at once: \<open>holdsR b m P\<close> is total correctness when \<open>b\<close> is true and
  partial correctness otherwise, so that one proof shows what a computation establishes
  whenever it returns and, under the stronger hypotheses \<open>b\<close> stands for, that it returns.
\<close>

definition holdsR :: "bool \<Rightarrow> 'a res \<Rightarrow> ('a \<Rightarrow> bool) \<Rightarrow> bool" where
  "holdsR b m P = (case m of Inl _ \<Rightarrow> \<not> b | Inr x \<Rightarrow> P x)"

lemma holdsR_simps [simp]:
  "holdsR b (Inl e) P \<longleftrightarrow> \<not> b"
  "holdsR b (Inr x) P \<longleftrightarrow> P x"
  by (simp_all add: holdsR_def)

lemma holdsR_total: "holdsR True m P = okR m P"
  by (cases m) auto

lemma holdsR_partial: "holdsR False m P = postR m P"
  by (cases m) auto

lemma holdsR_returns: "holdsR True m P \<Longrightarrow> \<exists>x. m = Inr x"
  by (cases m) auto

lemma holdsR_bind [simp]: "holdsR b (bindR m f) Q \<longleftrightarrow> holdsR b m (\<lambda>x. holdsR b (f x) Q)"
  by (cases m) auto

lemma holdsR_mono: "holdsR b m P \<Longrightarrow> (\<And>x. m = Inr x \<Longrightarrow> P x \<Longrightarrow> Q x) \<Longrightarrow> holdsR b m Q"
  by (cases m) auto

lemma holdsR_post: "holdsR b m P \<Longrightarrow> postR m P"
  by (cases m) auto

lemma holdsR_conj_post: "holdsR b m P \<Longrightarrow> postR m Q \<Longrightarrow> holdsR b m (\<lambda>x. P x \<and> Q x)"
  by (cases m) auto

lemma holdsR_guard [simp]: "holdsR b (guardR c e) P \<longleftrightarrow> (b \<longrightarrow> c) \<and> (c \<longrightarrow> P ())"
  by (auto simp: guardR_def)

lemma holdsR_nth [simp]:
  "holdsR b (nth_r xs i) P \<longleftrightarrow> (b \<longrightarrow> i < length xs) \<and> (i < length xs \<longrightarrow> P (xs ! i))"
  by (auto simp: nth_r_def)

lemma holdsR_upd [simp]:
  "holdsR b (upd_r xs i v) P \<longleftrightarrow> (b \<longrightarrow> i < length xs) \<and> (i < length xs \<longrightarrow> P (xs[i := v]))"
  by (auto simp: upd_r_def)

lemma holdsR_slice [simp]:
  "holdsR b (slice_r xs off n) P \<longleftrightarrow>
    (b \<longrightarrow> off + n \<le> length xs) \<and> (off + n \<le> length xs \<longrightarrow> P (take n (drop off xs)))"
  by (auto simp: slice_r_def)

section \<open>Rules for loops\<close>

lemma holdsR_foldR_prefix:
  assumes "P [] s"
    and "\<And>ys x zs s. xs = ys @ x # zs \<Longrightarrow> P ys s \<Longrightarrow> holdsR b (f x s) (P (ys @ [x]))"
  shows "holdsR b (foldR f xs s) (P xs)"
proof -
  have "xs = ys @ zs \<Longrightarrow> P ys t \<Longrightarrow> holdsR b (foldR f zs t) (P xs)" for ys zs t
  proof (induction zs arbitrary: ys t)
    case (Cons z zs)
    have "holdsR b (f z t) (P (ys @ [z]))" using Cons.prems by (intro assms(2)) auto
    then show ?case
      using Cons.IH [of "ys @ [z]"] Cons.prems(1) by (auto elim!: holdsR_mono)
  qed simp
  from this [of "[]" xs s] assms(1) show ?thesis by simp
qed

lemma holdsR_foldR:
  assumes "P s" and "\<And>x s. x \<in> set xs \<Longrightarrow> P s \<Longrightarrow> holdsR b (f x s) P"
  shows "holdsR b (foldR f xs s) P"
  by (rule holdsR_foldR_prefix [of "\<lambda>_. P"]) (use assms in auto)

text \<open>A loop that counts down: \<open>P k\<close> holds when \<open>k\<close> iterations are left.\<close>

lemma holdsR_foldR_downto:
  assumes "P n s" and "\<And>k s. k < n \<Longrightarrow> P (Suc k) s \<Longrightarrow> holdsR b (f (a + int k) s) (P k)"
  shows "holdsR b (foldR f (rev [a..a + int n - 1]) s) (P 0)"
  using assms
proof (induction n arbitrary: s)
  case (Suc n)
  have "rev [a..a + int (Suc n) - 1] = (a + int n) # rev [a..a + int n - 1]"
    using upto_rec2 [of a "a + int n"] by (simp add: algebra_simps)
  moreover have "holdsR b (f (a + int n) s) (P n)" using Suc.prems by blast
  ultimately show ?case
    using Suc.IH Suc.prems(2) by (auto elim!: holdsR_mono)
qed simp

lemma postR_foldR:
  assumes "P s" and "\<And>x s. x \<in> set xs \<Longrightarrow> P s \<Longrightarrow> postR (f x s) P"
  shows "postR (foldR f xs s) P"
  using assms
proof (induction xs arbitrary: s)
  case (Cons x xs)
  have "postR (f x s) P" using Cons.prems by simp
  then show ?case
    using Cons.IH Cons.prems(2) by (auto elim!: postR_mono)
qed simp

lemma okR_foldR:
  assumes "P s" and "\<And>x s. x \<in> set xs \<Longrightarrow> P s \<Longrightarrow> okR (f x s) P"
  shows "okR (foldR f xs s) P"
  using assms
proof (induction xs arbitrary: s)
  case (Cons x xs)
  have "okR (f x s) P" using Cons.prems by simp
  then show ?case
    using Cons.IH Cons.prems(2) by (auto elim!: okR_mono)
qed simp

text \<open>An invariant that also speaks of the elements already visited.\<close>

lemma okR_foldR_prefix:
  assumes "P [] s"
    and "\<And>ys x zs s. xs = ys @ x # zs \<Longrightarrow> P ys s \<Longrightarrow> okR (f x s) (P (ys @ [x]))"
  shows "okR (foldR f xs s) (P xs)"
proof -
  have "xs = ys @ zs \<Longrightarrow> P ys t \<Longrightarrow> okR (foldR f zs t) (P xs)" for ys zs t
  proof (induction zs arbitrary: ys t)
    case (Cons z zs)
    have "okR (f z t) (P (ys @ [z]))" using Cons.prems by (intro assms(2)) auto
    then show ?case
      using Cons.IH [of "ys @ [z]"] Cons.prems(1) by (auto elim!: okR_mono)
  qed simp
  from this [of "[]" xs s] assms(1) show ?thesis by simp
qed

lemma mapR_Inr_iff: "mapR f xs = Inr ys \<longleftrightarrow> list_all2 (\<lambda>x y. f x = Inr y) xs ys"
  by (induction xs arbitrary: ys) (auto simp: bindR_Inr_iff list_all2_Cons1)

lemma mapR_Inr_nth:
  "mapR f xs = Inr ys \<Longrightarrow> length ys = length xs \<and> (\<forall>i<length xs. f (xs ! i) = Inr (ys ! i))"
  by (auto simp: mapR_Inr_iff list_all2_conv_all_nth)

lemma mapR_defined: "(\<And>x. x \<in> set xs \<Longrightarrow> \<exists>y. f x = Inr y) \<Longrightarrow> \<exists>ys. mapR f xs = Inr ys"
  by (induction xs) (auto simp: bindR_Inr_iff)

lemma find_first_Some:
  "find_first P xs n = Inr (Some i) \<Longrightarrow>
    i < n \<and> i < length xs \<and> P (xs ! i) \<and> (\<forall>j<i. \<not> P (xs ! j))"
proof (induction P xs n arbitrary: i rule: find_first.induct)
  case (3 P x xs n)
  then show ?case
    by (auto simp: bindR_Inr_iff less_Suc_eq_0_disj split: if_splits)
qed auto

lemma find_first_None: "find_first P xs n = Inr None \<Longrightarrow> n \<le> length xs \<and> (\<forall>j<n. \<not> P (xs ! j))"
proof (induction P xs n rule: find_first.induct)
  case (3 P x xs n)
  then show ?case
    by (auto simp: bindR_Inr_iff less_Suc_eq_0_disj split: if_splits)
qed auto

lemma find_first_defined: "n \<le> length xs \<Longrightarrow> \<exists>r. find_first P xs n = Inr r"
  by (induction P xs n rule: find_first.induct) (auto simp: bindR_Inr_iff)

section \<open>Lists\<close>

lemma length_resize [simp]: "length (resize d n xs) = n"
  by (simp add: resize_def)

lemma resize_same [simp]: "resize d (length xs) xs = xs"
  by (simp add: resize_def)

lemma nth_resize: "i < n \<Longrightarrow> resize d n xs ! i = (if i < length xs then xs ! i else d)"
  by (auto simp: resize_def nth_append)

lemma upt_split:
  assumes "[0..<n] = ys @ i # zs"
  shows "ys = [0..<i]" and "i < n"
proof -
  have len: "length ys < n" using arg_cong [OF assms, of length] by simp
  have "[0..<n] ! length ys = i" by (simp add: assms)
  then have i: "i = length ys" using len by simp
  have "ys = take (length ys) [0..<n]" by (simp add: assms)
  then show "ys = [0..<i]" "i < n" using len i by (simp_all add: take_upt)
qed

lemma sorted_wrt_snoc [simp]:
  "sorted_wrt P (xs @ [x]) \<longleftrightarrow> sorted_wrt P xs \<and> (\<forall>y\<in>set xs. P y x)"
  by (auto simp: sorted_wrt_append)

lemma sorted_wrt_take_drop:
  "sorted_wrt P xs \<Longrightarrow> x \<in> set (take n xs) \<Longrightarrow> y \<in> set (drop n xs) \<Longrightarrow> P x y"
  by (metis append_take_drop_id sorted_wrt_append)

lemma mset_perm_set: "mset xs = mset ys \<Longrightarrow> set xs = set ys"
  by (metis set_mset_mset)

lemma mset_perm_length: "mset xs = mset ys \<Longrightarrow> length xs = length ys"
  by (metis size_mset)

lemma mset_perm_distinct_map:
  "mset xs = mset ys \<Longrightarrow> distinct (map f xs) = distinct (map f ys)"
  by (metis mset_eq_imp_distinct_iff mset_map)

lemma set_take_subset_nat: "x \<in> set (take n xs) \<Longrightarrow> x \<in> set xs"
  by (rule in_set_takeD)

end
