(* ===== verification/Binary32.thy ===== *)
theory Binary32
  imports Prelude
begin

text \<open>
  IEEE 754 arithmetic as the C++ types \<open>float\<close> and \<open>double\<close> use it (round to nearest,
  ties to even, no contraction of separate operations).  A \<open>float\<close> is its 32-bit pattern,
  since the write-ahead log and the index file store patterns; a value is decoded, the
  operation computed exactly on integers, and the result rounded and encoded again.
  Not-a-number results are the one quiet pattern 7FC00000 (the sources never look at a
  payload).  Comparison is on the patterns' signed magnitudes.
\<close>

section \<open>Values and rounding\<close>

text \<open>\<open>FFin s m e\<close> is the number \<open>(-1)^s * m * 2^e\<close> with \<open>0 \<le> m\<close>.\<close>

datatype fval = FNan | FInf bool | FFin bool int int

record ffmt =
  fprec :: nat
  femin :: int
  femax :: int

definition b32 :: ffmt where
  "b32 = \<lparr>fprec = 24, femin = -149, femax = 104\<rparr>"

definition b64 :: ffmt where
  "b64 = \<lparr>fprec = 53, femin = -1074, femax = 971\<rparr>"

fun bitlen :: "int \<Rightarrow> nat" where
  "bitlen n = (if n \<le> 0 then 0 else Suc (bitlen (n div 2)))"

declare bitlen.simps [simp del]

text \<open>\<open>m / 2^d\<close> rounded to the nearest integer, ties to even.\<close>

definition shr_rne :: "int \<Rightarrow> nat \<Rightarrow> int" where
  "shr_rne m d =
     (let q = m div 2 ^ d; r = 2 * (m mod 2 ^ d)
      in if 2 ^ d < r \<or> (r = 2 ^ d \<and> odd q) then q + 1 else q)"

definition fv_round :: "ffmt \<Rightarrow> bool \<Rightarrow> int \<Rightarrow> int \<Rightarrow> fval" where
  "fv_round fmt s m e =
     (let e' = max (e + int (bitlen m) - int (fprec fmt)) (femin fmt);
          m' = (if e' \<le> e then m * 2 ^ nat (e - e') else shr_rne m (nat (e' - e)));
          m'' = (if m' = 2 ^ fprec fmt then 2 ^ (fprec fmt - 1) else m');
          e'' = (if m' = 2 ^ fprec fmt then e' + 1 else e')
      in if m = 0 then FFin s 0 (femin fmt)
         else if femax fmt < e'' then FInf s
         else FFin s m'' e'')"

fun fv_round_val :: "ffmt \<Rightarrow> fval \<Rightarrow> fval" where
  "fv_round_val fmt (FFin s m e) = fv_round fmt s m e"
| "fv_round_val fmt v = v"

section \<open>Operations\<close>

fun fv_neg :: "fval \<Rightarrow> fval" where
  "fv_neg FNan = FNan"
| "fv_neg (FInf s) = FInf (\<not> s)"
| "fv_neg (FFin s m e) = FFin (\<not> s) m e"

definition sgn_int :: "bool \<Rightarrow> int \<Rightarrow> int" where
  "sgn_int s m = (if s then - m else m)"

fun fv_add :: "ffmt \<Rightarrow> fval \<Rightarrow> fval \<Rightarrow> fval" where
  "fv_add fmt (FFin s1 m1 e1) (FFin s2 m2 e2) =
     (let e = min e1 e2;
          v = sgn_int s1 (m1 * 2 ^ nat (e1 - e)) + sgn_int s2 (m2 * 2 ^ nat (e2 - e))
      in if v = 0 then FFin (s1 \<and> s2) 0 (femin fmt)
         else fv_round fmt (v < 0) \<bar>v\<bar> e)"
| "fv_add fmt FNan _ = FNan"
| "fv_add fmt _ FNan = FNan"
| "fv_add fmt (FInf s1) (FInf s2) = (if s1 = s2 then FInf s1 else FNan)"
| "fv_add fmt (FInf s) (FFin _ _ _) = FInf s"
| "fv_add fmt (FFin _ _ _) (FInf s) = FInf s"

text \<open>The product before rounding.\<close>

fun fv_mul_exact :: "fval \<Rightarrow> fval \<Rightarrow> fval" where
  "fv_mul_exact (FFin s1 m1 e1) (FFin s2 m2 e2) = FFin (s1 \<noteq> s2) (m1 * m2) (e1 + e2)"
| "fv_mul_exact FNan _ = FNan"
| "fv_mul_exact _ FNan = FNan"
| "fv_mul_exact (FInf s1) (FInf s2) = FInf (s1 \<noteq> s2)"
| "fv_mul_exact (FInf s1) (FFin s2 m _) = (if m = 0 then FNan else FInf (s1 \<noteq> s2))"
| "fv_mul_exact (FFin s1 m _) (FInf s2) = (if m = 0 then FNan else FInf (s1 \<noteq> s2))"

definition fv_mul :: "ffmt \<Rightarrow> fval \<Rightarrow> fval \<Rightarrow> fval" where
  "fv_mul fmt a b = fv_round_val fmt (fv_mul_exact a b)"

definition fv_sub :: "ffmt \<Rightarrow> fval \<Rightarrow> fval \<Rightarrow> fval" where
  "fv_sub fmt a b = fv_add fmt a (fv_neg b)"

text \<open>Fused multiply-add: one rounding.\<close>

definition fv_fma :: "ffmt \<Rightarrow> fval \<Rightarrow> fval \<Rightarrow> fval \<Rightarrow> fval" where
  "fv_fma fmt a b c = fv_add fmt (fv_mul_exact a b) c"

text \<open>
  Division keeps more quotient bits than any rounding looks at and a last bit that says
  whether the remainder was zero.
\<close>

fun fv_div :: "ffmt \<Rightarrow> fval \<Rightarrow> fval \<Rightarrow> fval" where
  "fv_div fmt (FFin s1 m1 e1) (FFin s2 m2 e2) =
     (if m2 = 0 then (if m1 = 0 then FNan else FInf (s1 \<noteq> s2))
      else let k = 2 * fprec fmt + 2; q = (m1 * 2 ^ k) div m2; r = (m1 * 2 ^ k) mod m2
           in fv_round fmt (s1 \<noteq> s2) (2 * q + (if r = 0 then 0 else 1)) (e1 - e2 - int k - 1))"
| "fv_div fmt FNan _ = FNan"
| "fv_div fmt _ FNan = FNan"
| "fv_div fmt (FInf _) (FInf _) = FNan"
| "fv_div fmt (FInf s1) (FFin s2 _ _) = FInf (s1 \<noteq> s2)"
| "fv_div fmt (FFin s1 _ _) (FInf s2) = FFin (s1 \<noteq> s2) 0 (femin fmt)"

text \<open>Integer square root, two bits at a time.\<close>

fun isqrt :: "int \<Rightarrow> int" where
  "isqrt n = (if n \<le> 0 then 0
     else let r = 2 * isqrt (n div 4) in if (r + 1) * (r + 1) \<le> n then r + 1 else r)"

declare isqrt.simps [simp del]

fun fv_sqrt :: "ffmt \<Rightarrow> fval \<Rightarrow> fval" where
  "fv_sqrt fmt FNan = FNan"
| "fv_sqrt fmt (FInf s) = (if s then FNan else FInf False)"
| "fv_sqrt fmt (FFin s m e) =
     (if m = 0 then FFin s 0 (femin fmt)
      else if s then FNan
      else let k = (if even e then 2 * fprec fmt + 4 else 2 * fprec fmt + 5);
               r = isqrt (m * 2 ^ k);
               st = (if r * r = m * 2 ^ k then 0 else 1)
           in fv_round fmt False (2 * r + st) ((e - int k) div 2 - 1))"

text \<open>The order of the values; not-a-number is not below anything.\<close>

fun fv_lt :: "fval \<Rightarrow> fval \<Rightarrow> bool" where
  "fv_lt (FFin s1 m1 e1) (FFin s2 m2 e2) =
     (let e = min e1 e2
      in sgn_int s1 (m1 * 2 ^ nat (e1 - e)) < sgn_int s2 (m2 * 2 ^ nat (e2 - e)))"
| "fv_lt FNan _ = False"
| "fv_lt _ FNan = False"
| "fv_lt (FInf s1) (FInf s2) = (s1 \<and> \<not> s2)"
| "fv_lt (FInf s) (FFin _ _ _) = s"
| "fv_lt (FFin _ _ _) (FInf s) = (\<not> s)"

section \<open>The 32-bit patterns\<close>

datatype f32 = F32 (f32_bits: "32 word")

definition f32_sign :: "f32 \<Rightarrow> bool" where
  "f32_sign a = (2 ^ 31 \<le> uint (f32_bits a))"

text \<open>Exponent and fraction field together.\<close>

definition f32_mag :: "f32 \<Rightarrow> int" where
  "f32_mag a = uint (f32_bits a) mod 2 ^ 31"

definition f32_decode :: "f32 \<Rightarrow> fval" where
  "f32_decode a =
     (let ex = f32_mag a div 2 ^ 23; fr = f32_mag a mod 2 ^ 23; s = f32_sign a
      in if ex = 255 then (if fr = 0 then FInf s else FNan)
         else if ex = 0 then FFin s fr (-149)
         else FFin s (fr + 2 ^ 23) (ex - 150))"

fun f32_encode :: "fval \<Rightarrow> f32" where
  "f32_encode FNan = F32 2143289344"
| "f32_encode (FInf s) = F32 (word_of_int ((if s then 2 ^ 31 else 0) + 2139095040))"
| "f32_encode (FFin s m e) =
     F32 (word_of_int ((if s then 2 ^ 31 else 0)
       + (if m < 2 ^ 23 then m else (e + 150) * 2 ^ 23 + (m - 2 ^ 23))))"

definition is_nan :: "f32 \<Rightarrow> bool" where
  "is_nan a = (2139095040 < f32_mag a)"

text \<open>The signed magnitude: the order of the floats that are numbers.\<close>

definition f32_key :: "f32 \<Rightarrow> int" where
  "f32_key a = sgn_int (f32_sign a) (f32_mag a)"

instantiation f32 :: "{ord, uminus, zero}"
begin

definition zero_f32 :: f32 where
  "zero_f32 = F32 0"

definition less_f32 :: "f32 \<Rightarrow> f32 \<Rightarrow> bool" where
  "less_f32 a b = (\<not> is_nan a \<and> \<not> is_nan b \<and> f32_key a < f32_key b)"

definition less_eq_f32 :: "f32 \<Rightarrow> f32 \<Rightarrow> bool" where
  "less_eq_f32 a b = (\<not> is_nan a \<and> \<not> is_nan b \<and> f32_key a \<le> f32_key b)"

definition uminus_f32 :: "f32 \<Rightarrow> f32" where
  "uminus_f32 a = F32 (word_of_int (f32_mag a + (if f32_sign a then 0 else 2 ^ 31)))"

instance ..

end

definition f32_infinity :: f32 where
  "f32_infinity = F32 2139095040"

definition f32_add :: "f32 \<Rightarrow> f32 \<Rightarrow> f32" where
  "f32_add a b = f32_encode (fv_add b32 (f32_decode a) (f32_decode b))"

definition f32_sub :: "f32 \<Rightarrow> f32 \<Rightarrow> f32" where
  "f32_sub a b = f32_encode (fv_sub b32 (f32_decode a) (f32_decode b))"

definition f32_mul :: "f32 \<Rightarrow> f32 \<Rightarrow> f32" where
  "f32_mul a b = f32_encode (fv_mul b32 (f32_decode a) (f32_decode b))"

definition f32_fma :: "f32 \<Rightarrow> f32 \<Rightarrow> f32 \<Rightarrow> f32" where
  "f32_fma a b c = f32_encode (fv_fma b32 (f32_decode a) (f32_decode b) (f32_decode c))"

definition f32_div :: "f32 \<Rightarrow> f32 \<Rightarrow> f32" where
  "f32_div a b = f32_encode (fv_div b32 (f32_decode a) (f32_decode b))"

definition f32_sqrt :: "f32 \<Rightarrow> f32" where
  "f32_sqrt a = f32_encode (fv_sqrt b32 (f32_decode a))"

text \<open>\<open>static_cast<float>\<close> of an integer and of a double.\<close>

definition f32_of_int :: "int \<Rightarrow> f32" where
  "f32_of_int n = f32_encode (fv_round b32 (n < 0) \<bar>n\<bar> 0)"

definition f32_of_double :: "fval \<Rightarrow> f32" where
  "f32_of_double v = f32_encode (fv_round_val b32 v)"

text \<open>
  \<open>static_cast<int>\<close> of a float: truncation towards zero; a value whose integral part does
  not fit 32 bits is undefined behaviour.
\<close>

definition f32_to_int :: "f32 \<Rightarrow> int res" where
  "f32_to_int a = (case f32_decode a of
     FFin s m e \<Rightarrow>
       (let n = sgn_int s (if 0 \<le> e then m * 2 ^ nat e else m div 2 ^ nat (- e))
        in if - (2 ^ 31) \<le> n \<and> n < 2 ^ 31 then Inr n else Inl Undefined_Behaviour)
   | _ \<Rightarrow> Inl Undefined_Behaviour)"

section \<open>Order and negation\<close>

lemma f32_mag_bounds: "0 \<le> f32_mag a" "f32_mag a < 2 ^ 31"
  by (simp_all add: f32_mag_def)

lemma split_high_bit:
  assumes "0 \<le> x" and "x < 2 * (p :: int)"
  shows "x = x mod p + (if p \<le> x then p else 0)"
proof (cases "p \<le> x")
  case True
  have "x mod p = (x - p) mod p" by simp
  also have "\<dots> = x - p" using True assms by (intro mod_pos_pos_trivial) auto
  finally show ?thesis using True by simp
next
  case False
  then show ?thesis using assms by simp
qed

lemma f32_bits_split: "uint (f32_bits a) = f32_mag a + (if f32_sign a then 2 ^ 31 else 0)"
  unfolding f32_mag_def f32_sign_def
  using uint_lt2p [of "f32_bits a"] by (intro split_high_bit) simp_all

lemma uint_f32_neg: "uint (f32_bits (- a)) = f32_mag a + (if f32_sign a then 0 else 2 ^ 31)"
proof -
  let ?n = "f32_mag a + (if f32_sign a then 0 else 2 ^ 31)"
  have "uint (word_of_int ?n :: 32 word) = ?n mod 2 ^ LENGTH(32)"
    by (rule uint_word_of_int)
  also have "\<dots> = ?n"
    using f32_mag_bounds [of a] by (intro mod_pos_pos_trivial) auto
  finally show ?thesis by (simp only: uminus_f32_def f32.sel)
qed

lemma f32_mag_neg [simp]: "f32_mag (- a) = f32_mag a"
  using f32_mag_bounds [of a] by (subst f32_mag_def) (simp add: uint_f32_neg)

lemma f32_sign_neg [simp]: "f32_sign (- a) = (\<not> f32_sign a)"
  using f32_mag_bounds [of a] by (subst f32_sign_def) (simp add: uint_f32_neg)

lemma f32_neg_neg [simp]: "- (- a) = (a :: f32)"
proof -
  have "uint (f32_bits (- (- a))) = uint (f32_bits a)"
    by (simp add: uint_f32_neg f32_bits_split [of a])
  then show ?thesis by (metis f32.expand word_uint_eqI)
qed

lemma is_nan_neg [simp]: "is_nan (- a) = is_nan a"
  by (simp add: is_nan_def)

lemma f32_key_neg [simp]: "f32_key (- a) = - f32_key a"
  by (simp add: f32_key_def sgn_int_def)

lemma f32_neg_less_iff [simp]: "- a < - b \<longleftrightarrow> b < (a :: f32)"
  by (auto simp: less_f32_def)

lemma f32_neg_eq_iff [simp]: "- a = - b \<longleftrightarrow> a = (b :: f32)"
  by (metis f32_neg_neg)

lemma f32_less_irrefl [simp]: "\<not> a < (a :: f32)"
  by (simp add: less_f32_def)

lemma f32_less_trans: "a < b \<Longrightarrow> b < c \<Longrightarrow> a < (c :: f32)"
  by (simp add: less_f32_def)

lemma f32_less_asym: "a < b \<Longrightarrow> \<not> b < (a :: f32)"
  by (simp add: less_f32_def)

lemma f32_not_less_iff: "\<not> is_nan a \<Longrightarrow> \<not> is_nan b \<Longrightarrow> \<not> a < b \<longleftrightarrow> f32_key b \<le> f32_key a"
  by (auto simp: less_f32_def)

lemma f32_not_less_trans:
  "\<not> is_nan a \<Longrightarrow> \<not> is_nan b \<Longrightarrow> \<not> is_nan c \<Longrightarrow> \<not> a < b \<Longrightarrow> \<not> b < c \<Longrightarrow> \<not> a < (c :: f32)"
  by (auto simp: less_f32_def)

lemma f32_infinity_key [simp]: "f32_key f32_infinity = 2139095040"
  by code_simp

lemma f32_infinity_not_nan [simp]: "\<not> is_nan f32_infinity"
  by code_simp

lemma f32_key_ge_minus_infinity: "\<not> is_nan a \<Longrightarrow> f32_key (- f32_infinity) \<le> f32_key a"
  using f32_mag_bounds [of a]
  by (auto simp: is_nan_def f32_key_def [of a] sgn_int_def)

lemma f32_key_ge_minus_infinity': "\<not> is_nan a \<Longrightarrow> - 2139095040 \<le> f32_key a"
  using f32_key_ge_minus_infinity [of a] by simp

lemma f32_not_less_minus_infinity [simp]: "\<not> a < - f32_infinity"
  using f32_key_ge_minus_infinity' [of a] by (auto simp: less_f32_def)

text \<open>Only the pattern of minus infinity itself has its key.\<close>

lemma f32_key_inj:
  assumes "f32_key a = f32_key b" and "f32_key a \<noteq> 0"
  shows "a = b"
proof -
  have "f32_sign a = f32_sign b" "f32_mag a = f32_mag b"
    using assms f32_mag_bounds [of a] f32_mag_bounds [of b]
    by (auto simp: f32_key_def sgn_int_def split: if_splits)
  then have "uint (f32_bits a) = uint (f32_bits b)" by (simp add: f32_bits_split)
  then show ?thesis by (metis f32.expand word_uint_eqI)
qed

lemma f32_above_minus_infinity:
  "\<not> is_nan a \<Longrightarrow> a \<noteq> - f32_infinity \<Longrightarrow> - f32_infinity < a"
proof -
  assume a: "\<not> is_nan a" and ne: "a \<noteq> - f32_infinity"
  have "f32_key a \<noteq> f32_key (- f32_infinity)"
    using ne f32_key_inj [of a "- f32_infinity"] by auto
  with f32_key_ge_minus_infinity [OF a] a show ?thesis by (simp add: less_f32_def)
qed

section \<open>Commutativity\<close>

lemma fv_add_comm: "fv_add fmt a b = fv_add fmt b a"
  by (cases a; cases b) (auto simp: min.commute add.commute conj_commute Let_def)

lemma fv_mul_exact_comm: "fv_mul_exact a b = fv_mul_exact b a"
  by (cases a; cases b) (auto simp: mult.commute add.commute)

lemma f32_add_comm: "f32_add a b = f32_add b a"
  by (simp add: f32_add_def fv_add_comm)

lemma f32_mul_comm: "f32_mul a b = f32_mul b a"
  by (simp add: f32_mul_def fv_mul_def fv_mul_exact_comm)

lemma f32_fma_comm: "f32_fma a b c = f32_fma b a c"
  by (simp add: f32_fma_def fv_fma_def fv_mul_exact_comm)

lemma fv_mul_comm: "fv_mul fmt a b = fv_mul fmt b a"
  by (simp add: fv_mul_def fv_mul_exact_comm)

end
