(* ===== verification/Byte_Codec.thy ===== *)
theory Byte_Codec
  imports Binary32
begin

text \<open>
  Bytes of the files: integers and floats as their object representation on the
  little-endian targets the program is built for, sequential readers, and the files the
  program opens by name.  A reader takes its bytes from the front of what is left and fails
  when too few are left, as \<open>fread\<close> with a single item does.
\<close>

section \<open>Integers and floats as bytes\<close>

type_synonym byte = "8 word"

primrec le_bytes :: "nat \<Rightarrow> nat \<Rightarrow> byte list" where
  "le_bytes 0 x = []"
| "le_bytes (Suc n) x = word_of_nat (x mod 256) # le_bytes n (x div 256)"

primrec le_nat :: "byte list \<Rightarrow> nat" where
  "le_nat [] = 0"
| "le_nat (b # bs) = unat b + 256 * le_nat bs"

definition le32 :: "32 word \<Rightarrow> byte list" where
  "le32 w = le_bytes 4 (unat w)"

definition le64 :: "64 word \<Rightarrow> byte list" where
  "le64 w = le_bytes 8 (unat w)"

definition le_f32 :: "f32 \<Rightarrow> byte list" where
  "le_f32 a = le32 (f32_bits a)"

text \<open>\<open>static_cast<uint32_t>\<close> of a size.\<close>

definition u32 :: "nat \<Rightarrow> 32 word" where
  "u32 n = word_of_nat n"

definition bytes_of_string :: "string \<Rightarrow> byte list" where
  "bytes_of_string s = map (\<lambda>c. word_of_nat (of_char c)) s"

definition string_of_bytes :: "byte list \<Rightarrow> string" where
  "string_of_bytes bs = map (\<lambda>b. char_of (unat b)) bs"

lemma length_le_bytes [simp]: "length (le_bytes n x) = n"
  by (induction n arbitrary: x) auto

lemma length_le32 [simp]: "length (le32 w) = 4"
  by (simp add: le32_def)

lemma length_le64 [simp]: "length (le64 w) = 8"
  by (simp add: le64_def)

lemma length_le_f32 [simp]: "length (le_f32 a) = 4"
  by (simp add: le_f32_def)

lemma length_bytes_of_string [simp]: "length (bytes_of_string s) = length s"
  by (simp add: bytes_of_string_def)

lemma le_nat_le_bytes: "le_nat (le_bytes n x) = x mod 256 ^ n"
proof (induction n arbitrary: x)
  case (Suc n)
  have "unat (word_of_nat (x mod 256) :: byte) = x mod 256"
    by (simp add: unat_of_nat)
  then show ?case using Suc mod_mult2_eq [of x 256 "256 ^ n"] by simp
qed simp

lemma le_bytes_le_nat: "le_bytes (length bs) (le_nat bs) = bs"
proof (induction bs)
  case (Cons b bs)
  have "unat b < 256" using unsigned_less [of b] by simp
  then show ?case using Cons by simp
qed simp

lemma unat_bound: "unat (w :: 'a::len word) < 2 ^ LENGTH('a)"
  by simp

lemma le_nat_less: "le_nat bs < 256 ^ length bs"
proof (induction bs)
  case (Cons b bs)
  have "unat b < 256" using unat_bound [of b] by simp
  then show ?case using Cons by simp
qed simp

lemma string_of_bytes_of_string [simp]: "string_of_bytes (bytes_of_string s) = s"
proof -
  have "unat (word_of_nat (of_char c) :: byte) = (of_char c :: nat)" for c
    by (cases c) (simp add: unat_of_nat split: prod.splits bool.splits)
  then show ?thesis by (simp add: string_of_bytes_def bytes_of_string_def comp_def)
qed

lemma u32_unat: "n < 2 ^ 32 \<Longrightarrow> unat (u32 n) = n"
  by (simp add: u32_def unat_of_nat)

section \<open>Integers as text\<close>

text \<open>\<open>std::to_string\<close> of a size.\<close>

fun decimal :: "nat \<Rightarrow> string" where
  "decimal n = (if n < 10 then [char_of (48 + n)] else decimal (n div 10) @ [char_of (48 + n mod 10)])"

declare decimal.simps [simp del]

section \<open>Readers\<close>

type_synonym 'a reader = "byte list \<Rightarrow> ('a \<times> byte list) option"

definition read_bytes :: "nat \<Rightarrow> byte list reader" where
  "read_bytes n bs = (if n \<le> length bs then Some (take n bs, drop n bs) else None)"

definition read_u8 :: "byte reader" where
  "read_u8 bs = (case bs of [] \<Rightarrow> None | b # rest \<Rightarrow> Some (b, rest))"

definition read_u32 :: "32 word reader" where
  "read_u32 bs = map_option (\<lambda>(x, rest). (word_of_nat (le_nat x), rest)) (read_bytes 4 bs)"

definition read_u64 :: "64 word reader" where
  "read_u64 bs = map_option (\<lambda>(x, rest). (word_of_nat (le_nat x), rest)) (read_bytes 8 bs)"

text \<open>\<open>n\<close> floats in one call.\<close>

primrec f32s_of_bytes :: "nat \<Rightarrow> byte list \<Rightarrow> f32 list" where
  "f32s_of_bytes 0 bs = []"
| "f32s_of_bytes (Suc n) bs = F32 (word_of_nat (le_nat (take 4 bs))) # f32s_of_bytes n (drop 4 bs)"

definition read_f32s :: "nat \<Rightarrow> f32 list reader" where
  "read_f32s n bs = map_option (\<lambda>(x, rest). (f32s_of_bytes n x, rest)) (read_bytes (4 * n) bs)"

definition f32s_bytes :: "f32 list \<Rightarrow> byte list" where
  "f32s_bytes v = concat (map le_f32 v)"

lemma length_f32s_bytes [simp]: "length (f32s_bytes v) = 4 * length v"
  by (induction v) (simp_all add: f32s_bytes_def)

lemma read_bytes_append [simp]: "length x = n \<Longrightarrow> read_bytes n (x @ rest) = Some (x, rest)"
  by (simp add: read_bytes_def)

lemma read_bytes_short: "length bs < n \<Longrightarrow> read_bytes n bs = None"
  by (simp add: read_bytes_def)

lemma read_u8_Cons [simp]: "read_u8 (b # rest) = Some (b, rest)"
  by (simp add: read_u8_def)

lemma read_u32_append [simp]: "read_u32 (le32 w @ rest) = Some (w, rest)"
proof -
  have "(256::nat) ^ 4 = 2 ^ LENGTH(32)" by simp
  then have "word_of_nat (le_nat (le32 w)) = w"
    unfolding le32_def le_nat_le_bytes using unat_bound [of w] by (simp only: mod_less) simp
  then show ?thesis by (simp add: read_u32_def)
qed

lemma read_u64_append [simp]: "read_u64 (le64 w @ rest) = Some (w, rest)"
proof -
  have "(256::nat) ^ 8 = 2 ^ LENGTH(64)" by simp
  then have "word_of_nat (le_nat (le64 w)) = w"
    unfolding le64_def le_nat_le_bytes using unat_bound [of w] by (simp only: mod_less) simp
  then show ?thesis by (simp add: read_u64_def)
qed

lemma f32s_of_bytes_inverse: "f32s_of_bytes (length v) (f32s_bytes v) = v"
proof (induction v)
  case (Cons a v)
  have "word_of_nat (le_nat (le_f32 a)) = f32_bits a"
    using read_u32_append [of "f32_bits a" "[]"] by (simp add: read_u32_def le_f32_def read_bytes_def)
  then show ?case using Cons by (simp add: f32s_bytes_def)
qed (simp add: f32s_bytes_def)

lemma read_f32s_append [simp]:
  "length v = n \<Longrightarrow> read_f32s n (f32s_bytes v @ rest) = Some (v, rest)"
  using f32s_of_bytes_inverse [of v] by (auto simp: read_f32s_def)

text \<open>The readers of fixed width fail on a shorter input.\<close>

lemma read_short:
  "length bs < 4 \<Longrightarrow> read_u32 bs = None"
  "length bs < 8 \<Longrightarrow> read_u64 bs = None"
  "length bs < 4 * n \<Longrightarrow> read_f32s n bs = None"
  "bs = [] \<Longrightarrow> read_u8 bs = None"
  by (simp_all add: read_u32_def read_u64_def read_f32s_def read_u8_def read_bytes_short)

text \<open>A reader only ever drops bytes from the front.\<close>

lemma read_shrinks:
  "read_u8 bs = Some (x8, rest) \<Longrightarrow> length rest < length bs"
  "read_bytes n bs = Some (xb, rest) \<Longrightarrow> length rest \<le> length bs"
  "read_u32 bs = Some (x32, rest) \<Longrightarrow> length rest \<le> length bs"
  "read_u64 bs = Some (x64, rest) \<Longrightarrow> length rest \<le> length bs"
  "read_f32s n bs = Some (v, rest) \<Longrightarrow> length rest \<le> length bs"
  by (auto simp: read_u8_def read_u32_def read_u64_def read_f32s_def read_bytes_def
      split: list.splits if_splits)

section \<open>Files\<close>

text \<open>
  The files by name, and the names \<open>fopen\<close> refuses (permissions, missing directories).
\<close>

record filesys =
  fs_files :: "string \<Rightarrow> byte list option"
  fs_refused :: "string \<Rightarrow> bool"

text \<open>\<open>fopen\<close> in mode ab creates the file, in mode wb truncates it, in mode rb needs it.\<close>

definition fopen_ab :: "filesys \<Rightarrow> string \<Rightarrow> filesys option" where
  "fopen_ab fs path =
     (if fs_refused fs path then None
      else Some (fs\<lparr>fs_files := (fs_files fs)(path :=
        (case fs_files fs path of None \<Rightarrow> Some [] | Some c \<Rightarrow> Some c))\<rparr>))"

definition fopen_wb :: "filesys \<Rightarrow> string \<Rightarrow> filesys option" where
  "fopen_wb fs path =
     (if fs_refused fs path then None
      else Some (fs\<lparr>fs_files := (fs_files fs)(path := Some [])\<rparr>))"

definition fopen_rb :: "filesys \<Rightarrow> string \<Rightarrow> byte list option" where
  "fopen_rb fs path = (if fs_refused fs path then None else fs_files fs path)"

end
