(* ===== verification/Wal.thy ===== *)
theory Wal
  imports Byte_Codec
begin

text \<open>
  The write-ahead log (\<open>src/include/wal.hpp\<close>, \<open>src/src/wal.cpp\<close>): the records, the open
  handle, appending, replay and the checkpoint that empties the log.  The file system is
  threaded through the operations that write.  \<open>fwrite\<close> and \<open>fflush\<close> succeed here; a crash
  in the middle of a write is a prefix of the file, which is what the theorems on torn logs
  are about.
\<close>

section \<open>Records and the handle\<close>

datatype wal_op_code = INSERT | DELETE | Other_Op byte

record wal_record =
  wr_op :: wal_op_code
  wr_id :: "64 word"
  wr_dim :: "32 word"
  wr_vec :: "f32 list"
  wr_metadata :: string

text \<open>The value of the enumeration that a byte is cast to, and back.\<close>

definition wal_op_of :: "byte \<Rightarrow> wal_op_code" where
  "wal_op_of b = (if b = 1 then INSERT else if b = 2 then DELETE else Other_Op b)"

definition wal_op_byte :: "wal_op_code \<Rightarrow> byte" where
  "wal_op_byte op = (case op of INSERT \<Rightarrow> 1 | DELETE \<Rightarrow> 2 | Other_Op b \<Rightarrow> b)"

text \<open>
  A handle in mode ab writes at the end of the file, one in mode wb at its own position.
  \<open>wal_fp = None\<close> is the null pointer.
\<close>

datatype wal_handle = At_End | At_Pos nat

record wal =
  wal_path :: string
  wal_fp :: "wal_handle option"

definition wal_is_open :: "wal \<Rightarrow> bool" where
  "wal_is_open w = (wal_fp w \<noteq> None)"

section \<open>Operations\<close>

definition wal_open :: "string \<Rightarrow> filesys \<Rightarrow> (wal \<times> filesys) res" where
  "wal_open path fs =
     (case fopen_ab fs path of
        None \<Rightarrow> Inl (Runtime_Error (''WAL: cannot open '' @ path))
      | Some fs' \<Rightarrow> Inr (\<lparr>wal_path = path, wal_fp = Some At_End\<rparr>, fs'))"

text \<open>Writing through the handle; writing through a null pointer is undefined.\<close>

definition wal_write :: "byte list \<Rightarrow> wal \<times> filesys \<Rightarrow> (wal \<times> filesys) res" where
  "wal_write bs = (\<lambda>(w, fs).
     let content = (case fs_files fs (wal_path w) of None \<Rightarrow> [] | Some c \<Rightarrow> c) in
     case wal_fp w of
       None \<Rightarrow> Inl Undefined_Behaviour
     | Some At_End \<Rightarrow>
         Inr (w, fs\<lparr>fs_files := (fs_files fs)(wal_path w \<mapsto> content @ bs)\<rparr>)
     | Some (At_Pos p) \<Rightarrow>
         Inr (w\<lparr>wal_fp := Some (At_Pos (p + length bs))\<rparr>,
              fs\<lparr>fs_files := (fs_files fs)(wal_path w \<mapsto>
                take p content @ replicate (p - length content) 0 @ bs
                  @ drop (p + length bs) content)\<rparr>))"

text \<open>
  \<open>append_insert\<close>: the length of the metadata is cut to 32 bits and that many characters
  follow; the dimension is cut too, but all the floats follow.
\<close>

definition wal_append_insert ::
  "64 word \<Rightarrow> f32 list \<Rightarrow> nat \<Rightarrow> string \<Rightarrow> wal \<times> filesys \<Rightarrow> (wal \<times> filesys) res" where
  "wal_append_insert i vec n meta s =
     bindR (wal_write [wal_op_byte INSERT] s) (\<lambda>s.
     bindR (wal_write (le64 i) s) (\<lambda>s.
     bindR (wal_write (le32 (u32 n)) s) (\<lambda>s.
     bindR (slice_r vec 0 n) (\<lambda>v.
     bindR (wal_write (f32s_bytes v) s) (\<lambda>s.
     let mlen = u32 (length meta) in
     bindR (wal_write (le32 mlen) s) (\<lambda>s.
     wal_write (take (unat mlen) (bytes_of_string meta)) s))))))"

definition wal_append_delete :: "64 word \<Rightarrow> wal \<times> filesys \<Rightarrow> (wal \<times> filesys) res" where
  "wal_append_delete i s =
     bindR (wal_write [wal_op_byte DELETE] s) (\<lambda>s.
     bindR (wal_write (le64 i) s) (\<lambda>s.
     bindR (wal_write (le32 0) s) (\<lambda>s.
     wal_write (le32 0) s)))"

text \<open>One iteration of the loop of \<open>replay\<close>: \<open>None\<close> is each of its breaks.\<close>

definition wal_read_record :: "wal_record reader" where
  "wal_read_record bs =
     (case read_u8 bs of None \<Rightarrow> None | Some (op, bs) \<Rightarrow>
     (case read_u64 bs of None \<Rightarrow> None | Some (i, bs) \<Rightarrow>
     (case read_u32 bs of None \<Rightarrow> None | Some (n, bs) \<Rightarrow>
     (case read_f32s (unat n) bs of None \<Rightarrow> None | Some (v, bs) \<Rightarrow>
     (case read_u32 bs of None \<Rightarrow> None | Some (mlen, bs) \<Rightarrow>
     (case read_bytes (unat mlen) bs of None \<Rightarrow> None | Some (m, bs) \<Rightarrow>
        Some (\<lparr>wr_op = wal_op_of op, wr_id = i, wr_dim = n, wr_vec = v,
               wr_metadata = string_of_bytes m\<rparr>, bs)))))))"

text \<open>The callbacks: the one for deletions may be missing.\<close>

definition wal_dispatch ::
  "(wal_record \<Rightarrow> 'st \<Rightarrow> 'st res) \<Rightarrow> (64 word \<Rightarrow> 'st \<Rightarrow> 'st res) option
     \<Rightarrow> wal_record \<Rightarrow> 'st \<Rightarrow> 'st res" where
  "wal_dispatch on_insert on_delete rec st =
     (case wr_op rec of
        INSERT \<Rightarrow> on_insert rec st
      | DELETE \<Rightarrow> (case on_delete of None \<Rightarrow> Inr st | Some f \<Rightarrow> f (wr_id rec) st)
      | Other_Op _ \<Rightarrow> Inr st)"

lemma wal_read_record_shrinks:
  "wal_read_record bs = Some (rec, rest) \<Longrightarrow> length rest < length bs"
  by (auto simp: wal_read_record_def split: option.splits dest!: read_shrinks)

function wal_replay_loop ::
  "(wal_record \<Rightarrow> 'st \<Rightarrow> 'st res) \<Rightarrow> (64 word \<Rightarrow> 'st \<Rightarrow> 'st res) option
     \<Rightarrow> byte list \<Rightarrow> 'st \<Rightarrow> 'st res" where
  "wal_replay_loop on_insert on_delete bs st =
     (case wal_read_record bs of
        None \<Rightarrow> Inr st
      | Some (rec, rest) \<Rightarrow>
          bindR (wal_dispatch on_insert on_delete rec st)
            (wal_replay_loop on_insert on_delete rest))"
  by pat_completeness auto
termination
  by (relation "measure (\<lambda>(f, g, bs, st). length bs)") (auto dest: wal_read_record_shrinks)

declare wal_replay_loop.simps [simp del]

definition wal_replay ::
  "(wal_record \<Rightarrow> 'st \<Rightarrow> 'st res) \<Rightarrow> (64 word \<Rightarrow> 'st \<Rightarrow> 'st res) option
     \<Rightarrow> wal \<times> filesys \<Rightarrow> 'st \<Rightarrow> 'st res" where
  "wal_replay on_insert on_delete = (\<lambda>(w, fs) st.
     case fopen_rb fs (wal_path w) of
       None \<Rightarrow> Inr st
     | Some content \<Rightarrow> wal_replay_loop on_insert on_delete content st)"

text \<open>
  \<open>checkpoint\<close> stores the new handle before it tests it, so the state after a failure has
  a null pointer; the result is the exception, if any, with the state it leaves.
\<close>

definition wal_checkpoint :: "wal \<times> filesys \<Rightarrow> unit res \<times> (wal \<times> filesys)" where
  "wal_checkpoint = (\<lambda>(w, fs).
     case fopen_wb fs (wal_path w) of
       None \<Rightarrow>
         (Inl (Runtime_Error (''WAL: checkpoint failed, cannot truncate '' @ wal_path w)),
          w\<lparr>wal_fp := None\<rparr>, fs)
     | Some fs' \<Rightarrow> (Inr (), w\<lparr>wal_fp := Some (At_Pos 0)\<rparr>, fs'))"

section \<open>The log as a list of entries\<close>

text \<open>What the log stands for: the calls that were logged, in order.\<close>

datatype wal_entry = Insert_Entry "64 word" "f32 list" string | Delete_Entry "64 word"

fun entry_bytes :: "wal_entry \<Rightarrow> byte list" where
  "entry_bytes (Insert_Entry i v m) =
     1 # le64 i @ le32 (u32 (length v)) @ f32s_bytes v @ le32 (u32 (length m)) @ bytes_of_string m"
| "entry_bytes (Delete_Entry i) = 2 # le64 i @ le32 0 @ le32 0"

definition log_bytes :: "wal_entry list \<Rightarrow> byte list" where
  "log_bytes es = concat (map entry_bytes es)"

text \<open>Lengths that the 32-bit fields can hold.\<close>

fun entry_fits :: "wal_entry \<Rightarrow> bool" where
  "entry_fits (Insert_Entry i v m) = (length v < 2 ^ 32 \<and> length m < 2 ^ 32)"
| "entry_fits (Delete_Entry i) = True"

fun entry_record :: "wal_entry \<Rightarrow> wal_record" where
  "entry_record (Insert_Entry i v m) =
     \<lparr>wr_op = INSERT, wr_id = i, wr_dim = u32 (length v), wr_vec = v, wr_metadata = m\<rparr>"
| "entry_record (Delete_Entry i) =
     \<lparr>wr_op = DELETE, wr_id = i, wr_dim = 0, wr_vec = [], wr_metadata = []\<rparr>"

fun log_entry :: "wal_entry \<Rightarrow> wal \<times> filesys \<Rightarrow> (wal \<times> filesys) res" where
  "log_entry (Insert_Entry i v m) = wal_append_insert i v (length v) m"
| "log_entry (Delete_Entry i) = wal_append_delete i"

text \<open>The calls that replaying the entries makes.\<close>

fun apply_entry ::
  "(wal_record \<Rightarrow> 'st \<Rightarrow> 'st res) \<Rightarrow> (64 word \<Rightarrow> 'st \<Rightarrow> 'st res) option
     \<Rightarrow> wal_entry \<Rightarrow> 'st \<Rightarrow> 'st res" where
  "apply_entry on_insert on_delete (Insert_Entry i v m) st =
     on_insert \<lparr>wr_op = INSERT, wr_id = i, wr_dim = u32 (length v), wr_vec = v, wr_metadata = m\<rparr> st"
| "apply_entry on_insert on_delete (Delete_Entry i) st =
     (case on_delete of None \<Rightarrow> Inr st | Some f \<Rightarrow> f i st)"

text \<open>The entries that lie wholly within the first \<open>n\<close> bytes.\<close>

fun whole_entries :: "nat \<Rightarrow> wal_entry list \<Rightarrow> wal_entry list" where
  "whole_entries n [] = []"
| "whole_entries n (e # es) =
     (if length (entry_bytes e) \<le> n then e # whole_entries (n - length (entry_bytes e)) es else [])"

lemma dispatch_entry_record: "wal_dispatch f g (entry_record e) = apply_entry f g e"
  by (rule ext, cases e) (simp_all add: wal_dispatch_def split: option.splits)

lemma log_bytes_simps [simp]:
  "log_bytes [] = []"
  "log_bytes (e # es) = entry_bytes e @ log_bytes es"
  "log_bytes (es @ fs) = log_bytes es @ log_bytes fs"
  by (simp_all add: log_bytes_def)

subsection \<open>Reading a record\<close>

lemma wal_op_of_byte [simp]: "wal_op_of (wal_op_byte INSERT) = INSERT" "wal_op_of (wal_op_byte DELETE) = DELETE"
  by (simp_all add: wal_op_of_def wal_op_byte_def)

lemma wal_op_of_simps [simp]: "wal_op_of 1 = INSERT" "wal_op_of 2 = DELETE"
  by (simp_all add: wal_op_of_def)

lemma read_nothing [simp]: "read_f32s 0 bs = Some ([], bs)" "read_bytes 0 bs = Some ([], bs)"
  by (simp_all add: read_f32s_def read_bytes_def)

lemma string_of_bytes_Nil [simp]: "string_of_bytes [] = []"
  by (simp add: string_of_bytes_def)

lemma read_entry:
  "entry_fits e \<Longrightarrow> wal_read_record (entry_bytes e @ rest) = Some (entry_record e, rest)"
  by (cases e) (simp_all add: wal_read_record_def u32_unat)

text \<open>An entry that is cut short gives no record.\<close>

lemma read_u8_prefix: "read_u8 (take n (b # bs)) = (if n = 0 then None else Some (b, take (n - 1) bs))"
  by (cases n) (simp_all add: read_u8_def)

lemma read_take_append:
  "read_u64 (take n (le64 w @ bs)) = (if n < 8 then None else Some (w, take (n - 8) bs))"
  "read_u32 (take n (le32 x @ bs)) = (if n < 4 then None else Some (x, take (n - 4) bs))"
  "read_f32s (length v) (take n (f32s_bytes v @ bs))
     = (if n < 4 * length v then None else Some (v, take (n - 4 * length v) bs))"
  by (auto simp: read_short)

lemma read_torn_entry:
  assumes "entry_fits e" and "n < length (entry_bytes e)"
  shows "wal_read_record (take n (entry_bytes e)) = None"
proof (cases e)
  case (Insert_Entry i v m)
  then show ?thesis
    using assms
    by (auto simp: wal_read_record_def u32_unat read_u8_prefix read_take_append read_bytes_short
        simp del: take_append)
next
  case (Delete_Entry i)
  then show ?thesis
    using assms read_take_append(2) [of _ 0 "[]"]
    by (auto simp: wal_read_record_def read_u8_prefix read_take_append simp del: take_append)
qed

lemma replay_entries:
  assumes "list_all entry_fits es"
  shows "wal_replay_loop f g (log_bytes es @ rest) st
    = bindR (foldR (apply_entry f g) es st) (wal_replay_loop f g rest)"
  using assms
proof (induction es arbitrary: st)
  case (Cons e es)
  then show ?case
    by (simp add: wal_replay_loop.simps [of f g "entry_bytes e @ _"] read_entry bindR_assoc
        dispatch_entry_record cong: bindR_cong)
qed simp

lemma replay_nothing: "wal_read_record bs = None \<Longrightarrow> wal_replay_loop f g bs st = Inr st"
  by (simp add: wal_replay_loop.simps)

lemma read_record_Nil [simp]: "wal_read_record [] = None"
  by (simp add: wal_read_record_def read_u8_def)

lemma bindR_Inr_right [simp]: "bindR m Inr = m"
  by (cases m) auto

lemma replay_log:
  "list_all entry_fits es \<Longrightarrow> wal_replay_loop f g (log_bytes es) st = foldR (apply_entry f g) es st"
  using replay_entries [of es f g "[]" st] by (simp add: replay_nothing cong: bindR_cong)

lemma replay_torn_log:
  assumes "list_all entry_fits es"
  shows "wal_replay_loop f g (take n (log_bytes es)) st
    = foldR (apply_entry f g) (whole_entries n es) st"
  using assms
proof (induction es arbitrary: n st)
  case Nil
  then show ?case by (simp add: replay_nothing)
next
  case (Cons e es)
  show ?case
  proof (cases "length (entry_bytes e) \<le> n")
    case True
    then show ?thesis
      using Cons replay_entries [of "[e]" f g "take (n - length (entry_bytes e)) (log_bytes es)" st]
      by (simp cong: bindR_cong)
  next
    case False
    then show ?thesis
      using Cons.prems read_torn_entry [of e n] by (simp add: replay_nothing)
  qed
qed

subsection \<open>Writing entries\<close>

text \<open>The handle writes at the end: it appends, or its position is the length of the file.\<close>

definition wal_at_end :: "wal \<times> filesys \<Rightarrow> bool" where
  "wal_at_end = (\<lambda>(w, fs). \<exists>c. fs_files fs (wal_path w) = Some c
     \<and> (wal_fp w = Some At_End \<or> wal_fp w = Some (At_Pos (length c))))"

definition wal_content :: "wal \<times> filesys \<Rightarrow> byte list" where
  "wal_content = (\<lambda>(w, fs). case fs_files fs (wal_path w) of None \<Rightarrow> [] | Some c \<Rightarrow> c)"

text \<open>\<open>s'\<close> is \<open>s\<close> with the bytes appended to the log and every other file untouched.\<close>

definition wal_extended :: "byte list \<Rightarrow> wal \<times> filesys \<Rightarrow> wal \<times> filesys \<Rightarrow> bool" where
  "wal_extended bs s s' \<longleftrightarrow>
     wal_at_end s' \<and> wal_content s' = wal_content s @ bs
     \<and> wal_path (fst s') = wal_path (fst s)
     \<and> fs_refused (snd s') = fs_refused (snd s)
     \<and> (\<forall>p. p \<noteq> wal_path (fst s) \<longrightarrow> fs_files (snd s') p = fs_files (snd s) p)"

lemma wal_write_extends: "wal_at_end s \<Longrightarrow> okR (wal_write bs s) (wal_extended bs s)"
  by (cases s) (auto simp: wal_at_end_def wal_write_def wal_extended_def wal_content_def Let_def)

lemma wal_extended_trans:
  "wal_extended bs s s' \<Longrightarrow> wal_extended cs s' s'' \<Longrightarrow> wal_extended (bs @ cs) s s''"
  by (auto simp: wal_extended_def)

lemma wal_write_then:
  assumes "wal_extended bs s0 s"
  shows "okR (wal_write cs s) (wal_extended (bs @ cs) s0)"
  using assms wal_write_extends [of s cs]
  by (auto elim!: okR_mono intro: wal_extended_trans simp: wal_extended_def [of bs])

lemma log_entry_extends:
  assumes "wal_at_end s" and "entry_fits e"
  shows "okR (log_entry e s) (wal_extended (entry_bytes e) s)"
proof (cases e)
  case (Insert_Entry i v m)
  have m: "take (unat (u32 (length m))) (bytes_of_string m) = bytes_of_string m"
    using assms(2) Insert_Entry by (simp add: u32_unat)
  show ?thesis
    unfolding Insert_Entry log_entry.simps wal_append_insert_def okR_bind okR_slice Let_def m
    apply (rule okR_mono [OF wal_write_extends [OF assms(1)]])
    apply simp
    apply (drule wal_write_then, erule okR_mono)+
    apply (simp add: wal_op_byte_def)
    done
next
  case (Delete_Entry i)
  show ?thesis
    unfolding Delete_Entry log_entry.simps wal_append_delete_def okR_bind
    apply (rule okR_mono [OF wal_write_extends [OF assms(1)]])
    apply (drule wal_write_then, erule okR_mono)+
    apply (simp add: wal_op_byte_def)
    done
qed

lemma log_entries_extend:
  assumes "wal_at_end s" and "list_all entry_fits es"
  shows "okR (foldR log_entry es s) (wal_extended (log_bytes es) s)"
  using assms
proof (induction es arbitrary: s)
  case Nil
  then show ?case by (simp add: wal_extended_def)
next
  case (Cons e es)
  have "okR (foldR log_entry es t) (wal_extended (log_bytes (e # es)) s)"
    if "wal_extended (entry_bytes e) s t" for t
  proof -
    have "wal_at_end t" using that by (simp add: wal_extended_def)
    then have "okR (foldR log_entry es t) (wal_extended (log_bytes es) t)"
      using Cons by simp
    then show ?thesis
      by (rule okR_mono) (simp add: wal_extended_trans [OF that])
  qed
  moreover have "okR (log_entry e s) (wal_extended (entry_bytes e) s)"
    using log_entry_extends [of s e] Cons.prems by simp
  ultimately show ?case by (auto elim!: okR_mono)
qed


lemma wal_open_ok:
  assumes "\<not> fs_refused fs path"
  shows "okR (wal_open path fs) (\<lambda>s. wal_at_end s \<and> wal_path (fst s) = path
    \<and> wal_content s = (case fs_files fs path of None \<Rightarrow> [] | Some c \<Rightarrow> c)
    \<and> fs_refused (snd s) = fs_refused fs
    \<and> (\<forall>p. p \<noteq> path \<longrightarrow> fs_files (snd s) p = fs_files fs p))"
  using assms by (auto simp: wal_open_def fopen_ab_def wal_at_end_def wal_content_def split: option.splits)

lemma wal_replay_content:
  "wal_at_end s \<Longrightarrow> \<not> fs_refused (snd s) (wal_path (fst s)) \<Longrightarrow>
    wal_replay f g s st = wal_replay_loop f g (wal_content s) st"
  by (cases s) (auto simp: wal_replay_def fopen_rb_def wal_at_end_def wal_content_def)

lemma wal_open_log:
  assumes "\<not> fs_refused fs path" and "list_all entry_fits es"
    and "(case fs_files fs path of None \<Rightarrow> [] | Some c \<Rightarrow> c) = c"
  shows "okR (bindR (wal_open path fs) (foldR log_entry es)) (\<lambda>s. wal_at_end s
    \<and> wal_path (fst s) = path \<and> fs_refused (snd s) = fs_refused fs
    \<and> wal_content s = c @ log_bytes es)"
proof -
  have "okR (foldR log_entry es s) (\<lambda>s'. wal_at_end s' \<and> wal_path (fst s') = path
      \<and> fs_refused (snd s') = fs_refused fs \<and> wal_content s' = c @ log_bytes es)"
    if "wal_at_end s" "wal_path (fst s) = path" "wal_content s = c"
      "fs_refused (snd s) = fs_refused fs" for s
    using log_entries_extend [of s es] that assms(2)
    by (auto elim!: okR_mono simp: wal_extended_def)
  then show ?thesis
    using wal_open_ok [OF assms(1)] assms(3) by (auto elim!: okR_mono)
qed

section \<open>Properties\<close>

text \<open>C12: The log round-trips.  Opening a log that holds the entries es0 and appending the
  entries es by the two append operations succeeds, and replaying the result makes exactly
  the calls of es0 followed by es, in order, each with the id, the dimension, the vector and
  the metadata it was logged with (as long as lengths fit the 32-bit fields).\<close>

theorem wal_log_replay:
  assumes "\<not> fs_refused fs path"
    and "(case fs_files fs path of None \<Rightarrow> [] | Some c \<Rightarrow> c) = log_bytes es0"
    and "list_all entry_fits es0" and "list_all entry_fits es"
  shows "okR (bindR (wal_open path fs) (foldR log_entry es))
    (\<lambda>s. wal_replay on_insert on_delete s st = foldR (apply_entry on_insert on_delete) (es0 @ es) st)"
  using wal_open_log [OF assms(1,4,2)]
proof (rule okR_mono)
  fix s
  assume s: "wal_at_end s \<and> wal_path (fst s) = path \<and> fs_refused (snd s) = fs_refused fs
    \<and> wal_content s = log_bytes es0 @ log_bytes es"
  show "wal_replay on_insert on_delete s st = foldR (apply_entry on_insert on_delete) (es0 @ es) st"
    using s assms replay_log [of "es0 @ es" on_insert on_delete st]
    by (simp add: wal_replay_content)
qed

text \<open>A client that keeps the calls it is given.\<close>

definition keep_insert :: "wal_record \<Rightarrow> wal_entry list \<Rightarrow> wal_entry list res" where
  "keep_insert rec st = Inr (st @ [Insert_Entry (wr_id rec) (wr_vec rec) (wr_metadata rec)])"

definition keep_delete :: "64 word \<Rightarrow> wal_entry list \<Rightarrow> wal_entry list res" where
  "keep_delete i st = Inr (st @ [Delete_Entry i])"

lemma keep_entries: "foldR (apply_entry keep_insert (Some keep_delete)) es st = Inr (st @ es)"
proof (induction es arbitrary: st)
  case (Cons e es)
  then show ?case by (cases e) (simp_all add: keep_insert_def keep_delete_def)
qed simp

definition no_files :: filesys where
  "no_files = \<lparr>fs_files = Map.empty, fs_refused = (\<lambda>_. False)\<rparr>"

lemma wal_log_replay_witness:
  "okR (bindR (wal_open ''db.wal'' no_files)
      (foldR log_entry [Insert_Entry 7 [0, F32 0x3f800000] ''a'', Delete_Entry 7]))
    (\<lambda>s. wal_replay keep_insert (Some keep_delete) s []
       = Inr [Insert_Entry 7 [0, F32 0x3f800000] ''a'', Delete_Entry 7])"
  using wal_log_replay [of no_files "''db.wal''" "[]"
      "[Insert_Entry 7 [0, F32 0x3f800000] ''a'', Delete_Entry 7]" keep_insert "Some keep_delete" "[]"]
  by (simp add: no_files_def keep_insert_def keep_delete_def)

text \<open>What a crash leaves of a file: its first \<open>n\<close> bytes.\<close>

definition cut_file :: "string \<Rightarrow> nat \<Rightarrow> filesys \<Rightarrow> filesys" where
  "cut_file path n fs = fs\<lparr>fs_files := (fs_files fs)(path := map_option (take n) (fs_files fs path))\<rparr>"

lemma whole_entries_append:
  "length (log_bytes es0) \<le> n \<Longrightarrow>
    whole_entries n (es0 @ es) = es0 @ whole_entries (n - length (log_bytes es0)) es"
  by (induction es0 arbitrary: n) (simp_all add: diff_diff_left)

text \<open>C13: Crash safety.  When a log that held es0 has been extended by es and a crash
  leaves only its first n bytes, at least those of es0, opening and replaying what is left
  succeeds and makes the calls of es0 and then those of the entries of es that lie wholly
  within the n bytes; the torn one is dropped without an effect.\<close>

theorem wal_crash_replay:
  assumes "\<not> fs_refused fs path"
    and "(case fs_files fs path of None \<Rightarrow> [] | Some c \<Rightarrow> c) = log_bytes es0"
    and "list_all entry_fits es0" and "list_all entry_fits es" and "length (log_bytes es0) \<le> n"
  shows "okR (bindR (wal_open path fs) (foldR log_entry es))
    (\<lambda>(w, fs'). bindR (wal_open path (cut_file path n fs'))
        (\<lambda>s. wal_replay on_insert on_delete s st)
      = foldR (apply_entry on_insert on_delete)
          (es0 @ whole_entries (n - length (log_bytes es0)) es) st)"
  using wal_open_log [OF assms(1,4,2)]
proof (rule okR_mono)
  fix s
  assume s: "wal_at_end s \<and> wal_path (fst s) = path \<and> fs_refused (snd s) = fs_refused fs
    \<and> wal_content s = log_bytes es0 @ log_bytes es"
  obtain w fs' where [simp]: "s = (w, fs')" by (cases s)
  have "fs_files fs' path = Some (log_bytes (es0 @ es))"
    using s by (auto simp: wal_at_end_def wal_content_def)
  then have "okR (wal_open path (cut_file path n fs')) (\<lambda>t.
      wal_replay on_insert on_delete t st
        = wal_replay_loop on_insert on_delete (take n (log_bytes (es0 @ es))) st)"
    using wal_open_ok [of "cut_file path n fs'" path] assms(1) s
    by (auto elim!: okR_mono simp: cut_file_def wal_replay_content)
  then show "case s of (w, fs') \<Rightarrow> bindR (wal_open path (cut_file path n fs'))
        (\<lambda>s. wal_replay on_insert on_delete s st)
      = foldR (apply_entry on_insert on_delete)
          (es0 @ whole_entries (n - length (log_bytes es0)) es) st"
    using replay_torn_log [of "es0 @ es" on_insert on_delete n st] assms(3-5)
    by (auto simp: okR_iff whole_entries_append simp del: log_bytes_simps(3))
qed

lemma wal_crash_replay_witness:
  "okR (bindR (wal_open ''db.wal'' no_files)
      (foldR log_entry [Delete_Entry 1, Insert_Entry 7 [0] ''a'']))
    (\<lambda>(w, fs'). bindR (wal_open ''db.wal'' (cut_file ''db.wal'' 38 fs'))
      (\<lambda>s. wal_replay keep_insert (Some keep_delete) s []) = Inr [Delete_Entry 1])"
  using wal_crash_replay [of no_files "''db.wal''" "[]" "[Delete_Entry 1, Insert_Entry 7 [0] ''a'']"
      38 keep_insert "Some keep_delete" "[]"]
  by (simp add: no_files_def keep_insert_def keep_delete_def)


text \<open>A successful checkpoint empties the log, whatever it held, and the log can be used
  at once: replaying after a checkpoint and further appends makes the calls of those appends
  and no others.\<close>

theorem wal_checkpoint_truncates:
  assumes "\<not> fs_refused fs path" and "wal_path w = path" and "list_all entry_fits es"
  shows "fst (wal_checkpoint (w, fs)) = Inr ()
    \<and> wal_content (snd (wal_checkpoint (w, fs))) = []
    \<and> okR (foldR log_entry es (snd (wal_checkpoint (w, fs))))
        (\<lambda>s. wal_replay on_insert on_delete s st = foldR (apply_entry on_insert on_delete) es st)"
proof -
  let ?s = "snd (wal_checkpoint (w, fs))"
  have s: "fst (wal_checkpoint (w, fs)) = Inr ()" "wal_content ?s = []" "wal_at_end ?s"
    "wal_path (fst ?s) = path" "fs_refused (snd ?s) = fs_refused fs"
    using assms(1,2) by (auto simp: wal_checkpoint_def fopen_wb_def wal_content_def wal_at_end_def)
  have "okR (foldR log_entry es ?s)
      (\<lambda>s. wal_replay on_insert on_delete s st = foldR (apply_entry on_insert on_delete) es st)"
    using log_entries_extend [OF s(3) assms(3)]
    by (rule okR_mono)
      (use s assms(1,3) in \<open>auto simp: wal_extended_def wal_replay_content replay_log\<close>)
  with s show ?thesis by simp
qed

lemma wal_checkpoint_truncates_witness:
  "okR (foldR log_entry [Delete_Entry 3]
      (snd (wal_checkpoint (\<lparr>wal_path = ''db.wal'', wal_fp = Some At_End\<rparr>,
        no_files\<lparr>fs_files := [''db.wal'' \<mapsto> [1, 2, 3]]\<rparr>))))
    (\<lambda>s. wal_replay keep_insert (Some keep_delete) s [] = Inr [Delete_Entry 3])"
  using wal_checkpoint_truncates [of "no_files\<lparr>fs_files := [''db.wal'' \<mapsto> [1, 2, 3]]\<rparr>" "''db.wal''"
      "\<lparr>wal_path = ''db.wal'', wal_fp = Some At_End\<rparr>" "[Delete_Entry 3]"
      keep_insert "Some keep_delete" "[]"]
  by (simp add: no_files_def keep_delete_def)

text \<open>A checkpoint that cannot truncate the file throws and leaves the log closed: the
  object stays usable for the caller that catches the exception, but its next append writes
  through a null pointer.\<close>

theorem wal_checkpoint_failure:
  assumes "fs_refused fs (wal_path w)" and "wal_checkpoint (w, fs) = (r, s)"
  shows "r = Inl (Runtime_Error (''WAL: checkpoint failed, cannot truncate '' @ wal_path w))
    \<and> \<not> wal_is_open (fst s) \<and> wal_content s = wal_content (w, fs)
    \<and> log_entry e s = Inl Undefined_Behaviour"
  using assms
  by (cases e) (auto simp: wal_checkpoint_def fopen_wb_def wal_is_open_def wal_content_def
      wal_append_insert_def wal_append_delete_def wal_write_def)

lemma wal_checkpoint_failure_witness:
  "log_entry (Delete_Entry 3)
      (snd (wal_checkpoint (\<lparr>wal_path = ''db.wal'', wal_fp = Some At_End\<rparr>,
        no_files\<lparr>fs_refused := (\<lambda>_. True)\<rparr>))) = Inl Undefined_Behaviour"
  using wal_checkpoint_failure [of "no_files\<lparr>fs_refused := (\<lambda>_. True)\<rparr>"
      "\<lparr>wal_path = ''db.wal'', wal_fp = Some At_End\<rparr>"
      "fst (wal_checkpoint (\<lparr>wal_path = ''db.wal'', wal_fp = Some At_End\<rparr>,
        no_files\<lparr>fs_refused := (\<lambda>_. True)\<rparr>))"
      "snd (wal_checkpoint (\<lparr>wal_path = ''db.wal'', wal_fp = Some At_End\<rparr>,
        no_files\<lparr>fs_refused := (\<lambda>_. True)\<rparr>))" "Delete_Entry 3"]
  by (simp add: no_files_def)

text \<open>C30: Replay copes with any bytes at all: it terminates on every file, corrupt or not, and
  whatever the callbacks maintain on well-formed records (as many floats as the dimension
  says, a 32-bit length of metadata) holds at the end.\<close>

theorem wal_replay_total:
  assumes "P st"
    and "\<And>rec st. P st \<Longrightarrow> wr_op rec = INSERT \<Longrightarrow> length (wr_vec rec) = unat (wr_dim rec) \<Longrightarrow>
      length (wr_metadata rec) < 2 ^ 32 \<Longrightarrow> okR (on_insert rec st) P"
    and "\<And>f i st. P st \<Longrightarrow> on_delete = Some f \<Longrightarrow> okR (f i st) P"
  shows "okR (wal_replay on_insert on_delete (w, fs) st) P"
proof -
  have len: "length (f32s_of_bytes n bs) = n" for n bs
    by (induction n arbitrary: bs) auto
  have rec: "length (wr_vec rec) = unat (wr_dim rec) \<and> length (wr_metadata rec) < 2 ^ 32"
    if "wal_read_record bs = Some (rec, rest)" for bs rec rest
    using that unat_bound [where 'a = 32]
    by (auto simp: wal_read_record_def read_f32s_def read_bytes_def string_of_bytes_def len
        split: option.splits if_splits)
  have "okR (wal_replay_loop on_insert on_delete bs st) P" for bs
    using assms(1)
  proof (induction "length bs" arbitrary: bs st rule: less_induct)
    case less
    show ?case
    proof (cases "wal_read_record bs")
      case None
      then show ?thesis using less.prems by (simp add: replay_nothing)
    next
      case (Some p)
      obtain rec rest where p: "p = (rec, rest)" by (cases p)
      have "okR (wal_dispatch on_insert on_delete rec st) P"
        using rec [of bs rec rest] Some p less.prems assms(2,3)
        by (auto simp: wal_dispatch_def split: wal_op_code.splits option.splits)
      then show ?thesis
        using Some p less.hyps wal_read_record_shrinks [of bs rec rest]
        by (auto simp: wal_replay_loop.simps [of _ _ bs] elim!: okR_mono)
    qed
  qed
  then show ?thesis
    using assms(1) by (auto simp: wal_replay_def split: option.splits)
qed


lemma wal_replay_total_witness:
  "okR (wal_replay keep_insert (Some keep_delete)
      (\<lparr>wal_path = ''db.wal'', wal_fp = None\<rparr>, no_files\<lparr>fs_files := [''db.wal'' \<mapsto> [9, 1, 2, 3]]\<rparr>) [])
    (list_all entry_fits)"
proof (rule wal_replay_total)
  fix rec :: wal_record and st :: "wal_entry list"
  assume "list_all entry_fits st" "length (wr_vec rec) = unat (wr_dim rec)"
    "length (wr_metadata rec) < 2 ^ 32"
  then show "okR (keep_insert rec st) (list_all entry_fits)"
    using unat_bound [of "wr_dim rec"] by (simp add: keep_insert_def)
qed (auto simp: keep_delete_def)

lemma le32_0: "le32 0 = [0, 0, 0, 0]"
  by code_simp

lemma le_bytes_snoc: "x < 256 ^ n \<Longrightarrow> le_bytes (Suc n) x = le_bytes n x @ [0]"
proof (induction n arbitrary: x)
  case (Suc n)
  have "x div 256 < 256 ^ n" using Suc.prems by (simp add: less_mult_imp_div_less mult.commute)
  then show ?case using Suc.IH [of "x div 256"] by simp
qed simp
lemma le64_shift:
  assumes "unat i < 2 ^ 56"
  shows "2 # le64 i = le64 (2 + 256 * i) @ [0]"
proof -
  have u: "unat (2 + 256 * i) = 2 + 256 * unat i"
  proof -
    have "unat (256 :: 64 word) = 256" "unat (2 :: 64 word) = 2" by simp_all
    moreover from this have "unat (256 * i) = 256 * unat i"
      using unat_mult_lem [of 256 i] assms by simp
    ultimately show ?thesis
      using unat_add_lem [of 2 "256 * i"] assms by simp
  qed
  have "le_bytes 8 (2 + 256 * unat i) = 2 # le_bytes 7 (unat i)"
  proof -
    have "(2 + 256 * unat i) mod 256 = 2" "(2 + 256 * unat i) div 256 = unat i" by presburger+
    then show ?thesis
      using le_bytes.simps(2) [of 7 "2 + 256 * unat i"] by (simp del: add_2_eq_Suc)
  qed
  moreover have "le_bytes (Suc 7) (unat i) = le_bytes 7 (unat i) @ [0]"
    using assms by (intro le_bytes_snoc) simp
  ultimately show ?thesis unfolding le64_def u by simp
qed

section \<open>A record after a torn one\<close>

text \<open>A reader that leaves all of the appended bytes has not looked at them.\<close>

lemma read_within:
  "read_bytes n (bs @ x) = Some (v, rest) \<Longrightarrow> length x \<le> length rest \<Longrightarrow>
    \<exists>bs'. rest = bs' @ x \<and> read_bytes n bs = Some (v, bs')"
  "read_u8 (bs @ x) = Some (v8, rest) \<Longrightarrow> length x \<le> length rest \<Longrightarrow>
    \<exists>bs'. rest = bs' @ x \<and> read_u8 bs = Some (v8, bs')"
  "read_u32 (bs @ x) = Some (v32, rest) \<Longrightarrow> length x \<le> length rest \<Longrightarrow>
    \<exists>bs'. rest = bs' @ x \<and> read_u32 bs = Some (v32, bs')"
  "read_u64 (bs @ x) = Some (v64, rest) \<Longrightarrow> length x \<le> length rest \<Longrightarrow>
    \<exists>bs'. rest = bs' @ x \<and> read_u64 bs = Some (v64, bs')"
  "read_f32s n (bs @ x) = Some (vf, rest) \<Longrightarrow> length x \<le> length rest \<Longrightarrow>
    \<exists>bs'. rest = bs' @ x \<and> read_f32s n bs = Some (vf, bs')"
proof -
  have bytes: "\<exists>bs'. rest = bs' @ x \<and> read_bytes n bs = Some (v, bs')"
    if "read_bytes n (bs @ x) = Some (v, rest)" "length x \<le> length rest" for n v
    using that by (auto simp: read_bytes_def split: if_splits)
  then show "read_bytes n (bs @ x) = Some (v, rest) \<Longrightarrow> length x \<le> length rest \<Longrightarrow>
    \<exists>bs'. rest = bs' @ x \<and> read_bytes n bs = Some (v, bs')"
    and "read_u32 (bs @ x) = Some (v32, rest) \<Longrightarrow> length x \<le> length rest \<Longrightarrow>
    \<exists>bs'. rest = bs' @ x \<and> read_u32 bs = Some (v32, bs')"
    and "read_u64 (bs @ x) = Some (v64, rest) \<Longrightarrow> length x \<le> length rest \<Longrightarrow>
    \<exists>bs'. rest = bs' @ x \<and> read_u64 bs = Some (v64, bs')"
    and "read_f32s n (bs @ x) = Some (vf, rest) \<Longrightarrow> length x \<le> length rest \<Longrightarrow>
    \<exists>bs'. rest = bs' @ x \<and> read_f32s n bs = Some (vf, bs')"
    by (fastforce simp: read_u32_def read_u64_def read_f32s_def)+
  show "read_u8 (bs @ x) = Some (v8, rest) \<Longrightarrow> length x \<le> length rest \<Longrightarrow>
    \<exists>bs'. rest = bs' @ x \<and> read_u8 bs = Some (v8, bs')"
    by (cases bs) (auto simp: read_u8_def split: list.splits)
qed

text \<open>The fields of a record, one after the other.\<close>

lemma wal_read_record_Some:
  "wal_read_record bs = Some (rec, rest) \<longleftrightarrow>
    (\<exists>op b1 i b2 n b3 v b4 mlen b5 m. read_u8 bs = Some (op, b1) \<and> read_u64 b1 = Some (i, b2)
      \<and> read_u32 b2 = Some (n, b3) \<and> read_f32s (unat n) b3 = Some (v, b4)
      \<and> read_u32 b4 = Some (mlen, b5) \<and> read_bytes (unat mlen) b5 = Some (m, rest)
      \<and> rec = \<lparr>wr_op = wal_op_of op, wr_id = i, wr_dim = n, wr_vec = v, wr_metadata = string_of_bytes m\<rparr>)"
  by (auto simp: wal_read_record_def split: option.splits)

lemma read_record_within:
  assumes "wal_read_record (bs @ x) = Some (rec, rest)" and "length x \<le> length rest"
  shows "\<exists>bs'. wal_read_record bs = Some (rec, bs')"
proof -
  obtain op b1 i b2 n b3 v b4 mlen b5 m where r: "read_u8 (bs @ x) = Some (op, b1)"
    "read_u64 b1 = Some (i, b2)" "read_u32 b2 = Some (n, b3)" "read_f32s (unat n) b3 = Some (v, b4)"
    "read_u32 b4 = Some (mlen, b5)" "read_bytes (unat mlen) b5 = Some (m, rest)"
    and rec: "rec = \<lparr>wr_op = wal_op_of op, wr_id = i, wr_dim = n, wr_vec = v, wr_metadata = string_of_bytes m\<rparr>"
    using assms(1) by (auto simp: wal_read_record_Some)
  have long: "length x \<le> length b5" "length x \<le> length b4" "length x \<le> length b3"
    "length x \<le> length b2" "length x \<le> length b1"
    using r assms(2) by (auto dest!: read_shrinks)
  obtain c1 where c1: "b1 = c1 @ x" "read_u8 bs = Some (op, c1)" using read_within(2) [OF r(1) long(5)] by blast
  obtain c2 where c2: "b2 = c2 @ x" "read_u64 c1 = Some (i, c2)" using read_within(4) r(2) long(4) c1(1) by blast
  obtain c3 where c3: "b3 = c3 @ x" "read_u32 c2 = Some (n, c3)" using read_within(3) r(3) long(3) c2(1) by blast
  obtain c4 where c4: "b4 = c4 @ x" "read_f32s (unat n) c3 = Some (v, c4)" using read_within(5) r(4) long(2) c3(1) by blast
  obtain c5 where c5: "b5 = c5 @ x" "read_u32 c4 = Some (mlen, c5)" using read_within(3) r(5) long(1) c4(1) by blast
  obtain c6 where "rest = c6 @ x" "read_bytes (unat mlen) c5 = Some (m, c6)" using read_within(1) r(6) assms(2) c5(1) by blast
  then show ?thesis using c1 c2 c3 c4 c5 rec by (auto simp: wal_read_record_Some)
qed

text \<open>The first byte and the id of an entry, read from a torn copy of it.\<close>

definition entry_head :: "wal_entry \<Rightarrow> byte list" where
  "entry_head e = wal_op_byte (wr_op (entry_record e)) # le64 (wr_id (entry_record e))"

lemma entry_bytes_head:
  "\<exists>tl. entry_bytes e = entry_head e @ le32 (wr_dim (entry_record e)) @ tl"
  by (cases e) (simp_all add: entry_head_def wal_op_byte_def)

lemma read_record_torn:
  assumes "0 < k" and "k < length (entry_bytes e)"
    and "wal_read_record (take k (entry_bytes e) @ x) = Some (rec, rest)"
  shows "wr_op rec = wr_op (entry_record e)"
    and "9 \<le> k \<Longrightarrow> wr_id rec = wr_id (entry_record e)"
    and "13 \<le> k \<Longrightarrow> wr_dim rec = wr_dim (entry_record e)
      \<and> 17 + 4 * unat (wr_dim (entry_record e)) \<le> k + length x"
proof -
  obtain tl where e: "entry_bytes e = entry_head e @ le32 (wr_dim (entry_record e)) @ tl"
    using entry_bytes_head by blast
  obtain op b1 i b2 n b3 v b4 mlen b5 m where r: "read_u8 (take k (entry_bytes e) @ x) = Some (op, b1)"
    "read_u64 b1 = Some (i, b2)" "read_u32 b2 = Some (n, b3)" "read_f32s (unat n) b3 = Some (v, b4)"
    "read_u32 b4 = Some (mlen, b5)" "read_bytes (unat mlen) b5 = Some (m, rest)"
    and rec: "rec = \<lparr>wr_op = wal_op_of op, wr_id = i, wr_dim = n, wr_vec = v, wr_metadata = string_of_bytes m\<rparr>"
    using assms(3) by (auto simp: wal_read_record_Some)
  let ?op = "wal_op_byte (wr_op (entry_record e))" and ?i = "wr_id (entry_record e)"
    and ?n = "wr_dim (entry_record e)"
  have e1: "take k (entry_bytes e) = ?op # take (k - 1) (le64 ?i @ le32 ?n @ tl)"
    using assms(1) e by (cases k) (simp_all add: entry_head_def)
  have op: "op = ?op" "b1 = take (k - 1) (le64 ?i @ le32 ?n @ tl) @ x" using r(1) by (simp_all add: e1)
  have "wal_op_of ?op = wr_op (entry_record e)" by (cases e) simp_all
  then show "wr_op rec = wr_op (entry_record e)" by (simp add: rec op)
  have i: "i = ?i \<and> b2 = take (k - 9) (le32 ?n @ tl) @ x" if "9 \<le> k"
  proof -
    have "take (k - 1) (le64 ?i @ le32 ?n @ tl) = le64 ?i @ take (k - 9) (le32 ?n @ tl)"
      using that by simp
    then show ?thesis using r(2) by (simp add: op(2))
  qed
  then show "9 \<le> k \<Longrightarrow> wr_id rec = ?i" by (simp add: rec)
  assume k: "13 \<le> k"
  have "take (k - 9) (le32 ?n @ tl) = le32 ?n @ take (k - 13) tl" using k by simp
  then have n: "n = ?n" "b3 = take (k - 13) tl @ x" using r(3) i k by simp_all
  have "4 * unat n + 4 \<le> length b3"
    using r(4,5) by (auto simp: read_f32s_def read_u32_def read_bytes_def split: if_splits)
  moreover have "length b3 \<le> k - 13 + length x" by (simp add: n(2))
  ultimately show "wr_dim rec = ?n \<and> 17 + 4 * unat ?n \<le> k + length x"
    using k by (simp add: rec n(1))
qed

lemma read_record_swallows:
  assumes "entry_fits e" and "k < length (entry_bytes e)"
    and "wal_read_record (take k (entry_bytes e) @ x) = Some (rec, rest)"
  shows "length rest < length x"
  using read_record_within [OF assms(3)] read_torn_entry [OF assms(1,2)] by force

lemma replay_after_torn:
  assumes "\<not> fs_refused fs path" and "fs_files fs path = Some (log_bytes es @ torn)"
    and "list_all entry_fits es" and "entry_fits r"
  shows "okR (bindR (wal_open path fs) (log_entry r)) (\<lambda>s. wal_replay f g s st
    = bindR (foldR (apply_entry f g) es st) (wal_replay_loop f g (torn @ entry_bytes r)))"
  unfolding okR_bind
proof (rule okR_mono [OF wal_open_ok [OF assms(1)]])
  fix s
  assume "wal_at_end s \<and> wal_path (fst s) = path
    \<and> wal_content s = (case fs_files fs path of None \<Rightarrow> [] | Some c \<Rightarrow> c)
    \<and> fs_refused (snd s) = fs_refused fs \<and> (\<forall>p. p \<noteq> path \<longrightarrow> fs_files (snd s) p = fs_files fs p)"
  then have s: "wal_at_end s" "wal_path (fst s) = path" "wal_content s = log_bytes es @ torn"
    "fs_refused (snd s) = fs_refused fs" using assms(2) by simp_all
  show "okR (log_entry r s) (\<lambda>s. wal_replay f g s st
      = bindR (foldR (apply_entry f g) es st) (wal_replay_loop f g (torn @ entry_bytes r)))"
    using log_entry_extends [OF s(1) assms(4)]
  proof (rule okR_mono)
    fix t
    assume t: "wal_extended (entry_bytes r) s t"
    then have "wal_content t = log_bytes es @ torn @ entry_bytes r"
      using s(3) by (simp add: wal_extended_def)
    then show "wal_replay f g t st
        = bindR (foldR (apply_entry f g) es st) (wal_replay_loop f g (torn @ entry_bytes r))"
      using t s assms(1) replay_entries [OF assms(3)] by (simp add: wal_replay_content wal_extended_def)
  qed
qed

lemma replay_shifted_delete:
  assumes "unat i < 2 ^ 56"
  shows "wal_replay_loop f g (1 # entry_bytes (Delete_Entry i))
    = f \<lparr>wr_op = INSERT, wr_id = 2 + 256 * i, wr_dim = 0, wr_vec = [], wr_metadata = []\<rparr>"
proof
  fix st
  have bytes: "1 # entry_bytes (Delete_Entry i) = log_bytes [Insert_Entry (2 + 256 * i) [] []] @ [0]"
    using arg_cong [OF le64_shift [OF assms], of "\<lambda>x. x @ [0, 0, 0, 0, 0, 0, 0, 0]"]
    by (simp add: u32_def le32_0 f32s_bytes_def bytes_of_string_def)
  have torn: "wal_read_record [0] = None"
    by (simp add: wal_read_record_def read_u8_def read_short)
  show "wal_replay_loop f g (1 # entry_bytes (Delete_Entry i)) st
    = f \<lparr>wr_op = INSERT, wr_id = 2 + 256 * i, wr_dim = 0, wr_vec = [], wr_metadata = []\<rparr> st"
    unfolding bytes using replay_entries [of "[Insert_Entry (2 + 256 * i) [] []]" f g "[0]" st] torn
    by (simp add: replay_nothing u32_def del: entry_bytes.simps log_bytes_simps cong: bindR_cong)
qed

text \<open>C37: A log whose last record was torn by a crash is not repaired when it is opened again:
  the torn bytes stay and what is appended lands behind them.  Let the log hold the entries es and
  the first k bytes of e, not all of them, and let r be logged and flushed.  Replay makes the calls
  of es, and then either stops, or reads one record made of the torn bytes and of bytes of r: its
  kind is that of e, its id too when nine bytes of e were left, and it has swallowed the first
  bytes of r, so the reading goes on in the middle of r.  When the id and the dimension of e were
  left and r is shorter than what the vector of e still lacks, nothing is replayed after es at all:
  r is lost.  When one byte of an insertion was left and r deletes i (below two to the 56), the
  deletion is replayed as the insertion of an empty vector under 2 + 256 * i.\<close>

theorem wal_append_after_torn:
  assumes "\<not> fs_refused fs path"
    and "fs_files fs path = Some (log_bytes es @ take k (entry_bytes e))"
    and "list_all entry_fits es" and "entry_fits e" and "entry_fits r"
    and "0 < k" and "k < length (entry_bytes e)"
  shows "okR (bindR (wal_open path fs) (log_entry r)) (\<lambda>s.
    (case wal_read_record (take k (entry_bytes e) @ entry_bytes r) of
       None \<Rightarrow> wal_replay on_insert on_delete s st = foldR (apply_entry on_insert on_delete) es st
     | Some (rec, rest) \<Rightarrow>
         wal_replay on_insert on_delete s st
           = bindR (foldR (apply_entry on_insert on_delete) es st) (\<lambda>st.
               bindR (wal_dispatch on_insert on_delete rec st) (wal_replay_loop on_insert on_delete rest))
         \<and> wr_op rec = wr_op (entry_record e) \<and> (9 \<le> k \<longrightarrow> wr_id rec = wr_id (entry_record e))
         \<and> length rest < length (entry_bytes r))
    \<and> (13 \<le> k \<longrightarrow> k + length (entry_bytes r) < 17 + 4 * unat (wr_dim (entry_record e)) \<longrightarrow>
         wal_replay on_insert on_delete s st = foldR (apply_entry on_insert on_delete) es st)
    \<and> (k = 1 \<longrightarrow> wr_op (entry_record e) = INSERT \<longrightarrow> (\<forall>i. r = Delete_Entry i \<longrightarrow> unat i < 2 ^ 56 \<longrightarrow>
         wal_replay on_insert on_delete s st = bindR (foldR (apply_entry on_insert on_delete) es st)
           (on_insert \<lparr>wr_op = INSERT, wr_id = 2 + 256 * i, wr_dim = 0, wr_vec = [], wr_metadata = []\<rparr>))))"
proof -
  let ?torn = "take k (entry_bytes e)"
  let ?bs = "?torn @ entry_bytes r"
  have run: "okR (bindR (wal_open path fs) (log_entry r)) (\<lambda>s. wal_replay on_insert on_delete s st
      = bindR (foldR (apply_entry on_insert on_delete) es st) (wal_replay_loop on_insert on_delete ?bs))"
    by (rule replay_after_torn [OF assms(1,2,3,5)])
  have none: "bindR m (wal_replay_loop on_insert on_delete ?bs) = m" if "wal_read_record ?bs = None" for m
    using that by (simp add: replay_nothing cong: bindR_cong)
  have some: "wal_replay_loop on_insert on_delete ?bs
      = (\<lambda>st. bindR (wal_dispatch on_insert on_delete rec st) (wal_replay_loop on_insert on_delete rest))"
    if "wal_read_record ?bs = Some (rec, rest)" for rec rest
    using that by (simp add: fun_eq_iff wal_replay_loop.simps [of on_insert on_delete ?bs])
  have lost: "wal_read_record ?bs = None"
    if "13 \<le> k" "k + length (entry_bytes r) < 17 + 4 * unat (wr_dim (entry_record e))"
    using that read_record_torn(3) [OF assms(6,7)] by (cases "wal_read_record ?bs") force+
  have shifted: "wal_replay_loop on_insert on_delete ?bs
      = on_insert \<lparr>wr_op = INSERT, wr_id = 2 + 256 * i, wr_dim = 0, wr_vec = [], wr_metadata = []\<rparr>"
    if "k = 1" "wr_op (entry_record e) = INSERT" "r = Delete_Entry i" "unat i < 2 ^ 56" for i
    using that replay_shifted_delete [of i on_insert on_delete] by (cases e) auto
  show ?thesis
    using run
  proof (rule okR_mono, intro conjI allI impI, goal_cases)
    case (1 s)
    show ?case
      using 1(2) none some read_record_torn(1,2) [OF assms(6,7)] read_record_swallows [OF assms(4,7), of "entry_bytes r"]
      by (auto split: option.splits)
  next
    case (2 s)
    then show ?case using none lost by simp
  next
    case (3 s i)
    then show ?case using shifted by simp
  qed
qed

lemma wal_append_after_torn_witness:
  "okR (bindR (wal_open ''db.wal'' (no_files\<lparr>fs_files := [''db.wal'' \<mapsto> entry_bytes (Delete_Entry 9) @ [1]]\<rparr>))
      (wal_append_delete 5))
    (\<lambda>s. wal_replay keep_insert (Some keep_delete) s [] = Inr [Delete_Entry 9, Insert_Entry 1282 [] []])"
  using wal_append_after_torn [of "no_files\<lparr>fs_files := [''db.wal'' \<mapsto> entry_bytes (Delete_Entry 9) @ [1]]\<rparr>"
      "''db.wal''" "[Delete_Entry 9]" 1 "Insert_Entry 7 [0] ''a''" "Delete_Entry 5"
      keep_insert "Some keep_delete" "[]"]
  by (auto simp: no_files_def keep_insert_def keep_delete_def okR_iff)

end
