(* ===== verification/Distance.thy ===== *)
theory Distance
  imports Binary32
begin

text \<open>
  The distance kernels of \<open>kernels/\<close> and their dispatch in \<open>src/distance.cpp\<close>.  A kernel is
  written once, over a record of arithmetic operations, as the code has it: the vector loop
  over blocks of eight or four lanes, the horizontal sum of the lanes, the scalar tail.  The
  program runs it on \<open>float\<close> (\<open>f32_arith\<close>); the same definition on the reals
  (\<open>real_arith\<close>) is the kernel without rounding, for which the loop structure is proved
  to compute the mathematical quantity.  Every load is checked.
\<close>

section \<open>Arithmetic as a parameter\<close>

record 'a farith =
  fa_zero :: 'a
  fa_add :: "'a \<Rightarrow> 'a \<Rightarrow> 'a"
  fa_sub :: "'a \<Rightarrow> 'a \<Rightarrow> 'a"
  fa_mul :: "'a \<Rightarrow> 'a \<Rightarrow> 'a"
  fa_fma :: "'a \<Rightarrow> 'a \<Rightarrow> 'a \<Rightarrow> 'a"
  fa_div :: "'a \<Rightarrow> 'a \<Rightarrow> 'a"
  fa_sqrt :: "'a \<Rightarrow> 'a"
  fa_lt :: "'a \<Rightarrow> 'a \<Rightarrow> bool"
  fa_tiny :: 'a

text \<open>\<open>float\<close>; the constant is \<open>1e-12f\<close>.\<close>

definition f32_arith :: "f32 farith" where
  "f32_arith = \<lparr>fa_zero = 0, fa_add = f32_add, fa_sub = f32_sub, fa_mul = f32_mul,
     fa_fma = f32_fma, fa_div = f32_div, fa_sqrt = f32_sqrt, fa_lt = (<),
     fa_tiny = F32 730643660\<rparr>"

text \<open>\<open>double\<close>; the constant is \<open>1e-12\<close>.\<close>

definition f64_arith :: "fval farith" where
  "f64_arith = \<lparr>fa_zero = FFin False 0 (-1074), fa_add = fv_add b64, fa_sub = fv_sub b64,
     fa_mul = fv_mul b64, fa_fma = fv_fma b64, fa_div = fv_div b64, fa_sqrt = fv_sqrt b64,
     fa_lt = fv_lt, fa_tiny = FFin False 4951760157141521 (-92)\<rparr>"

text \<open>Arithmetic without rounding, for any value of the small constant.\<close>

definition real_arith :: "real \<Rightarrow> real farith" where
  "real_arith t = \<lparr>fa_zero = 0, fa_add = (+), fa_sub = (-), fa_mul = (*),
     fa_fma = (\<lambda>a b c. a * b + c), fa_div = (/), fa_sqrt = sqrt, fa_lt = (<), fa_tiny = t\<rparr>"

section \<open>Vector registers\<close>

text \<open>A register is the list of its lanes, lane 0 first.\<close>

definition lanes2 :: "('a \<Rightarrow> 'a \<Rightarrow> 'a) \<Rightarrow> 'a list \<Rightarrow> 'a list \<Rightarrow> 'a list" where
  "lanes2 f xs ys = map (\<lambda>(x, y). f x y) (zip xs ys)"

definition lanes_fma :: "'a farith \<Rightarrow> 'a list \<Rightarrow> 'a list \<Rightarrow> 'a list \<Rightarrow> 'a list" where
  "lanes_fma ops xs ys acc = map (\<lambda>((x, y), z). fa_fma ops x y z) (zip (zip xs ys) acc)"

text \<open>\<open>_mm_movehdup_ps\<close>: lanes 1 and 3, each twice.\<close>

definition movehdup :: "'a list \<Rightarrow> 'a list" where
  "movehdup v = [v ! 1, v ! 1, v ! 3, v ! 3]"

text \<open>\<open>_mm_movehl_ps(a, b)\<close>: the high half of \<open>b\<close>, then the high half of \<open>a\<close>.\<close>

definition movehl :: "'a list \<Rightarrow> 'a list \<Rightarrow> 'a list" where
  "movehl a b = [b ! 2, b ! 3, a ! 2, a ! 3]"

text \<open>\<open>_mm_add_ss\<close>: adds lane 0 only.\<close>

definition add_ss :: "'a farith \<Rightarrow> 'a list \<Rightarrow> 'a list \<Rightarrow> 'a list" where
  "add_ss ops a b = a[0 := fa_add ops (a ! 0) (b ! 0)]"

definition hsum256 :: "'a farith \<Rightarrow> 'a list \<Rightarrow> 'a" where
  "hsum256 ops v =
     (let lo = take 4 v; hi = drop 4 v;
          lo = lanes2 (fa_add ops) lo hi;
          shuf = movehdup lo;
          pairs = lanes2 (fa_add ops) lo shuf;
          shuf = movehl shuf pairs;
          pairs = add_ss ops pairs shuf
      in pairs ! 0)"

text \<open>\<open>vaddvq_f32\<close> adds neighbouring lanes pairwise.\<close>

definition vaddvq :: "'a farith \<Rightarrow> 'a list \<Rightarrow> 'a" where
  "vaddvq ops v = fa_add ops (fa_add ops (v ! 0) (v ! 1)) (fa_add ops (v ! 2) (v ! 3))"

section \<open>Cosine similarity\<close>

type_synonym 'a acc3 = "'a \<times> 'a \<times> 'a"

text \<open>
  The vector loop, with the accumulators for the dot product and the two squared norms;
  \<open>w\<close> is the number of lanes.  It returns the index at which it stopped.
\<close>

function cos_blocks ::
    "'a farith \<Rightarrow> nat \<Rightarrow> 'a list \<Rightarrow> 'a list \<Rightarrow> nat \<Rightarrow> nat \<Rightarrow> 'a list acc3
      \<Rightarrow> (nat \<times> 'a list acc3) res" where
  "cos_blocks ops w a b n i (d, na, nb) =
     (if 0 < w \<and> i + w \<le> n then
        bindR (slice_r a i w) (\<lambda>va. bindR (slice_r b i w) (\<lambda>vb.
          cos_blocks ops w a b n (i + w)
            (lanes_fma ops va vb d, lanes_fma ops va va na, lanes_fma ops vb vb nb)))
      else Inr (i, d, na, nb))"
  by pat_completeness auto
termination
  by (relation "measure (\<lambda>(ops, w, a, b, n, i, acc). n - i)") auto

text \<open>The scalar tail.\<close>

function cos_tail ::
    "'a farith \<Rightarrow> 'a list \<Rightarrow> 'a list \<Rightarrow> nat \<Rightarrow> nat \<Rightarrow> 'a acc3 \<Rightarrow> 'a acc3 res" where
  "cos_tail ops a b n i (d, na, nb) =
     (if i < n then
        bindR (nth_r a i) (\<lambda>x. bindR (nth_r b i) (\<lambda>y.
          cos_tail ops a b n (Suc i)
            (fa_add ops d (fa_mul ops x y),
             fa_add ops na (fa_mul ops x x),
             fa_add ops nb (fa_mul ops y y))))
      else Inr (d, na, nb))"
  by pat_completeness auto
termination
  by (relation "measure (\<lambda>(ops, a, b, n, i, acc). n - i)") auto

declare cos_blocks.simps [simp del] cos_tail.simps [simp del]

definition cos_finish :: "'a farith \<Rightarrow> 'a acc3 \<Rightarrow> 'a" where
  "cos_finish ops acc = (case acc of (d, na, nb) \<Rightarrow>
     (let denom = fa_mul ops (fa_sqrt ops na) (fa_sqrt ops nb)
      in if fa_lt ops denom (fa_tiny ops) then fa_zero ops else fa_div ops d denom))"

definition cosine_avx2_kernel :: "'a farith \<Rightarrow> 'a list \<Rightarrow> 'a list \<Rightarrow> nat \<Rightarrow> 'a res" where
  "cosine_avx2_kernel ops a b n =
     bindR (cos_blocks ops 8 a b n 0 (replicate 8 (fa_zero ops),
              replicate 8 (fa_zero ops), replicate 8 (fa_zero ops))) (\<lambda>(i, d, na, nb).
     bindR (cos_tail ops a b n i (hsum256 ops d, hsum256 ops na, hsum256 ops nb)) (\<lambda>acc.
       Inr (cos_finish ops acc)))"

definition cosine_neon_kernel :: "'a farith \<Rightarrow> 'a list \<Rightarrow> 'a list \<Rightarrow> nat \<Rightarrow> 'a res" where
  "cosine_neon_kernel ops a b n =
     bindR (cos_blocks ops 4 a b n 0 (replicate 4 (fa_zero ops),
              replicate 4 (fa_zero ops), replicate 4 (fa_zero ops))) (\<lambda>(i, d, na, nb).
     bindR (cos_tail ops a b n i (vaddvq ops d, vaddvq ops na, vaddvq ops nb)) (\<lambda>acc.
       Inr (cos_finish ops acc)))"

text \<open>
  The scalar reference converts each element to the wide format, works there and converts
  the quotient back.
\<close>

definition cosine_naive_kernel ::
    "('a \<Rightarrow> 'd) \<Rightarrow> ('d \<Rightarrow> 'a) \<Rightarrow> 'a \<Rightarrow> 'd farith \<Rightarrow> 'a list \<Rightarrow> 'a list \<Rightarrow> nat \<Rightarrow> 'a res" where
  "cosine_naive_kernel wide narrow zero ops a b n =
     bindR (cos_tail ops (map wide a) (map wide b) n 0
              (fa_zero ops, fa_zero ops, fa_zero ops)) (\<lambda>(d, na, nb).
       (let denom = fa_mul ops (fa_sqrt ops na) (fa_sqrt ops nb)
        in Inr (if fa_lt ops denom (fa_tiny ops) then zero else narrow (fa_div ops d denom))))"

section \<open>Squared Euclidean distance\<close>

function l2_blocks ::
    "'a farith \<Rightarrow> nat \<Rightarrow> 'a list \<Rightarrow> 'a list \<Rightarrow> nat \<Rightarrow> nat \<Rightarrow> 'a list \<Rightarrow> (nat \<times> 'a list) res" where
  "l2_blocks ops w a b n i acc =
     (if 0 < w \<and> i + w \<le> n then
        bindR (slice_r a i w) (\<lambda>va. bindR (slice_r b i w) (\<lambda>vb.
          (let diff = lanes2 (fa_sub ops) va vb
           in l2_blocks ops w a b n (i + w) (lanes_fma ops diff diff acc))))
      else Inr (i, acc))"
  by pat_completeness auto
termination
  by (relation "measure (\<lambda>(ops, w, a, b, n, i, acc). n - i)") auto

function l2_tail :: "'a farith \<Rightarrow> 'a list \<Rightarrow> 'a list \<Rightarrow> nat \<Rightarrow> nat \<Rightarrow> 'a \<Rightarrow> 'a res" where
  "l2_tail ops a b n i acc =
     (if i < n then
        bindR (nth_r a i) (\<lambda>x. bindR (nth_r b i) (\<lambda>y.
          (let d = fa_sub ops x y
           in l2_tail ops a b n (Suc i) (fa_add ops acc (fa_mul ops d d)))))
      else Inr acc)"
  by pat_completeness auto
termination
  by (relation "measure (\<lambda>(ops, a, b, n, i, acc). n - i)") auto

declare l2_blocks.simps [simp del] l2_tail.simps [simp del]

definition l2_avx2_kernel :: "'a farith \<Rightarrow> 'a list \<Rightarrow> 'a list \<Rightarrow> nat \<Rightarrow> 'a res" where
  "l2_avx2_kernel ops a b n =
     bindR (l2_blocks ops 8 a b n 0 (replicate 8 (fa_zero ops))) (\<lambda>(i, acc).
       l2_tail ops a b n i (hsum256 ops acc))"

definition l2_neon_kernel :: "'a farith \<Rightarrow> 'a list \<Rightarrow> 'a list \<Rightarrow> nat \<Rightarrow> 'a res" where
  "l2_neon_kernel ops a b n =
     bindR (l2_blocks ops 4 a b n 0 (replicate 4 (fa_zero ops))) (\<lambda>(i, acc).
       l2_tail ops a b n i (vaddvq ops acc))"

definition l2_naive_kernel ::
    "('a \<Rightarrow> 'd) \<Rightarrow> ('d \<Rightarrow> 'a) \<Rightarrow> 'd farith \<Rightarrow> 'a list \<Rightarrow> 'a list \<Rightarrow> nat \<Rightarrow> 'a res" where
  "l2_naive_kernel wide narrow ops a b n =
     bindR (l2_tail ops (map wide a) (map wide b) n 0 (fa_zero ops)) (\<lambda>acc. Inr (narrow acc))"

section \<open>The functions of the library\<close>

text \<open>
  The preprocessor picks the code: \<open>__ARM_NEON\<close>, \<open>__AVX2__\<close>, or neither.
\<close>

datatype target = Target_NEON | Target_AVX2 | Target_Scalar

definition cosine_similarity_avx2 :: "f32 list \<Rightarrow> f32 list \<Rightarrow> nat \<Rightarrow> f32 res" where
  "cosine_similarity_avx2 = cosine_avx2_kernel f32_arith"

definition cosine_similarity_naive :: "f32 list \<Rightarrow> f32 list \<Rightarrow> nat \<Rightarrow> f32 res" where
  "cosine_similarity_naive = cosine_naive_kernel f32_decode f32_of_double 0 f64_arith"

definition cosine_similarity_neon :: "target \<Rightarrow> f32 list \<Rightarrow> f32 list \<Rightarrow> nat \<Rightarrow> f32 res" where
  "cosine_similarity_neon tgt a b n =
     (if tgt = Target_NEON then cosine_neon_kernel f32_arith a b n
      else cosine_similarity_avx2 a b n)"

definition cosine_similarity :: "target \<Rightarrow> f32 list \<Rightarrow> f32 list \<Rightarrow> nat \<Rightarrow> f32 res" where
  "cosine_similarity tgt a b n = (case tgt of
     Target_NEON \<Rightarrow> cosine_similarity_neon tgt a b n
   | Target_AVX2 \<Rightarrow> cosine_similarity_avx2 a b n
   | Target_Scalar \<Rightarrow> cosine_similarity_naive a b n)"

definition l2_distance_avx2 :: "f32 list \<Rightarrow> f32 list \<Rightarrow> nat \<Rightarrow> f32 res" where
  "l2_distance_avx2 = l2_avx2_kernel f32_arith"

definition l2_distance_naive :: "f32 list \<Rightarrow> f32 list \<Rightarrow> nat \<Rightarrow> f32 res" where
  "l2_distance_naive = l2_naive_kernel f32_decode f32_of_double f64_arith"

definition l2_distance_neon :: "target \<Rightarrow> f32 list \<Rightarrow> f32 list \<Rightarrow> nat \<Rightarrow> f32 res" where
  "l2_distance_neon tgt a b n =
     (if tgt = Target_NEON then l2_neon_kernel f32_arith a b n
      else l2_distance_avx2 a b n)"

definition l2_distance :: "target \<Rightarrow> f32 list \<Rightarrow> f32 list \<Rightarrow> nat \<Rightarrow> f32 res" where
  "l2_distance tgt a b n = (case tgt of
     Target_NEON \<Rightarrow> l2_distance_neon tgt a b n
   | Target_AVX2 \<Rightarrow> l2_distance_avx2 a b n
   | Target_Scalar \<Rightarrow> l2_distance_naive a b n)"

section \<open>Every load is in range\<close>

lemma cos_blocks_stop:
  "\<not> (0 < w \<and> i + w \<le> n) \<Longrightarrow> cos_blocks ops w a b n i (d, na, nb) = Inr (i, d, na, nb)"
  by (subst cos_blocks.simps) (simp only: if_False)

lemma cos_tail_stop: "\<not> i < n \<Longrightarrow> cos_tail ops a b n i (d, na, nb) = Inr (d, na, nb)"
  by (subst cos_tail.simps) (simp only: if_False)

lemma cos_blocks_safe:
  assumes "n \<le> length a" and "n \<le> length b" and "i \<le> n"
  shows "okR (cos_blocks ops w a b n i acc) (\<lambda>(i', acc'). i' \<le> n)"
  using assms
proof (induction ops w a b n i acc rule: cos_blocks.induct)
  case (1 ops w a b n i d na nb)
  show ?case
  proof (cases "0 < w \<and> i + w \<le> n")
    case True
    then have slices: "slice_r a i w = Inr (take w (drop i a))"
      "slice_r b i w = Inr (take w (drop i b))"
      using "1.prems" by (simp_all add: slice_r_def)
    show ?thesis
      using "1.IH" [OF True slices] "1.prems" True slices
      by (simp add: cos_blocks.simps [of ops w a b n i])
  next
    case False
    then show ?thesis using "1.prems" by (simp add: cos_blocks_stop [OF False])
  qed
qed

lemma cos_tail_safe:
  assumes "n \<le> length a" and "n \<le> length b"
  shows "okR (cos_tail ops a b n i acc) (\<lambda>_. True)"
  using assms
proof (induction ops a b n i acc rule: cos_tail.induct)
  case (1 ops a b n i d na nb)
  show ?case
  proof (cases "i < n")
    case True
    then have "nth_r a i = Inr (a ! i)" "nth_r b i = Inr (b ! i)"
      using "1.prems" by (simp_all add: nth_r_def)
    with "1.IH" [OF True this] "1.prems" True show ?thesis
      by (simp add: cos_tail.simps [of ops a b n i])
  next
    case False
    then show ?thesis by (simp add: cos_tail.simps [of ops a b n i])
  qed
qed

lemma cosine_avx2_safe:
  assumes "n \<le> length a" and "n \<le> length b"
  shows "okR (cosine_avx2_kernel ops a b n) (\<lambda>_. True)"
  unfolding cosine_avx2_kernel_def using assms
  by (auto intro!: okR_mono [OF cos_blocks_safe [OF assms]] okR_mono [OF cos_tail_safe [OF assms]])

lemma cosine_similarity_avx2_defined:
  "n \<le> length a \<Longrightarrow> n \<le> length b \<Longrightarrow> \<exists>s. cosine_similarity_avx2 a b n = Inr s"
  using cosine_avx2_safe [of n a b f32_arith]
  by (auto simp: cosine_similarity_avx2_def okR_iff)

text \<open>Conversely a kernel that returns has read both vectors to the end.\<close>

lemma cos_blocks_reads:
  "cos_blocks ops w a b n i acc = Inr (i', acc') \<Longrightarrow>
    i \<le> i' \<and> (i' = i \<or> i' \<le> length a \<and> i' \<le> length b) \<and> (i \<le> n \<longrightarrow> i' \<le> n)"
proof (induction ops w a b n i acc rule: cos_blocks.induct)
  case (1 ops w a b n i d na nb)
  show ?case
  proof (cases "0 < w \<and> i + w \<le> n")
    case True
    then obtain va vb where slices: "slice_r a i w = Inr va" "slice_r b i w = Inr vb"
      using "1.prems" by (auto simp: cos_blocks.simps [of ops w] bindR_Inr_iff)
    then have "i + w \<le> length a" "i + w \<le> length b" by (auto simp: slice_r_def split: if_splits)
    then show ?thesis
      using "1.IH" [OF True slices] "1.prems" True slices
      by (auto simp: cos_blocks.simps [of ops w a b n i])
  next
    case False
    then show ?thesis using "1.prems" by (simp add: cos_blocks_stop [OF False])
  qed
qed

lemma cos_tail_reads:
  "cos_tail ops a b n i acc = Inr acc' \<Longrightarrow> i < n \<Longrightarrow> n \<le> length a \<and> n \<le> length b"
proof (induction ops a b n i acc rule: cos_tail.induct)
  case (1 ops a b n i d na nb)
  then obtain x y where xy: "nth_r a i = Inr x" "nth_r b i = Inr y"
    by (auto simp: cos_tail.simps [of ops a b n i] bindR_Inr_iff)
  then have "i < length a" "i < length b" by (auto simp: nth_r_def split: if_splits)
  with "1.IH" [OF "1.prems"(2) xy] "1.prems" xy show ?case
    by (cases "Suc i < n") (auto simp: cos_tail.simps [of ops a b n i])
qed

lemma cosine_avx2_reads:
  assumes "cosine_avx2_kernel ops a b n = Inr s"
  shows "n \<le> length a \<and> n \<le> length b"
proof -
  obtain i d na nb acc where
    blocks: "cos_blocks ops 8 a b n 0 (replicate 8 (fa_zero ops), replicate 8 (fa_zero ops),
      replicate 8 (fa_zero ops)) = Inr (i, d, na, nb)" and
    tail: "cos_tail ops a b n i (hsum256 ops d, hsum256 ops na, hsum256 ops nb) = Inr acc"
    using assms by (auto simp: cosine_avx2_kernel_def bindR_Inr_iff)
  show ?thesis
    using cos_blocks_reads [OF blocks] cos_tail_reads [OF tail] by (cases "i < n") auto
qed

text \<open>What lies behind the first \<open>n\<close> floats of the second buffer does not matter.\<close>

lemma cos_blocks_take:
  "n \<le> length b \<Longrightarrow> cos_blocks ops w a (take n b) n i acc = cos_blocks ops w a b n i acc"
proof (induction ops w a b n i acc rule: cos_blocks.induct)
  case (1 ops w a b n i d na nb)
  show ?case
  proof (cases "0 < w \<and> i + w \<le> n")
    case True
    then have "slice_r (take n b) i w = slice_r b i w"
      using "1.prems" by (auto simp: slice_r_def take_drop)
    then show ?thesis
      unfolding cos_blocks.simps [of ops w a _ n i] using True "1.IH" [OF True] "1.prems"
      by (auto intro!: bindR_cong)
  qed (simp add: cos_blocks_stop)
qed

lemma cos_tail_take:
  "n \<le> length b \<Longrightarrow> cos_tail ops a (take n b) n i acc = cos_tail ops a b n i acc"
proof (induction ops a b n i acc rule: cos_tail.induct)
  case (1 ops a b n i d na nb)
  show ?case
  proof (cases "i < n")
    case True
    then have "nth_r (take n b) i = nth_r b i" using "1.prems" by (simp add: nth_r_def)
    then show ?thesis
      unfolding cos_tail.simps [of ops a _ n i] using True "1.IH" [OF True] "1.prems"
      by (auto intro!: bindR_cong)
  qed (simp add: cos_tail_stop)
qed

lemma cosine_similarity_take:
  "n \<le> length b \<Longrightarrow> cosine_similarity_avx2 a (take n b) n = cosine_similarity_avx2 a b n"
  by (simp add: cosine_similarity_avx2_def cosine_avx2_kernel_def cos_blocks_take cos_tail_take)
section \<open>The order of the arguments\<close>

text \<open>
  Products of IEEE numbers commute, sums do not associate; the kernels need the first
  only, for their result not to depend on the order of the arguments.
\<close>

locale commutative_arith =
  fixes ops :: "'a farith"
  assumes mul_comm: "fa_mul ops x y = fa_mul ops y x"
    and fma_comm: "fa_fma ops x y z = fa_fma ops y x z"
begin

lemma lanes_fma_comm: "lanes_fma ops xs ys acc = lanes_fma ops ys xs acc"
  unfolding lanes_fma_def by (rule nth_equalityI) (auto simp: fma_comm)

lemma cos_blocks_swap:
  "cos_blocks ops w b a n i (d, nb, na) =
     bindR (cos_blocks ops w a b n i (d, na, nb)) (\<lambda>(i', d', na', nb'). Inr (i', d', nb', na'))"
proof (induction "n - i" arbitrary: i d na nb rule: less_induct)
  case less
  show ?case
  proof (cases "0 < w \<and> i + w \<le> n")
    case True
    show ?thesis
    proof (cases "slice_r a i w")
      case (Inl e)
      then have "e = Undefined_Behaviour" by (auto simp: slice_r_def split: if_splits)
      with Inl True show ?thesis
        by (auto simp: cos_blocks.simps [of _ w] slice_r_def split: if_splits)
    next
      case a: (Inr va)
      show ?thesis
      proof (cases "slice_r b i w")
        case (Inl e)
        with a True show ?thesis by (simp add: cos_blocks.simps [of _ w])
      next
        case b: (Inr vb)
        show ?thesis
          using less.hyps [of "i + w", OF diff_less_mono2] a b True
          by (simp add: cos_blocks.simps [of _ w _ _ n i] lanes_fma_comm [of vb va])
      qed
    qed
  next
    case False
    then show ?thesis by (simp add: cos_blocks_stop)
  qed
qed

lemma cos_tail_swap:
  "cos_tail ops b a n i (d, nb, na) =
     bindR (cos_tail ops a b n i (d, na, nb)) (\<lambda>(d', na', nb'). Inr (d', nb', na'))"
proof (induction "n - i" arbitrary: i d na nb)
  case 0
  then show ?case by (simp add: cos_tail.simps)
next
  case (Suc k)
  then have i: "i < n" by simp
  show ?case
  proof (cases "i < length a \<and> i < length b")
    case True
    then show ?thesis
      using Suc.hyps(1) [of "Suc i"] Suc.hyps(2) i
      by (simp add: cos_tail.simps [of _ _ _ _ i] nth_r_def mul_comm [of "b ! i" "a ! i"])
  next
    case False
    then show ?thesis using i by (auto simp: cos_tail.simps [of _ _ _ _ i] nth_r_def)
  qed
qed

lemma cos_finish_swap: "cos_finish ops (d, nb, na) = cos_finish ops (d, na, nb)"
  by (simp add: cos_finish_def mul_comm [of "fa_sqrt ops nb"])

lemma cosine_avx2_sym: "cosine_avx2_kernel ops a b n = cosine_avx2_kernel ops b a n"
proof -
  let ?z = "replicate 8 (fa_zero ops)"
  have "cosine_avx2_kernel ops b a n =
      bindR (cos_blocks ops 8 a b n 0 (?z, ?z, ?z)) (\<lambda>(i, d, na, nb).
      bindR (cos_tail ops b a n i (hsum256 ops d, hsum256 ops nb, hsum256 ops na)) (\<lambda>acc.
        Inr (cos_finish ops acc)))"
    unfolding cosine_avx2_kernel_def
    by (subst cos_blocks_swap) (auto simp: bindR_assoc intro!: bindR_cong)
  also have "\<dots> = cosine_avx2_kernel ops a b n"
    unfolding cosine_avx2_kernel_def
    by (auto simp: bindR_assoc cos_tail_swap [of b a] cos_finish_swap intro!: bindR_cong)
  finally show ?thesis ..
qed

end

interpretation f32c: commutative_arith f32_arith
  by unfold_locales (simp_all add: f32_arith_def f32_mul_comm f32_fma_comm)

interpretation realc: commutative_arith "real_arith t"
  by unfold_locales (simp_all add: real_arith_def)

lemma cosine_similarity_avx2_sym: "cosine_similarity_avx2 a b n = cosine_similarity_avx2 b a n"
  unfolding cosine_similarity_avx2_def by (rule f32c.cosine_avx2_sym)

section \<open>The kernels without rounding\<close>

text \<open>The sum of the products of the elements from \<open>i\<close> up to \<open>j\<close>.\<close>

definition dot :: "'a::comm_ring_1 list \<Rightarrow> 'a list \<Rightarrow> nat \<Rightarrow> nat \<Rightarrow> 'a" where
  "dot a b i j = (\<Sum>k = i..<j. a ! k * b ! k)"

definition sqdist :: "'a::comm_ring_1 list \<Rightarrow> 'a list \<Rightarrow> nat \<Rightarrow> nat \<Rightarrow> 'a" where
  "sqdist a b i j = (\<Sum>k = i..<j. (a ! k - b ! k) * (a ! k - b ! k))"

lemma sum_list_lanes:
  fixes f :: "'a \<Rightarrow> 'b \<Rightarrow> 'c::comm_monoid_add"
  assumes "i + w \<le> length a" and "i + w \<le> length b"
  shows "sum_list (map (\<lambda>(x, y). f x y) (zip (take w (drop i a)) (take w (drop i b))))
    = (\<Sum>k = i..<i + w. f (a ! k) (b ! k))"
proof -
  have "sum_list (map (\<lambda>(x, y). f x y) (zip (take w (drop i a)) (take w (drop i b))))
      = (\<Sum>k = 0..<w. f (a ! (i + k)) (b ! (i + k)))"
    using assms by (simp add: sum_list_sum_nth)
  also have "\<dots> = (\<Sum>k = i..<i + w. f (a ! k) (b ! k))"
    using sum.shift_bounds_nat_ivl [of "\<lambda>k. f (a ! k) (b ! k)" 0 i w]
    by (simp add: add.commute)
  finally show ?thesis .
qed

lemma list8_cases:
  assumes "length v = 8"
  obtains x0 x1 x2 x3 x4 x5 x6 x7 where "v = [x0, x1, x2, x3, x4, x5, x6, x7]"
  using assms by (auto simp: length_Suc_conv numeral_eq_Suc)

lemma list4_cases:
  assumes "length v = 4"
  obtains x0 x1 x2 x3 where "v = [x0, x1, x2, x3]"
  using assms by (auto simp: length_Suc_conv numeral_eq_Suc)

locale exact_arith =
  fixes ops :: "'a::comm_ring_1 farith"
  assumes zero: "fa_zero ops = 0"
    and add: "fa_add ops x y = x + y"
    and sub: "fa_sub ops x y = x - y"
    and mul: "fa_mul ops x y = x * y"
    and fma: "fa_fma ops x y z = x * y + z"
begin

lemma hsum256_sum: "length v = 8 \<Longrightarrow> hsum256 ops v = sum_list v"
  by (elim list8_cases)
    (simp add: hsum256_def lanes2_def movehdup_def movehl_def add_ss_def add algebra_simps)

lemma vaddvq_sum: "length v = 4 \<Longrightarrow> vaddvq ops v = sum_list v"
  by (elim list4_cases) (simp add: vaddvq_def add algebra_simps)

lemma length_lanes_fma [simp]:
  "length (lanes_fma ops xs ys acc) = min (min (length xs) (length ys)) (length acc)"
  by (simp add: lanes_fma_def)

lemma lanes_fma_sum:
  "length xs = length acc \<Longrightarrow> length ys = length acc \<Longrightarrow>
    sum_list (lanes_fma ops xs ys acc)
      = sum_list acc + sum_list (map (\<lambda>(x, y). x * y) (zip xs ys))"
  by (simp add: lanes_fma_def fma sum_list_sum_nth sum.distrib add.commute)

lemma cos_blocks_dot:
  assumes "n \<le> length a" and "n \<le> length b" and "i \<le> n"
    and "length d = w" and "length na = w" and "length nb = w"
  shows "okR (cos_blocks ops w a b n i (d, na, nb)) (\<lambda>(i', d', na', nb').
    i \<le> i' \<and> i' \<le> n \<and> length d' = w \<and> length na' = w \<and> length nb' = w
    \<and> sum_list d' = sum_list d + dot a b i i'
    \<and> sum_list na' = sum_list na + dot a a i i'
    \<and> sum_list nb' = sum_list nb + dot b b i i')"
  using assms
proof (induction "n - i" arbitrary: i d na nb rule: less_induct)
  case less
  show ?case
  proof (cases "0 < w \<and> i + w \<le> n")
    case True
    then have slices: "slice_r a i w = Inr (take w (drop i a))"
      "slice_r b i w = Inr (take w (drop i b))"
      using less.prems by (simp_all add: slice_r_def)
    have join: "dot x y i (i + w) + dot x y (i + w) j = dot x y i j"
      if "i + w \<le> j" for x y :: "'a list" and j
      using that sum.atLeastLessThan_concat [of i "i + w" j "\<lambda>k. x ! k * y ! k"]
      by (simp add: dot_def)
    have lens [simp]: "min (length x - i) w = w" if "n \<le> length x" for x :: "'a list"
      using that True by (intro min.absorb2) linarith
    have block: "sum_list (lanes_fma ops (take w (drop i x)) (take w (drop i y)) acc)
        = sum_list acc + dot x y i (i + w)"
      if "n \<le> length x" "n \<le> length y" "length acc = w" for x y acc :: "'a list"
      using that True sum_list_lanes [of i w x y "(*)"] by (simp add: lanes_fma_sum dot_def)
    show ?thesis
      using True less.prems
      by (simp add: cos_blocks.simps [of _ w _ _ n i] slices)
        (rule okR_mono [OF less.hyps [of "i + w", OF diff_less_mono2]],
         simp_all add: block join add.assoc split_beta)
  next
    case False
    then show ?thesis using less.prems by (simp add: cos_blocks_stop [OF False] dot_def)
  qed
qed

lemma cos_tail_dot:
  assumes "n \<le> length a" and "n \<le> length b" and "i \<le> n"
  shows "cos_tail ops a b n i (d, na, nb)
    = Inr (d + dot a b i n, na + dot a a i n, nb + dot b b i n)"
  using assms
proof (induction "n - i" arbitrary: i d na nb)
  case 0
  then show ?case by (simp add: cos_tail_stop dot_def)
next
  case (Suc k)
  then have i: "i < n" by simp
  have "dot x y i n = x ! i * y ! i + dot x y (Suc i) n" for x y :: "'a list"
    using i by (simp add: dot_def sum.atLeast_Suc_lessThan)
  with Suc i show ?case
    by (simp add: cos_tail.simps [of _ _ _ _ i] nth_r_def add mul add.assoc)
qed

text \<open>Whatever the blocks leave over, the sums are those over the whole vectors.\<close>

lemma cos_kernel_dot:
  assumes "n \<le> length a" and "n \<le> length b"
    and "\<And>v. length v = w \<Longrightarrow> hsum v = sum_list v"
  shows "bindR (cos_blocks ops w a b n 0 (replicate w (fa_zero ops),
            replicate w (fa_zero ops), replicate w (fa_zero ops))) (\<lambda>(i, d, na, nb).
         bindR (cos_tail ops a b n i (hsum d, hsum na, hsum nb)) (\<lambda>acc.
           Inr (cos_finish ops acc)))
    = Inr (cos_finish ops (dot a b 0 n, dot a a 0 n, dot b b 0 n))"
proof -
  let ?z = "replicate w (fa_zero ops)"
  have join: "dot x y 0 i + dot x y i n = dot x y 0 n" if "i \<le> n" for x y :: "'a list" and i
    using that sum.atLeastLessThan_concat [of 0 i n "\<lambda>k. x ! k * y ! k"] by (simp add: dot_def)
  have "okR (cos_blocks ops w a b n 0 (?z, ?z, ?z)) (\<lambda>(i, d, na, nb).
      bindR (cos_tail ops a b n i (hsum d, hsum na, hsum nb)) (\<lambda>acc.
        Inr (cos_finish ops acc))
      = Inr (cos_finish ops (dot a b 0 n, dot a a 0 n, dot b b 0 n)))"
    by (rule okR_mono [OF cos_blocks_dot [OF assms(1,2), of 0 ?z w ?z ?z]])
      (auto simp: assms(3) cos_tail_dot [OF assms(1,2)] join zero sum_list_replicate)
  then show ?thesis by (auto simp: okR_iff)
qed

lemma cosine_avx2_dot:
  "n \<le> length a \<Longrightarrow> n \<le> length b \<Longrightarrow>
    cosine_avx2_kernel ops a b n = Inr (cos_finish ops (dot a b 0 n, dot a a 0 n, dot b b 0 n))"
  unfolding cosine_avx2_kernel_def by (rule cos_kernel_dot) (auto simp: hsum256_sum)

lemma cosine_neon_dot:
  "n \<le> length a \<Longrightarrow> n \<le> length b \<Longrightarrow>
    cosine_neon_kernel ops a b n = Inr (cos_finish ops (dot a b 0 n, dot a a 0 n, dot b b 0 n))"
  unfolding cosine_neon_kernel_def by (rule cos_kernel_dot) (auto simp: vaddvq_sum)

lemma cosine_naive_dot:
  "n \<le> length a \<Longrightarrow> n \<le> length b \<Longrightarrow>
    cosine_naive_kernel id id (fa_zero ops) ops a b n
      = Inr (cos_finish ops (dot a b 0 n, dot a a 0 n, dot b b 0 n))"
  by (simp add: cosine_naive_kernel_def cos_tail_dot cos_finish_def zero Let_def)

lemma l2_blocks_sqdist:
  assumes "n \<le> length a" and "n \<le> length b" and "i \<le> n" and "length acc = w"
  shows "okR (l2_blocks ops w a b n i acc) (\<lambda>(i', acc').
    i \<le> i' \<and> i' \<le> n \<and> length acc' = w
    \<and> sum_list acc' = sum_list acc + sqdist a b i i')"
  using assms
proof (induction "n - i" arbitrary: i acc rule: less_induct)
  case less
  show ?case
  proof (cases "0 < w \<and> i + w \<le> n")
    case True
    then have slices: "slice_r a i w = Inr (take w (drop i a))"
      "slice_r b i w = Inr (take w (drop i b))"
      using less.prems by (simp_all add: slice_r_def)
    have lens [simp]: "min (length x - i) w = w" if "n \<le> length x" for x :: "'a list"
      using that True by (intro min.absorb2) linarith
    have join: "sqdist x y i (i + w) + sqdist x y (i + w) j = sqdist x y i j"
      if "i + w \<le> j" for x y :: "'a list" and j
      using that sum.atLeastLessThan_concat [of i "i + w" j "\<lambda>k. (x ! k - y ! k) * (x ! k - y ! k)"]
      by (simp add: sqdist_def)
    let ?diff = "lanes2 (fa_sub ops) (take w (drop i a)) (take w (drop i b))"
    have dlen: "length ?diff = w"
      using less.prems by (simp add: lanes2_def)
    have "map (\<lambda>(x, y). x * y) (zip ?diff ?diff) =
        map (\<lambda>(x, y). (x - y) * (x - y)) (zip (take w (drop i a)) (take w (drop i b)))"
      by (rule nth_equalityI) (auto simp: lanes2_def sub)
    then have block: "sum_list (lanes_fma ops ?diff ?diff acc)
        = sum_list acc + sqdist a b i (i + w)"
      using less.prems True sum_list_lanes [of i w a b "\<lambda>x y. (x - y) * (x - y)"]
      by (simp add: lanes_fma_sum sqdist_def dlen)
    show ?thesis
      using True less.prems
      by (simp add: l2_blocks.simps [of _ w _ _ n i] slices Let_def)
        (rule okR_mono [OF less.hyps [of "i + w", OF diff_less_mono2]],
         simp_all add: block dlen join add.assoc split_beta)
  next
    case False
    then have "l2_blocks ops w a b n i acc = Inr (i, acc)"
      by (subst l2_blocks.simps) (simp only: if_False)
    then show ?thesis using less.prems by (simp add: sqdist_def)
  qed
qed

lemma l2_tail_sqdist:
  assumes "n \<le> length a" and "n \<le> length b" and "i \<le> n"
  shows "l2_tail ops a b n i acc = Inr (acc + sqdist a b i n)"
  using assms
proof (induction "n - i" arbitrary: i acc)
  case 0
  then show ?case by (simp add: l2_tail.simps sqdist_def)
next
  case (Suc k)
  then have i: "i < n" by simp
  have "sqdist a b i n = (a ! i - b ! i) * (a ! i - b ! i) + sqdist a b (Suc i) n"
    using i by (simp add: sqdist_def sum.atLeast_Suc_lessThan)
  with Suc i show ?case
    by (simp add: l2_tail.simps [of _ _ _ _ i] nth_r_def add mul sub add.assoc Let_def)
qed

lemma l2_kernel_sqdist:
  assumes "n \<le> length a" and "n \<le> length b"
    and "\<And>v. length v = w \<Longrightarrow> hsum v = sum_list v"
  shows "bindR (l2_blocks ops w a b n 0 (replicate w (fa_zero ops))) (\<lambda>(i, acc).
       l2_tail ops a b n i (hsum acc)) = Inr (sqdist a b 0 n)"
proof -
  have join: "sqdist a b 0 i + sqdist a b i n = sqdist a b 0 n" if "i \<le> n" for i
    using that sum.atLeastLessThan_concat [of 0 i n "\<lambda>k. (a ! k - b ! k) * (a ! k - b ! k)"]
    by (simp add: sqdist_def)
  have "okR (l2_blocks ops w a b n 0 (replicate w (fa_zero ops))) (\<lambda>(i, acc).
      l2_tail ops a b n i (hsum acc) = Inr (sqdist a b 0 n))"
    by (rule okR_mono [OF l2_blocks_sqdist [OF assms(1,2), of 0 _ w]])
      (auto simp: assms(3) l2_tail_sqdist [OF assms(1,2)] join zero sum_list_replicate)
  then show ?thesis by (auto simp: okR_iff)
qed

lemma l2_avx2_sqdist:
  "n \<le> length a \<Longrightarrow> n \<le> length b \<Longrightarrow> l2_avx2_kernel ops a b n = Inr (sqdist a b 0 n)"
  unfolding l2_avx2_kernel_def by (rule l2_kernel_sqdist) (auto simp: hsum256_sum)

lemma l2_neon_sqdist:
  "n \<le> length a \<Longrightarrow> n \<le> length b \<Longrightarrow> l2_neon_kernel ops a b n = Inr (sqdist a b 0 n)"
  unfolding l2_neon_kernel_def by (rule l2_kernel_sqdist) (auto simp: vaddvq_sum)

lemma l2_naive_sqdist:
  "n \<le> length a \<Longrightarrow> n \<le> length b \<Longrightarrow> l2_naive_kernel id id ops a b n = Inr (sqdist a b 0 n)"
  by (simp add: l2_naive_kernel_def l2_tail_sqdist zero)

end

interpretation reale: exact_arith "real_arith t"
  by unfold_locales (simp_all add: real_arith_def)

section \<open>What the kernels compute\<close>

text \<open>The mathematical cosine of the first \<open>n\<close> components, zero below the threshold.\<close>

definition cosine_exact :: "real \<Rightarrow> real list \<Rightarrow> real list \<Rightarrow> nat \<Rightarrow> real" where
  "cosine_exact t a b n =
     (let denom = sqrt (\<Sum>k<n. (a ! k)\<^sup>2) * sqrt (\<Sum>k<n. (b ! k)\<^sup>2)
      in if denom < t then 0 else (\<Sum>k<n. a ! k * b ! k) / denom)"

lemma cos_finish_real:
  "cos_finish (real_arith t) (dot a b 0 n, dot a a 0 n, dot b b 0 n) = cosine_exact t a b n"
  by (simp add: cos_finish_def cosine_exact_def real_arith_def dot_def atLeast0LessThan
      power2_eq_square Let_def)

lemma cauchy_schwarz_sum:
  fixes f g :: "nat \<Rightarrow> real"
  shows "(\<Sum>k<n. f k * g k)\<^sup>2 \<le> (\<Sum>k<n. (f k)\<^sup>2) * (\<Sum>k<n. (g k)\<^sup>2)"
proof -
  let ?A = "\<Sum>k<n. (f k)\<^sup>2" and ?B = "\<Sum>k<n. (g k)\<^sup>2" and ?C = "\<Sum>k<n. f k * g k"
  have "0 \<le> (\<Sum>k<n. (?B * f k - ?C * g k)\<^sup>2)" by (intro sum_nonneg) simp
  also have "\<dots> = (\<Sum>k<n. ?B\<^sup>2 * (f k)\<^sup>2 - 2 * ?B * ?C * (f k * g k) + ?C\<^sup>2 * (g k)\<^sup>2)"
    by (intro sum.cong) (auto simp: power2_eq_square algebra_simps)
  also have "\<dots> = ?B\<^sup>2 * ?A - 2 * ?B * ?C * ?C + ?C\<^sup>2 * ?B"
    by (simp add: sum.distrib sum_subtractf sum_distrib_left)
  also have "\<dots> = ?B * (?A * ?B - ?C\<^sup>2)" by (simp add: power2_eq_square algebra_simps)
  finally have *: "0 \<le> ?B * (?A * ?B - ?C\<^sup>2)" .
  show ?thesis
  proof (cases "?B = 0")
    case True
    then have "\<forall>k\<in>{..<n}. (g k)\<^sup>2 = 0" by (subst (asm) sum_nonneg_eq_0_iff) auto
    then show ?thesis by simp
  next
    case False
    then have "0 < ?B" using sum_nonneg [of "{..<n}" "\<lambda>k. (g k)\<^sup>2"] by fastforce
    with * show ?thesis by (simp add: zero_le_mult_iff)
  qed
qed

lemma cosine_exact_bounds: "\<bar>cosine_exact t a b n\<bar> \<le> 1"
proof -
  let ?A = "\<Sum>k<n. (a ! k)\<^sup>2" and ?B = "\<Sum>k<n. (b ! k)\<^sup>2" and ?C = "\<Sum>k<n. a ! k * b ! k"
  have nonneg: "0 \<le> ?A" "0 \<le> ?B" by (simp_all add: sum_nonneg)
  have "\<bar>?C\<bar> = sqrt (?C\<^sup>2)" by simp
  also have "\<dots> \<le> sqrt (?A * ?B)" by (intro real_sqrt_le_mono cauchy_schwarz_sum)
  finally have C: "\<bar>?C\<bar> \<le> sqrt ?A * sqrt ?B" by (simp add: real_sqrt_mult)
  have "0 \<le> sqrt ?A * sqrt ?B" using nonneg by simp
  then have "\<bar>?C / (sqrt ?A * sqrt ?B)\<bar> \<le> 1"
    using C by (simp add: abs_divide divide_le_eq_1 abs_mult) auto
  then show ?thesis by (simp add: cosine_exact_def Let_def)
qed

section \<open>Some similarities, evaluated\<close>

text \<open>Below eight components only the scalar tail runs.\<close>

lemma hsum256_f32_zero: "hsum256 f32_arith (replicate 8 0) = 0"
  by code_simp

lemma cosine_avx2_short:
  assumes "n < 8"
  shows "cosine_similarity_avx2 a b n =
    bindR (cos_tail f32_arith a b n 0 (0, 0, 0)) (\<lambda>acc. Inr (cos_finish f32_arith acc))"
proof -
  have "fa_zero f32_arith = 0" by (simp add: f32_arith_def)
  then show ?thesis
    using assms hsum256_f32_zero
    by (simp add: cosine_similarity_avx2_def cosine_avx2_kernel_def cos_blocks.simps [of f32_arith 8])
qed

text \<open>The floats 1 and -1, and the similarities of the one-dimensional vectors they make.\<close>

definition f32_one :: f32 where
  "f32_one = F32 1065353216"

lemma cosine_one_one: "cosine_similarity_avx2 [f32_one] [f32_one] 1 = Inr f32_one"
  by (subst cosine_avx2_short, simp) (unfold f32_one_def, code_simp)

lemma cosine_one_minus: "cosine_similarity_avx2 [f32_one] [- f32_one] 1 = Inr (- f32_one)"
  by (subst cosine_avx2_short, simp) (unfold f32_one_def, code_simp)

lemma cosine_minus_minus: "cosine_similarity_avx2 [- f32_one] [- f32_one] 1 = Inr f32_one"
  by (subst cosine_avx2_short, simp) (unfold f32_one_def, code_simp)

lemma cosine_minus_one: "cosine_similarity_avx2 [- f32_one] [f32_one] 1 = Inr (- f32_one)"
  using cosine_one_minus by (simp add: cosine_similarity_avx2_sym)

lemma cosine_one_zero: "cosine_similarity_avx2 [f32_one] [0] 1 = Inr 0"
  by (subst cosine_avx2_short, simp) (unfold f32_one_def, code_simp)

lemma f32_one_facts:
  "\<not> is_nan f32_one" "- f32_one < f32_one" "f32_one \<noteq> - f32_infinity"
  "- f32_one \<noteq> - f32_infinity" "f32_one \<noteq> f32_infinity" "f32_one \<noteq> - f32_one"
  by (unfold f32_one_def) (code_simp+)

lemmas unit_similarities =
  cosine_one_one cosine_one_minus cosine_minus_one cosine_minus_minus f32_one_facts
  cosine_one_one [unfolded One_nat_def] cosine_one_minus [unfolded One_nat_def]
  cosine_minus_one [unfolded One_nat_def] cosine_minus_minus [unfolded One_nat_def]

section \<open>Properties\<close>

text \<open>C28: Without rounding, the AVX2, the NEON and the scalar cosine kernel all return the
  mathematical cosine of the first \<open>n\<close> components (zero when the product of the norms is
  below the threshold): blocks, horizontal sums and tails visit every index exactly once.\<close>

theorem cosine_kernels_exact:
  assumes "n \<le> length a" and "n \<le> length b"
  shows "cosine_avx2_kernel (real_arith t) a b n = Inr (cosine_exact t a b n)
    \<and> cosine_neon_kernel (real_arith t) a b n = Inr (cosine_exact t a b n)
    \<and> cosine_naive_kernel id id 0 (real_arith t) a b n = Inr (cosine_exact t a b n)"
  using reale.cosine_avx2_dot [OF assms, of t] reale.cosine_neon_dot [OF assms, of t]
    reale.cosine_naive_dot [OF assms, of t] reale.zero [of t]
  by (simp only: cos_finish_real)

theorem cosine_kernels_exact_witness:
  "cosine_avx2_kernel (real_arith 0) [3, 4] [3, 4] 2 = Inr (cosine_exact 0 [3, 4] [3, 4] 2)"
  using cosine_kernels_exact [of 2 "[3, 4]" "[3, 4]" 0] by simp

text \<open>Without rounding, the score a cosine kernel returns lies between -1 and 1.\<close>

theorem cosine_kernel_bounded:
  assumes "cosine_avx2_kernel (real_arith t) a b n = Inr s"
  shows "\<bar>s\<bar> \<le> 1"
proof -
  have "Inr s = Inr (cosine_exact t a b n)"
    using cosine_avx2_reads [OF assms] assms reale.cosine_avx2_dot [of n a b t]
    by (simp add: cos_finish_real)
  then show ?thesis using cosine_exact_bounds [of t a b n] by simp
qed

theorem cosine_kernel_bounded_witness:
  "\<exists>s. cosine_avx2_kernel (real_arith 0) [3, 4] [4, 3] 2 = Inr s \<and> \<bar>s\<bar> \<le> 1"
proof -
  have "cosine_avx2_kernel (real_arith 0) [3, 4] [4, 3] 2 = Inr (cosine_exact 0 [3, 4] [4, 3] 2)"
    using reale.cosine_avx2_dot [of 2 "[3, 4]" "[4, 3]" 0] by (simp add: cos_finish_real)
  from this cosine_kernel_bounded [OF this] show ?thesis by blast
qed

text \<open>C29: The float kernel returns exactly when both buffers hold at least \<open>n\<close> floats: the
  vector loop and the tail read every index below \<open>n\<close> and none beyond.\<close>

theorem cosine_similarity_avx2_memory_safe:
  "(\<exists>s. cosine_similarity_avx2 a b n = Inr s) \<longleftrightarrow> n \<le> length a \<and> n \<le> length b"
  using cosine_similarity_avx2_defined [of n a b] cosine_avx2_reads [of f32_arith a b n]
  by (auto simp: cosine_similarity_avx2_def)

text \<open>Without rounding, the three squared-distance kernels return the sum of the squared
  differences of the first \<open>n\<close> components.\<close>

theorem l2_kernels_exact:
  assumes "n \<le> length a" and "n \<le> length b"
  shows "l2_avx2_kernel (real_arith t) a b n = Inr (\<Sum>k<n. (a ! k - b ! k)\<^sup>2)
    \<and> l2_neon_kernel (real_arith t) a b n = Inr (\<Sum>k<n. (a ! k - b ! k)\<^sup>2)
    \<and> l2_naive_kernel id id (real_arith t) a b n = Inr (\<Sum>k<n. (a ! k - b ! k)\<^sup>2)"
  using reale.l2_avx2_sqdist [OF assms, of t] reale.l2_neon_sqdist [OF assms, of t]
    reale.l2_naive_sqdist [OF assms, of t]
  by (simp only: sqdist_def atLeast0LessThan power2_eq_square)

theorem l2_kernels_exact_witness:
  "l2_avx2_kernel (real_arith 0) [1, 5] [4, 1] 2 = Inr (\<Sum>k<2. ([1, 5] ! k - [4, 1] ! k)\<^sup>2)"
  using l2_kernels_exact [of 2 "[1, 5]" "[4, 1]" 0] by simp

end
