(* ===== verification/Std_Algo.thy ===== *)
theory Std_Algo
  imports Binary32
begin

text \<open>
  What the index code uses of \<open>std::sort\<close>, \<open>std::partial_sort\<close> and
  \<open>std::priority_queue\<close>.  The standard fixes what the sorting functions return only up to
  the order of equal keys, so a sort is a parameter with its documented contract, a locale.
  All of them need a comparator that is a strict weak order on the keys they compare; a
  not-a-number key among several breaks that, which is undefined behaviour.
\<close>

section \<open>Keys\<close>

text \<open>A score (or its negation) with an internal id, as the code's \<open>Pair\<close>.\<close>

type_synonym scored = "f32 \<times> nat"

definition keys_ok :: "scored list \<Rightarrow> bool" where
  "keys_ok xs = (length xs \<le> 1 \<or> list_all (\<lambda>p. \<not> is_nan (fst p)) xs)"

lemma keys_ok_iff: "keys_ok xs \<longleftrightarrow> length xs \<le> 1 \<or> (\<forall>p\<in>set xs. \<not> is_nan (fst p))"
  by (simp add: keys_ok_def list_all_iff)

lemma keys_okI [intro]: "(\<And>p. p \<in> set xs \<Longrightarrow> \<not> is_nan (fst p)) \<Longrightarrow> keys_ok xs"
  by (auto simp: keys_ok_iff)

text \<open>The comparator \<open>a.first > b.first\<close>: the list is sorted by descending score.\<close>

definition desc_sorted :: "scored list \<Rightarrow> bool" where
  "desc_sorted xs = sorted_wrt (\<lambda>a b. \<not> fst a < fst b) xs"

section \<open>The contracts of the sorting functions\<close>

locale desc_sorter =
  fixes srt :: "scored list \<Rightarrow> scored list"
  assumes srt_perm: "keys_ok xs \<Longrightarrow> mset (srt xs) = mset xs"
    and srt_sorted: "keys_ok xs \<Longrightarrow> desc_sorted (srt xs)"
begin

lemma set_srt: "keys_ok xs \<Longrightarrow> set (srt xs) = set xs"
  by (rule mset_perm_set) (rule srt_perm)

lemma length_srt: "keys_ok xs \<Longrightarrow> length (srt xs) = length xs"
  by (rule mset_perm_length) (rule srt_perm)

lemma distinct_srt: "keys_ok xs \<Longrightarrow> distinct (map f (srt xs)) = distinct (map f xs)"
  by (rule mset_perm_distinct_map) (rule srt_perm)

lemma desc_take: "keys_ok xs \<Longrightarrow> desc_sorted (take n (srt xs))"
  using srt_sorted [of xs] by (simp add: desc_sorted_def sorted_wrt_take)

text \<open>Nothing beyond the first \<open>n\<close> scores higher than one of them.\<close>

lemma take_best:
  "keys_ok xs \<Longrightarrow> x \<in> set (take n (srt xs)) \<Longrightarrow> y \<in> set (drop n (srt xs)) \<Longrightarrow> \<not> fst x < fst y"
  using srt_sorted [of xs] sorted_wrt_take_drop [of _ "srt xs" x n y] by (simp add: desc_sorted_def)

end

locale partial_sorter =
  fixes ps :: "nat \<Rightarrow> scored list \<Rightarrow> scored list"
  assumes ps_perm: "keys_ok xs \<Longrightarrow> n \<le> length xs \<Longrightarrow> mset (ps n xs) = mset xs"
    and ps_sorted: "keys_ok xs \<Longrightarrow> n \<le> length xs \<Longrightarrow> desc_sorted (take n (ps n xs))"
    and ps_best: "keys_ok xs \<Longrightarrow> n \<le> length xs \<Longrightarrow>
      x \<in> set (take n (ps n xs)) \<Longrightarrow> y \<in> set (drop n (ps n xs)) \<Longrightarrow> \<not> fst x < fst y"
begin

lemma length_ps: "keys_ok xs \<Longrightarrow> n \<le> length xs \<Longrightarrow> length (ps n xs) = length xs"
  by (rule mset_perm_length) (rule ps_perm)

lemma set_ps: "keys_ok xs \<Longrightarrow> n \<le> length xs \<Longrightarrow> set (ps n xs) = set xs"
  by (rule mset_perm_set) (rule ps_perm)

end

text \<open>A partial sort of the whole range is a sort.\<close>

sublocale partial_sorter \<subseteq> whole: desc_sorter "\<lambda>xs. ps (length xs) xs"
proof
  fix xs :: "scored list"
  assume ok: "keys_ok xs"
  show "mset (ps (length xs) xs) = mset xs" using ps_perm [OF ok] by simp
  show "desc_sorted (ps (length xs) xs)"
    using ps_sorted [OF ok, of "length xs"] length_ps [OF ok, of "length xs"] by simp
qed

section \<open>An insertion sort that meets them\<close>

fun insert_desc :: "scored \<Rightarrow> scored list \<Rightarrow> scored list" where
  "insert_desc x [] = [x]"
| "insert_desc x (y # ys) = (if fst y < fst x then x # y # ys else y # insert_desc x ys)"

fun isort_desc :: "scored list \<Rightarrow> scored list" where
  "isort_desc [] = []"
| "isort_desc (x # xs) = insert_desc x (isort_desc xs)"

lemma mset_insert_desc [simp]: "mset (insert_desc x xs) = add_mset x (mset xs)"
  by (induction xs) auto

lemma mset_isort_desc [simp]: "mset (isort_desc xs) = mset xs"
  by (induction xs) auto

lemma length_isort_desc [simp]: "length (isort_desc xs) = length xs"
  by (rule mset_perm_length) simp

lemma set_isort_desc [simp]: "set (isort_desc xs) = set xs"
  by (rule mset_perm_set) simp

lemma set_insert_desc [simp]: "set (insert_desc x xs) = insert x (set xs)"
  by (induction xs) auto

lemma desc_sorted_insert:
  assumes "desc_sorted xs" and "\<forall>p\<in>set (x # xs). \<not> is_nan (fst p)"
  shows "desc_sorted (insert_desc x xs)"
  using assms
proof (induction xs)
  case (Cons y ys)
  then show ?case
    by (auto simp: desc_sorted_def less_f32_def)
qed (simp add: desc_sorted_def)

lemma desc_sorted_isort: "keys_ok xs \<Longrightarrow> desc_sorted (isort_desc xs)"
proof (induction xs)
  case (Cons x xs)
  show ?case
  proof (cases xs)
    case (Cons y ys)
    then have "\<forall>p\<in>set (x # xs). \<not> is_nan (fst p)"
      using Cons.prems by (auto simp: keys_ok_iff)
    with Cons.IH show ?thesis by (auto intro!: desc_sorted_insert)
  qed (simp add: desc_sorted_def)
qed (simp add: desc_sorted_def)

interpretation isort: partial_sorter "\<lambda>n. isort_desc"
proof
  fix xs :: "scored list" and n x y
  assume ok: "keys_ok xs"
  show "mset (isort_desc xs) = mset xs" by simp
  show "desc_sorted (take n (isort_desc xs))"
    using desc_sorted_isort [OF ok] by (simp add: desc_sorted_def sorted_wrt_take)
  assume "x \<in> set (take n (isort_desc xs))" "y \<in> set (drop n (isort_desc xs))"
  then show "\<not> fst x < fst y"
    using desc_sorted_isort [OF ok] sorted_wrt_take_drop [of _ "isort_desc xs" x n y]
    by (simp add: desc_sorted_def)
qed

text \<open>\<open>std::sort(xs.begin(), xs.end(), first descending)\<close>.\<close>

definition std_sort :: "(scored list \<Rightarrow> scored list) \<Rightarrow> scored list \<Rightarrow> scored list res" where
  "std_sort srt xs = bindR (guardR (keys_ok xs) Undefined_Behaviour) (\<lambda>_. Inr (srt xs))"

text \<open>
  \<open>std::partial_sort(xs.begin(), xs.begin() + k, xs.end(), first descending)\<close>; the middle
  iterator has to lie in the range.
\<close>

definition std_partial_sort ::
    "(nat \<Rightarrow> scored list \<Rightarrow> scored list) \<Rightarrow> int \<Rightarrow> scored list \<Rightarrow> scored list res" where
  "std_partial_sort ps k xs =
     bindR (guardR (0 \<le> k \<and> k \<le> int (length xs) \<and> keys_ok xs) Undefined_Behaviour)
       (\<lambda>_. Inr (ps (nat k) xs))"

section \<open>Priority queues\<close>

text \<open>
  \<open>operator<\<close> of \<open>std::pair<float, uint32_t>\<close>.
\<close>

definition pair_less :: "scored \<Rightarrow> scored \<Rightarrow> bool" where
  "pair_less a b = (fst a < fst b \<or> (\<not> fst b < fst a \<and> snd a < snd b))"

text \<open>
  A queue is kept as the list in which \<open>pop\<close> would return its elements: \<open>before x y\<close> says
  that \<open>x\<close> is to come out before \<open>y\<close>, and the head is \<open>top()\<close>.
\<close>

fun pq_insert :: "('a \<Rightarrow> 'a \<Rightarrow> bool) \<Rightarrow> 'a \<Rightarrow> 'a list \<Rightarrow> 'a list" where
  "pq_insert before x [] = [x]"
| "pq_insert before x (y # ys) =
     (if before x y then x # y # ys else y # pq_insert before x ys)"

definition pq_push :: "(scored \<Rightarrow> scored \<Rightarrow> bool) \<Rightarrow> scored \<Rightarrow> scored list \<Rightarrow> scored list res" where
  "pq_push before x q =
     bindR (guardR (keys_ok (x # q)) Undefined_Behaviour) (\<lambda>_. Inr (pq_insert before x q))"

text \<open>
  \<open>std::priority_queue<Pair, ..., std::greater<Pair>>\<close> returns the least pair first,
  \<open>std::priority_queue<Pair>\<close> the greatest.
\<close>

definition min_first :: "scored \<Rightarrow> scored \<Rightarrow> bool" where
  "min_first a b = pair_less a b"

definition max_first :: "scored \<Rightarrow> scored \<Rightarrow> bool" where
  "max_first a b = pair_less b a"

locale queue_order =
  fixes before :: "'a \<Rightarrow> 'a \<Rightarrow> bool" and ok :: "'a \<Rightarrow> bool"
  assumes asym: "ok x \<Longrightarrow> ok y \<Longrightarrow> before x y \<Longrightarrow> \<not> before y x"
    and neg_trans: "ok x \<Longrightarrow> ok y \<Longrightarrow> ok z \<Longrightarrow> \<not> before x y \<Longrightarrow> \<not> before y z \<Longrightarrow> \<not> before x z"
begin

text \<open>The elements come out in order: nothing later is before something earlier.\<close>

definition queued :: "'a list \<Rightarrow> bool" where
  "queued q = sorted_wrt (\<lambda>x y. \<not> before y x) q"

lemma queued_insert:
  "queued q \<Longrightarrow> \<forall>y\<in>set (x # q). ok y \<Longrightarrow> queued (pq_insert before x q)"
proof (induction q)
  case (Cons y ys)
  have set_ins: "set (pq_insert before x zs) = insert x (set zs)" for zs
    by (induction zs) auto
  show ?case
  proof (cases "before x y")
    case True
    have xy: "\<not> before y x" using asym [of x y] True Cons.prems(2) by simp
    have "\<not> before z x" if z: "z \<in> set ys" for z
    proof -
      have "\<not> before z y" using Cons.prems(1) z by (simp add: queued_def)
      then show ?thesis using neg_trans [of z y x] xy z Cons.prems(2) by simp
    qed
    then show ?thesis using Cons.prems(1) True xy by (simp add: queued_def)
  next
    case False
    then show ?thesis using Cons by (auto simp: queued_def set_ins)
  qed
qed (simp add: queued_def)

lemma queued_tl: "queued (x # q) \<Longrightarrow> queued q"
  by (simp add: queued_def)

lemma top_first: "queued (x # q) \<Longrightarrow> y \<in> set q \<Longrightarrow> \<not> before y x"
  by (simp add: queued_def)

end

lemma mset_pq_insert [simp]: "mset (pq_insert before x q) = add_mset x (mset q)"
  by (induction q) auto

lemma set_pq_insert [simp]: "set (pq_insert before x q) = insert x (set q)"
  by (induction q) auto

lemma length_pq_insert [simp]: "length (pq_insert before x q) = Suc (length q)"
  by (induction q) auto

lemma pq_insert_nonempty [simp]: "pq_insert before x q \<noteq> []"
  by (cases q) auto

lemma distinct_pq_insert:
  "distinct (map f (pq_insert before x q)) \<longleftrightarrow> f x \<notin> f ` set q \<and> distinct (map f q)"
  by (induction q) auto

interpretation minq: queue_order min_first "\<lambda>p. \<not> is_nan (fst p)"
  by unfold_locales (auto simp: min_first_def pair_less_def less_f32_def)

interpretation maxq: queue_order max_first "\<lambda>p. \<not> is_nan (fst p)"
  by unfold_locales (auto simp: max_first_def pair_less_def less_f32_def)

section \<open>The best k of a set of candidates\<close>

text \<open>
  \<open>idxs\<close> lists \<open>k\<close> of the candidates (all of them, if there are fewer), best score first,
  and no candidate left out scores higher than a listed one.
\<close>

definition is_top_k :: "(nat \<Rightarrow> f32) \<Rightarrow> nat list \<Rightarrow> nat \<Rightarrow> nat list \<Rightarrow> bool" where
  "is_top_k sc cand k idxs =
     (distinct idxs \<and> set idxs \<subseteq> set cand \<and> length idxs = min k (length cand)
      \<and> sorted_wrt (\<lambda>i j. \<not> sc i < sc j) idxs
      \<and> (\<forall>i\<in>set idxs. \<forall>j\<in>set cand - set idxs. \<not> sc i < sc j))"

text \<open>In a list sorted by descending score, the scores above the least one come first.\<close>

lemma takeWhile_desc_sorted:
  assumes "desc_sorted xs" and "keys_ok xs"
  shows "takeWhile (\<lambda>p. m < fst p) xs = filter (\<lambda>p. m < fst p) xs"
  using assms
proof (induction xs)
  case (Cons x xs)
  have IH: "takeWhile (\<lambda>p. m < fst p) xs = filter (\<lambda>p. m < fst p) xs"
    using Cons by (auto simp: desc_sorted_def keys_ok_iff)
  show ?case
  proof (cases "m < fst x")
    case False
    have "\<not> m < fst y" if "y \<in> set xs" for y
      using Cons.prems that False by (auto simp: desc_sorted_def keys_ok_iff less_f32_def)
    then show ?thesis using False by (simp add: filter_empty_conv)
  qed (simp add: IH)
qed simp

lemma takeWhile_above_minus_infinity:
  assumes "desc_sorted xs" and "keys_ok xs"
  shows "takeWhile (\<lambda>p. fst p \<noteq> - f32_infinity) xs = filter (\<lambda>p. fst p \<noteq> - f32_infinity) xs"
proof (cases "length xs \<le> 1")
  case True
  then show ?thesis by (cases xs) auto
next
  case False
  then have "\<forall>p\<in>set xs. \<not> is_nan (fst p)" using assms(2) by (auto simp: keys_ok_iff)
  then have *: "p \<in> set xs \<Longrightarrow> fst p \<noteq> - f32_infinity \<longleftrightarrow> - f32_infinity < fst p" for p
    using f32_above_minus_infinity by auto
  then have "takeWhile (\<lambda>p. fst p \<noteq> - f32_infinity) xs = takeWhile (\<lambda>p. - f32_infinity < fst p) xs"
    by (intro takeWhile_cong) auto
  also have "\<dots> = filter (\<lambda>p. - f32_infinity < fst p) xs"
    by (rule takeWhile_desc_sorted [OF assms])
  also have "\<dots> = filter (\<lambda>p. fst p \<noteq> - f32_infinity) xs"
    using * by (intro filter_cong) auto
  finally show ?thesis .
qed

lemma is_top_kI:
  assumes "distinct idxs" and "distinct cand" and "set idxs \<subseteq> set cand" and "length idxs \<le> k"
    and "sorted_wrt (\<lambda>i j. \<not> sc i < sc j) idxs"
    and left: "\<And>j. j \<in> set cand - set idxs \<Longrightarrow>
      length idxs = k \<and> (\<forall>i\<in>set idxs. \<not> sc i < sc j)"
  shows "is_top_k sc cand k idxs"
proof -
  have le: "length idxs \<le> length cand"
    using assms(1-3) by (metis card_mono distinct_card finite_set)
  have "length idxs = min k (length cand)"
  proof (cases "set cand \<subseteq> set idxs")
    case True
    then have "length idxs = length cand"
      using assms(1-3) by (metis distinct_card subset_antisym)
    then show ?thesis using assms(4) by simp
  next
    case False
    then have "length idxs = k" using left by blast
    then show ?thesis using le by simp
  qed
  then show ?thesis using assms unfolding is_top_k_def by blast
qed

text \<open>The scores of the best \<open>k\<close> are determined, whichever of equal candidates are taken.\<close>

lemma top_k_keys:
  assumes top: "is_top_k sc cand k idxs" and nn: "\<forall>i\<in>set cand. \<not> is_nan (sc i)" and "distinct cand"
  shows "map (f32_key \<circ> sc) idxs = take k (rev (sort (map (f32_key \<circ> sc) cand)))"
proof -
  let ?K = "f32_key \<circ> sc"
  let ?rest = "filter (\<lambda>i. i \<notin> set idxs) cand"
  let ?L = "map ?K idxs @ rev (sort (map ?K ?rest))"
  have idxs: "distinct idxs" "set idxs \<subseteq> set cand" "length idxs = min k (length cand)"
    and ord: "sorted_wrt (\<lambda>i j. \<not> sc i < sc j) idxs"
    and left: "\<forall>i\<in>set idxs. \<forall>j\<in>set cand - set idxs. \<not> sc i < sc j"
    using top by (simp_all add: is_top_k_def)
  have key: "\<not> sc i < sc j \<longleftrightarrow> ?K j \<le> ?K i" if "i \<in> set cand" "j \<in> set cand" for i j
    using that nn by (auto simp: less_f32_def)
  have "sorted_wrt (\<lambda>i j. ?K j \<le> ?K i) idxs"
    by (rule sorted_wrt_mono_rel [OF _ ord]) (use key idxs in blast)
  then have "sorted_wrt (\<ge>) (map ?K idxs)" by (simp add: sorted_wrt_map)
  moreover have "sorted_wrt (\<ge>) (rev (sort (map ?K ?rest)))"
    by (simp add: sorted_wrt_rev)
  moreover have "\<forall>i\<in>set idxs. \<forall>j\<in>set ?rest. ?K j \<le> ?K i"
  proof (intro ballI)
    fix i j
    assume ij: "i \<in> set idxs" "j \<in> set ?rest"
    then have "i \<in> set cand" "j \<in> set cand" "\<not> sc i < sc j" using left idxs(2) by auto
    then show "?K j \<le> ?K i" using key by blast
  qed
  ultimately have "sorted (rev ?L)"
    by (auto simp: sorted_wrt_append sorted_wrt_rev)
  moreover have "mset (rev ?L) = mset (map ?K cand)"
  proof -
    have "mset idxs + mset ?rest = mset cand"
    proof -
      have "set (idxs @ ?rest) = set cand" using idxs(2) by auto
      moreover have "distinct (idxs @ ?rest)" using idxs(1) \<open>distinct cand\<close> by auto
      ultimately have "mset (idxs @ ?rest) = mset cand" using \<open>distinct cand\<close> set_eq_iff_mset_eq_distinct by blast
      then show ?thesis by simp
    qed
    then have "mset ?rest + mset idxs = mset cand" by (simp add: add.commute)
    then show ?thesis by (simp flip: image_mset_union)
  qed
  ultimately have L: "sort (map ?K cand) = rev ?L"
    by (intro properties_for_sort) auto
  show ?thesis
  proof (cases "k \<le> length cand")
    case True
    then show ?thesis using idxs(3) by (simp add: L)
  next
    case False
    then have "length ?rest = 0" using idxs \<open>distinct cand\<close>
      by (metis (no_types, lifting) card_subset_eq distinct_card filter_False finite_set length_0_conv min_def nat_le_linear)
    then show ?thesis using False idxs(3) by (simp add: L)
  qed
qed

end
