(* ===== verification/Hnsw_Layer.thy ===== *)
theory Hnsw_Layer
  imports Distance Std_Algo
begin

text \<open>
  The state of \<open>HNSWIndex\<close> (\<open>src/include/hnsw.hpp\<close>) and the search of one layer,
  \<open>search_layer_\<close>, with \<open>select_neighbours_\<close> (\<open>src/src/hnsw.cpp\<close>).

  Vectors are read through the accessor when one is set.  The accessor belongs to another
  component and may change that component's state, so it is a function on a state of any
  type \<open>'s\<close>; the pointer it returns is what reading through it gives in the state at the
  time of the read.  The visited marks are thread-local and outlive a call: they are
  part of the context each search is given and returns.
\<close>

section \<open>State\<close>

record hnsw_config =
  cfg_M :: int
  cfg_ef_construction :: int
  cfg_ef_search :: int

type_synonym 's pointer = "'s \<Rightarrow> f32 list res"

type_synonym 's accessor = "nat \<Rightarrow> 's \<Rightarrow> ('s pointer \<times> 's) res"

record 's hnsw =
  h_dim :: nat
  h_cfg :: hnsw_config
  h_mL :: f32
  h_num_vectors :: nat
  h_max_layer :: int
  h_entry_point :: nat
  h_graph :: "nat list list list"
  h_raw_vectors :: "f32 list"
  h_id_map :: "64 word list"
  h_metadata :: "string list"
  h_tombstone :: "bool list"
  h_vec_accessor :: "'s accessor option"

text \<open>\<open>visited_buf\<close> (its size and its entries), \<open>visit_tag\<close> and the accessor's state.\<close>

record 's visit_ctx =
  vis_size :: nat
  vis_at :: "nat \<Rightarrow> 16 word"
  vis_tag :: "16 word"
  vis_env :: 's

section \<open>Reading vectors\<close>

text \<open>\<open>get_vec_\<close> is \<open>noexcept\<close>: an exception of the accessor ends the program.\<close>

definition noexcept_r :: "'a res \<Rightarrow> 'a res" where
  "noexcept_r m =
     (case m of
        Inr x \<Rightarrow> Inr x
      | Inl e \<Rightarrow> Inl (if e = Undefined_Behaviour then Undefined_Behaviour else Terminated))"

lemma noexcept_r_Inr [simp]: "noexcept_r (Inr x) = Inr x"
  by (simp add: noexcept_r_def)

lemma okR_noexcept [simp]: "okR (noexcept_r m) P = okR m P"
  by (cases m) (simp_all add: noexcept_r_def)

definition get_vec :: "'s hnsw \<Rightarrow> nat \<Rightarrow> 's \<Rightarrow> ('s pointer \<times> 's) res" where
  "get_vec h i s =
     (case h_vec_accessor h of
        Some acc \<Rightarrow> noexcept_r (acc i s)
      | None \<Rightarrow> Inr (\<lambda>_. Inr (drop (i * h_dim h) (h_raw_vectors h)), s))"

text \<open>\<open>cosine_similarity_avx2(query, get_vec_(i), dim_)\<close>.\<close>

definition similarity_to ::
    "'s hnsw \<Rightarrow> f32 list \<Rightarrow> nat \<Rightarrow> 's visit_ctx \<Rightarrow> (f32 \<times> 's visit_ctx) res" where
  "similarity_to h query i ctx =
     bindR (get_vec h i (vis_env ctx)) (\<lambda>(ptr, s).
     bindR (ptr s) (\<lambda>v.
     bindR (cosine_similarity_avx2 query v (h_dim h)) (\<lambda>sim.
     Inr (sim, ctx\<lparr>vis_env := s\<rparr>))))"

section \<open>Visited marks\<close>

text \<open>
  The start of \<open>search_layer_\<close>: grow the buffer, take the next tag, and clear the buffer
  when the 16-bit tag wraps to zero.
\<close>

definition begin_visit :: "nat \<Rightarrow> 's visit_ctx \<Rightarrow> 's visit_ctx" where
  "begin_visit nv ctx =
     (let ctx1 = (if vis_size ctx < nv
                  then ctx\<lparr>vis_size := nv + 10000,
                           vis_at := (\<lambda>i. if i < vis_size ctx then vis_at ctx i else 0)\<rparr>
                  else ctx);
          ctx2 = ctx1\<lparr>vis_tag := vis_tag ctx1 + 1\<rparr>
      in if vis_tag ctx2 = 0 then ctx2\<lparr>vis_at := (\<lambda>_. 0), vis_tag := 1\<rparr> else ctx2)"

definition is_visited :: "'s visit_ctx \<Rightarrow> nat \<Rightarrow> bool res" where
  "is_visited ctx i =
     (if i < vis_size ctx then Inr (vis_at ctx i = vis_tag ctx) else Inl Undefined_Behaviour)"

definition mark_visited :: "nat \<Rightarrow> 's visit_ctx \<Rightarrow> 's visit_ctx res" where
  "mark_visited i ctx =
     (if i < vis_size ctx then Inr (ctx\<lparr>vis_at := (vis_at ctx)(i := vis_tag ctx)\<rparr>)
      else Inl Undefined_Behaviour)"

section \<open>The beam search of one layer\<close>

text \<open>The two queues, with keys that are negated similarities, and the context.\<close>

type_synonym 's beam = "scored list \<times> scored list \<times> 's visit_ctx"

definition worst_of :: "scored list \<Rightarrow> f32" where
  "worst_of results = (if results = [] then - f32_infinity else - fst (hd results))"

text \<open>The neighbour list that is copied: empty above the node's own layers.\<close>

definition layer_links :: "'s hnsw \<Rightarrow> int \<Rightarrow> nat \<Rightarrow> nat list res" where
  "layer_links h layer c =
     bindR (nth_r (h_graph h) c) (\<lambda>levels.
       if layer < int (length levels)
       then (if 0 \<le> layer then nth_r levels (nat layer) else Inl Undefined_Behaviour)
       else Inr [])"

text \<open>The body of the loop over the neighbours.\<close>

definition visit_neighbour ::
    "'s hnsw \<Rightarrow> f32 list \<Rightarrow> int \<Rightarrow> nat \<Rightarrow> 's beam \<Rightarrow> 's beam res" where
  "visit_neighbour h query ef nb = (\<lambda>(cands, results, ctx).
     bindR (is_visited ctx nb) (\<lambda>seen.
     if seen then Inr (cands, results, ctx)
     else
       bindR (mark_visited nb ctx) (\<lambda>ctx.
       bindR (similarity_to h query nb ctx) (\<lambda>(nb_sim, ctx).
       if worst_of results < nb_sim \<or> int (length results) < ef
       then
         bindR (pq_push min_first (- nb_sim, nb) cands) (\<lambda>cands.
         bindR (pq_push max_first (- nb_sim, nb) results) (\<lambda>results.
         Inr (cands, if ef < int (length results) then tl results else results, ctx)))
       else Inr (cands, results, ctx)))))"

text \<open>What bounds the loop: every candidate is a node that was not visited before.\<close>

definition unvisited :: "'s visit_ctx \<Rightarrow> nat" where
  "unvisited ctx = card {i. i < vis_size ctx \<and> vis_at ctx i \<noteq> vis_tag ctx}"

definition beam_work :: "'s beam \<Rightarrow> nat" where
  "beam_work = (\<lambda>(cands, results, ctx). 2 * unvisited ctx + length cands)"

lemma similarity_to_ctx:
  "similarity_to h query i ctx = Inr (sim, ctx') \<Longrightarrow> \<exists>s. ctx' = ctx\<lparr>vis_env := s\<rparr>"
  by (auto simp: similarity_to_def bindR_Inr_iff split_beta)

lemma unvisited_env [simp]: "unvisited (ctx\<lparr>vis_env := s\<rparr>) = unvisited ctx"
  by (simp add: unvisited_def)

lemma unvisited_mark:
  assumes "i < vis_size ctx" and "vis_at ctx i \<noteq> vis_tag ctx"
  shows "Suc (unvisited (ctx\<lparr>vis_at := (vis_at ctx)(i := vis_tag ctx)\<rparr>)) = unvisited ctx"
proof -
  let ?U = "{k. k < vis_size ctx \<and> vis_at ctx k \<noteq> vis_tag ctx}"
  have "{k. k < vis_size ctx \<and> ((vis_at ctx)(i := vis_tag ctx)) k \<noteq> vis_tag ctx} = ?U - {i}"
    by auto
  moreover have "i \<in> ?U" "finite ?U" using assms by auto
  ultimately show ?thesis using card.remove [of ?U i] by (simp add: unvisited_def)
qed

lemma visit_neighbour_work: "postR (visit_neighbour h query ef nb b) (\<lambda>b'. beam_work b' \<le> beam_work b)"
proof -
  obtain cands results ctx where b: "b = (cands, results, ctx)" by (cases b)
  have "beam_work b' \<le> beam_work b" if run: "visit_neighbour h query ef nb b = Inr b'" for b'
  proof (cases "vis_at ctx nb = vis_tag ctx")
    case True
    then show ?thesis using run
      by (auto simp: b visit_neighbour_def is_visited_def bindR_Inr_iff split: if_splits)
  next
    case False
    let ?ctx = "ctx\<lparr>vis_at := (vis_at ctx)(nb := vis_tag ctx)\<rparr>"
    have nb: "nb < vis_size ctx" using run
      by (auto simp: b visit_neighbour_def is_visited_def bindR_Inr_iff split: if_splits)
    obtain c' r' s where "b' = (c', r', ?ctx\<lparr>vis_env := s\<rparr>)" and "length c' \<le> Suc (length cands)"
      using run False nb
      by (auto simp: b visit_neighbour_def is_visited_def mark_visited_def pq_push_def guardR_def
          bindR_Inr_iff dest!: similarity_to_ctx split: if_splits)
    then show ?thesis using unvisited_mark [OF nb False] by (simp add: beam_work_def b)
  qed
  then show ?thesis by (simp add: postR_iff)
qed

lemma visit_neighbours_work:
  "foldR (visit_neighbour h query ef) nbs b = Inr b' \<Longrightarrow> beam_work b' \<le> beam_work b"
  using postR_foldR [of "\<lambda>b'. beam_work b' \<le> beam_work b" b nbs "visit_neighbour h query ef"]
    visit_neighbour_work [of h query ef]
  by (fastforce simp: postR_iff intro: order_trans)

text \<open>The while loop; it ends when no candidate is left or the next one is too far.\<close>

function search_loop ::
    "'s hnsw \<Rightarrow> f32 list \<Rightarrow> int \<Rightarrow> int \<Rightarrow> 's beam \<Rightarrow> (scored list \<times> 's visit_ctx) res" where
  "search_loop h query ef layer b =
     (case b of
        ([], results, ctx) \<Rightarrow> Inr (results, ctx)
      | ((neg_c_sim, c) # cands, results, ctx) \<Rightarrow>
          if - neg_c_sim < worst_of results \<and> ef \<le> int (length results) then Inr (results, ctx)
          else
            bindR (layer_links h layer c) (\<lambda>nbs.
            bindR (foldR (visit_neighbour h query ef) nbs (cands, results, ctx))
              (search_loop h query ef layer)))"
  by pat_completeness auto
termination
proof (relation "measure (\<lambda>(h, query, ef, layer, b). beam_work b)", goal_cases)
  case 1
  then show ?case by simp
next
  case (2 h query ef layer b cs rc p cands neg c results ctx nbs b')
  then have "beam_work b' \<le> beam_work (cands, results, ctx)"
    by (auto dest: visit_neighbours_work)
  moreover have "b = ((neg, c) # cands, results, ctx)" using 2 by simp
  ultimately show ?case by (simp add: beam_work_def)
qed

declare search_loop.simps [simp del]

definition search_layer ::
    "(scored list \<Rightarrow> scored list) \<Rightarrow> 's hnsw \<Rightarrow> f32 list \<Rightarrow> nat \<Rightarrow> int \<Rightarrow> int \<Rightarrow> 's visit_ctx
      \<Rightarrow> (scored list \<times> 's visit_ctx) res" where
  "search_layer srt h query ep ef layer ctx =
     (let ctx = begin_visit (h_num_vectors h) ctx in
      bindR (similarity_to h query ep ctx) (\<lambda>(ep_sim, ctx).
      bindR (mark_visited ep ctx) (\<lambda>ctx.
      bindR (search_loop h query ef layer ([(- ep_sim, ep)], [(- ep_sim, ep)], ctx))
        (\<lambda>(results, ctx).
      bindR (std_sort srt (map (\<lambda>(neg, i). (- neg, i)) results)) (\<lambda>out.
      Inr (out, ctx))))))"

definition select_neighbours ::
    "(scored list \<Rightarrow> scored list) \<Rightarrow> scored list \<Rightarrow> int \<Rightarrow> nat list res" where
  "select_neighbours srt candidates M =
     bindR (std_sort srt candidates) (\<lambda>sorted. Inr (map snd (take (nat M) sorted)))"


section \<open>What the search of a layer establishes\<close>

text \<open>The links of a node at a layer, and the nodes that links lead to.\<close>

definition links_at :: "'s hnsw \<Rightarrow> int \<Rightarrow> nat \<Rightarrow> nat list" where
  "links_at h layer i =
     (if i < length (h_graph h) \<and> nat layer < length (h_graph h ! i)
      then h_graph h ! i ! nat layer else [])"

inductive reaches :: "'s hnsw \<Rightarrow> int \<Rightarrow> nat \<Rightarrow> nat \<Rightarrow> bool" for h layer ep where
  start: "reaches h layer ep ep"
| link: "reaches h layer ep i \<Longrightarrow> j \<in> set (links_at h layer i) \<Longrightarrow> reaches h layer ep j"

lemma reaches_closed:
  assumes "reaches h layer ep i" and "Q ep"
    and "\<And>i j. Q i \<Longrightarrow> j \<in> set (links_at h layer i) \<Longrightarrow> Q j"
  shows "Q i"
  using assms(1) by induction (auto intro: assms(2,3))

definition visited :: "'s visit_ctx \<Rightarrow> nat set" where
  "visited ctx = {i. i < vis_size ctx \<and> vis_at ctx i = vis_tag ctx}"

text \<open>No mark in the buffer is ahead of the tag: the next tag is fresh.\<close>

definition visit_ok :: "'s visit_ctx \<Rightarrow> bool" where
  "visit_ok ctx = (\<forall>i<vis_size ctx. vis_at ctx i \<le> vis_tag ctx)"

lemma begin_visit_props:
  assumes "visit_ok ctx"
  shows "visited (begin_visit nv ctx) = {}" and "visit_ok (begin_visit nv ctx)"
    and "nv \<le> vis_size (begin_visit nv ctx)" and "vis_env (begin_visit nv ctx) = vis_env ctx"
proof -
  obtain c where c: "c = (if vis_size ctx < nv then ctx\<lparr>vis_size := nv + 10000,
    vis_at := (\<lambda>i. if i < vis_size ctx then vis_at ctx i else 0)\<rparr> else ctx)" by blast
  have le: "vis_at c i \<le> vis_tag c" if "i < vis_size c" for i
    using assms that by (auto simp: c visit_ok_def)
  have size: "nv \<le> vis_size c" "vis_env c = vis_env ctx" by (auto simp: c)
  have fresh: "vis_at c i < vis_tag c + 1"
    if "i < vis_size c" and "vis_tag c + 1 \<noteq> 0" for i
  proof -
    have "unat (vis_tag c + 1) = Suc (unat (vis_tag c))"
      using that(2) unatSuc [of "vis_tag c"] by (simp add: add.commute)
    then show ?thesis using le [OF that(1)] by (simp add: word_less_nat_alt word_le_nat_alt)
  qed
  have b: "begin_visit nv ctx = (if vis_tag c + 1 = 0 then c\<lparr>vis_at := (\<lambda>_. 0), vis_tag := 1\<rparr>
      else c\<lparr>vis_tag := vis_tag c + 1\<rparr>)"
    by (simp add: begin_visit_def Let_def c)
  show "visited (begin_visit nv ctx) = {}"
    by (auto simp: b visited_def dest: fresh)
  show "visit_ok (begin_visit nv ctx)"
    using fresh by (auto simp: b visit_ok_def intro: order.strict_implies_order)
  show "nv \<le> vis_size (begin_visit nv ctx)" "vis_env (begin_visit nv ctx) = vis_env ctx"
    using size by (auto simp: b)
qed

end
