(* ===== verification/Hnsw_Beam.thy ===== *)
theory Hnsw_Beam
  imports Hnsw_Layer
begin

text \<open>
  What the search of one layer returns.  Vectors come from anything that meets the contract
  of the locale \<open>vector_source\<close>: the index's own buffer, or an accessor.  The judgement
  \<open>holdsR b\<close> carries both what holds whenever the search returns and, under the hypotheses
  \<open>b\<close> implies, that it returns the best of the nodes it has seen.
\<close>

section \<open>The results queue\<close>

text \<open>Everything seen and not kept scores no better than anything kept, and then the queue is full.\<close>

definition kept_best :: "(nat \<Rightarrow> f32) \<Rightarrow> int \<Rightarrow> nat set \<Rightarrow> scored list \<Rightarrow> bool" where
  "kept_best sc ef V rs \<longleftrightarrow>
     (\<forall>i\<in>V - snd ` set rs. int (length rs) = max 1 ef \<and> (\<forall>p\<in>set rs. \<not> sc (snd p) < sc i))"

lemma kept_best_ids:
  assumes "snd ` set out = snd ` set rs" and "length out = length rs"
  shows "kept_best sc ef V out = kept_best sc ef V rs"
proof -
  have all: "(\<forall>p\<in>set xs. \<not> sc (snd p) < sc i) = (\<forall>j\<in>snd ` set xs. \<not> sc j < sc i)"
    for xs :: "scored list" and i
    by simp
  show ?thesis unfolding kept_best_def all assms ..
qed

text \<open>A queue of distinct nodes, keyed by negated scores, within its bound.\<close>

definition results_ok :: "(nat \<Rightarrow> f32) \<Rightarrow> scored list \<Rightarrow> bool" where
  "results_ok sc rs \<longleftrightarrow> maxq.queued rs \<and> (\<forall>p\<in>set rs. fst p = - sc (snd p) \<and> \<not> is_nan (sc (snd p)))"

definition push_result :: "int \<Rightarrow> scored \<Rightarrow> scored list \<Rightarrow> scored list" where
  "push_result ef x rs =
     (let rs1 = pq_insert max_first x rs in if ef < int (length rs1) then tl rs1 else rs1)"

lemma push_result_cases:
  obtains w ws where "pq_insert max_first x rs = w # ws"
    and "push_result ef x rs = (if ef \<le> int (length rs) then ws else w # ws)"
    and "length ws = length rs" and "insert w (set ws) = insert x (set rs)"
proof -
  obtain w ws where ins: "pq_insert max_first x rs = w # ws"
    by (cases "pq_insert max_first x rs") auto
  have "length ws = length rs" "insert w (set ws) = insert x (set rs)"
    using arg_cong [OF ins, of length] arg_cong [OF ins, of set] by simp_all
  moreover have "push_result ef x rs = (if ef \<le> int (length rs) then ws else w # ws)"
    using calculation by (simp add: push_result_def ins)
  ultimately show ?thesis using that ins by blast
qed

lemma push_result_shape:
  assumes "rs \<noteq> []" and "int (length rs) \<le> max 1 ef" and "distinct (map snd rs)"
    and "snd x \<notin> snd ` set rs"
  shows "push_result ef x rs \<noteq> [] \<and> int (length (push_result ef x rs)) \<le> max 1 ef
    \<and> distinct (map snd (push_result ef x rs))
    \<and> set (push_result ef x rs) \<subseteq> insert x (set rs)"
proof -
  obtain w ws where ins: "pq_insert max_first x rs = w # ws"
    and push: "push_result ef x rs = (if ef \<le> int (length rs) then ws else w # ws)"
    and len: "length ws = length rs" and mem: "insert w (set ws) = insert x (set rs)"
    by (rule push_result_cases)
  have "distinct (map snd (w # ws))"
    using assms(3,4) distinct_pq_insert [of snd max_first x rs] by (simp add: ins)
  moreover have "ws \<noteq> []" using len assms(1) by auto
  ultimately show ?thesis using push len mem assms(2) by auto
qed

lemma results_ok_insert:
  "results_ok sc rs \<Longrightarrow> \<not> is_nan (sc i) \<Longrightarrow> results_ok sc (pq_insert max_first (- sc i, i) rs)"
  unfolding results_ok_def
  by (intro conjI maxq.queued_insert) (auto simp: ball_Un)

lemma results_ok_tl: "results_ok sc rs \<Longrightarrow> results_ok sc (tl rs)"
  by (cases rs) (auto simp: results_ok_def maxq.queued_def)

text \<open>The top of the queue is the worst kept score.\<close>

lemma results_top_worst:
  assumes "results_ok sc (w # rs)" and "p \<in> set rs"
  shows "\<not> sc (snd p) < sc (snd w)"
  using assms maxq.top_first [of w rs p]
  by (auto simp: results_ok_def max_first_def pair_less_def)

lemma worst_of_results:
  "results_ok sc rs \<Longrightarrow> rs \<noteq> [] \<Longrightarrow> worst_of rs = sc (snd (hd rs)) \<and> \<not> is_nan (worst_of rs)"
  by (cases rs) (auto simp: worst_of_def results_ok_def)

lemma worst_of_least:
  assumes "results_ok sc rs" and "p \<in> set rs"
  shows "\<not> sc (snd p) < worst_of rs"
proof -
  obtain w ws where rs: "rs = w # ws" using assms(2) by (cases rs) auto
  then show ?thesis
    using assms results_top_worst [of sc w ws p] worst_of_results [of sc rs] by auto
qed

lemma kept_best_push:
  assumes ok: "results_ok sc rs" and nn: "\<forall>j\<in>insert i V. \<not> is_nan (sc j)" and ne: "rs \<noteq> []"
    and len: "int (length rs) \<le> max 1 ef" and best: "kept_best sc ef V rs"
    and cond: "worst_of rs < sc i \<or> int (length rs) < ef"
  shows "kept_best sc ef (insert i V) (push_result ef (- sc i, i) rs)"
proof (cases "int (length rs) < ef")
  case True
  then have "V \<subseteq> snd ` set rs" using best by (fastforce simp: kept_best_def)
  then show ?thesis using True by (auto simp: kept_best_def push_result_def Let_def)
next
  case False
  then have full: "int (length rs) = max 1 ef"
    using len ne by (cases rs) auto
  obtain w ws where ins: "pq_insert max_first (- sc i, i) rs = w # ws"
    and push: "push_result ef (- sc i, i) rs = (if ef \<le> int (length rs) then ws else w # ws)"
    and len_ws: "length ws = length rs" and mem: "insert w (set ws) = insert (- sc i, i) (set rs)"
    by (rule push_result_cases)
  have ws: "push_result ef (- sc i, i) rs = ws" using push False by simp
  have ok_ins: "results_ok sc (w # ws)"
    using results_ok_insert [OF ok, of i] nn ins by simp
  have worst: "worst_of rs < sc i" using cond False by simp
  have hd: "worst_of rs = sc (snd (hd rs))" "hd rs \<in> set rs" "\<not> is_nan (worst_of rs)"
    using worst_of_results [OF ok ne] hd_in_set [OF ne] by blast+
  have out: "\<not> sc (snd p) < sc j" if j: "j \<in> V - snd ` set rs" and p: "p \<in> set ws" for j p
  proof -
    have not_less: "\<not> sc (snd q) < sc j" if "q \<in> set rs" for q
      using best j that by (auto simp: kept_best_def)
    have "p \<in> insert (- sc i, i) (set rs)" using p mem by blast
    then consider "p \<in> set rs" | "snd p = i" by auto
    then show ?thesis
    proof cases
      case 2
      have "\<not> worst_of rs < sc j" using not_less [OF hd(2)] hd(1) by simp
      then show ?thesis using worst 2 hd(3) nn j by (auto simp: less_f32_def)
    qed (rule not_less)
  qed
  have ids: "insert (snd w) (snd ` set ws) = insert i (snd ` set rs)"
    using arg_cong [OF mem, of "(`) snd"] by simp
  have "\<not> sc (snd p) < sc (snd w)" if "p \<in> set ws" for p
    using results_top_worst [OF ok_ins that] .
  moreover have "j \<in> V - snd ` set rs \<or> j = snd w" if "j \<in> insert i V - snd ` set ws" for j
    using that ids by blast
  ultimately show ?thesis
    using out full len_ws unfolding ws kept_best_def by metis
qed

lemma kept_best_skip:
  assumes ok: "results_ok sc rs" and nn: "\<not> is_nan (sc i)" and ne: "rs \<noteq> []"
    and len: "int (length rs) \<le> max 1 ef" and best: "kept_best sc ef V rs"
    and cond: "\<not> (worst_of rs < sc i \<or> int (length rs) < ef)"
  shows "kept_best sc ef (insert i V) rs"
proof -
  have "int (length rs) = max 1 ef" using len ne cond by (cases rs) auto
  moreover have "\<not> sc (snd p) < sc i" if "p \<in> set rs" for p
    using worst_of_least [OF ok that] worst_of_results [OF ok ne] cond nn ok that
    by (auto simp: less_f32_def results_ok_def)
  ultimately show ?thesis using best by (auto simp: kept_best_def)
qed


section \<open>Where vectors come from\<close>

text \<open>
  \<open>score_of n query v\<close> is the similarity of the query to the vector \<open>v\<close> of \<open>n\<close> floats.
\<close>

definition score_of :: "nat \<Rightarrow> f32 list \<Rightarrow> f32 list \<Rightarrow> f32" where
  "score_of n query v = (case cosine_similarity_avx2 query v n of Inl _ \<Rightarrow> 0 | Inr s \<Rightarrow> s)"

text \<open>
  A source of vectors: reading a readable vector succeeds in every good state, leaves a
  good state and yields a buffer that starts with the vector.
\<close>

locale vector_source =
  fixes readable :: "'s hnsw \<Rightarrow> nat \<Rightarrow> bool"
    and vector_at :: "'s hnsw \<Rightarrow> nat \<Rightarrow> f32 list"
    and env_ok :: "'s hnsw \<Rightarrow> 's \<Rightarrow> bool"
  assumes get: "readable h i \<Longrightarrow> env_ok h s \<Longrightarrow>
    okR (get_vec h i s) (\<lambda>(ptr, s'). env_ok h s' \<and>
      okR (ptr s') (\<lambda>v. h_dim h \<le> length v \<and> take (h_dim h) v = vector_at h i))"

text \<open>The similarity of a node.\<close>

definition node_score ::
    "('s hnsw \<Rightarrow> nat \<Rightarrow> f32 list) \<Rightarrow> 's hnsw \<Rightarrow> f32 list \<Rightarrow> nat \<Rightarrow> f32" where
  "node_score vec h query i = score_of (h_dim h) query (vec h i)"

text \<open>
  What a layer search needs to be defined: a query that is long enough, and readable nodes
  of the index with proper scores wherever links lead.
\<close>

definition searchable ::
    "('s hnsw \<Rightarrow> nat \<Rightarrow> bool) \<Rightarrow> ('s hnsw \<Rightarrow> nat \<Rightarrow> f32 list) \<Rightarrow> 's hnsw \<Rightarrow> f32 list \<Rightarrow> int
      \<Rightarrow> nat \<Rightarrow> bool" where
  "searchable readable vec h query layer ep \<longleftrightarrow>
     h_dim h \<le> length query \<and> 0 \<le> layer
     \<and> (\<forall>i. reaches h layer ep i \<longrightarrow> i < h_num_vectors h \<and> i < length (h_graph h)
          \<and> readable h i \<and> \<not> is_nan (node_score vec h query i))"

text \<open>The state of the loop: what holds in any case, and what holds on searchable layers.\<close>

definition beam_sound :: "'s hnsw \<Rightarrow> int \<Rightarrow> nat \<Rightarrow> int \<Rightarrow> 's beam \<Rightarrow> bool" where
  "beam_sound h layer ep ef = (\<lambda>(cands, results, ctx).
     (\<forall>i\<in>visited ctx. reaches h layer ep i) \<and> visit_ok ctx \<and> h_num_vectors h \<le> vis_size ctx
     \<and> ep \<in> visited ctx \<and> snd ` set cands \<subseteq> visited ctx \<and> snd ` set results \<subseteq> visited ctx
     \<and> distinct (map snd results) \<and> results \<noteq> [] \<and> int (length results) \<le> max 1 ef)"

definition beam_exact ::
    "(nat \<Rightarrow> f32) \<Rightarrow> (nat \<Rightarrow> nat list) \<Rightarrow> int \<Rightarrow> ('s \<Rightarrow> bool) \<Rightarrow> nat set \<Rightarrow> 's beam \<Rightarrow> bool" where
  "beam_exact sc links ef eok X = (\<lambda>(cands, results, ctx).
     eok (vis_env ctx) \<and> results_ok sc results \<and> kept_best sc ef (visited ctx) results
     \<and> minq.queued cands \<and> (\<forall>p\<in>set cands. fst p = - sc (snd p) \<and> \<not> is_nan (sc (snd p)))
     \<and> (\<forall>i\<in>snd ` set results. i \<in> snd ` set cands \<or> i \<in> X \<or> set (links i) \<subseteq> visited ctx))"

lemma visited_env [simp]: "visited (ctx\<lparr>vis_env := s\<rparr>) = visited ctx"
  by (simp add: visited_def)

lemma visit_ok_env [simp]: "visit_ok (ctx\<lparr>vis_env := s\<rparr>) = visit_ok ctx"
  by (simp add: visit_ok_def)

lemma visited_mark:
  "i < vis_size ctx \<Longrightarrow>
    visited (ctx\<lparr>vis_at := (vis_at ctx)(i := vis_tag ctx)\<rparr>) = insert i (visited ctx)"
  by (auto simp: visited_def)

lemma visit_ok_mark:
  "visit_ok ctx \<Longrightarrow> visit_ok (ctx\<lparr>vis_at := (vis_at ctx)(i := vis_tag ctx)\<rparr>)"
  by (auto simp: visit_ok_def)

text \<open>The neighbour list that is read is the one of the node.\<close>

lemma layer_links_at: "layer_links h layer c = Inr nbs \<Longrightarrow> nbs = links_at h layer c"
  by (auto simp: layer_links_def links_at_def nth_r_def bindR_Inr_iff split: if_splits)

lemma layer_links_defined:
  "0 \<le> layer \<Longrightarrow> c < length (h_graph h) \<Longrightarrow> layer_links h layer c = Inr (links_at h layer c)"
  by (auto simp: layer_links_def links_at_def nth_r_def)

lemma minq_insert_exact:
  assumes "minq.queued q" and "\<forall>p\<in>set q. fst p = - sc (snd p) \<and> \<not> is_nan (sc (snd p))"
    and "\<not> is_nan (sc i)"
  shows "minq.queued (pq_insert min_first (- sc i, i) q)"
  using assms by (intro minq.queued_insert) auto

text \<open>
  The specification of a layer search: sorted, with the scores of the nodes, and locally
  optimal.  \<open>V\<close> are the nodes that were scored: the entry point, every neighbour of a
  result, and nothing that links do not lead to; among them the results are the best.
\<close>

definition layer_best ::
    "(nat \<Rightarrow> f32) \<Rightarrow> 's hnsw \<Rightarrow> int \<Rightarrow> nat \<Rightarrow> int \<Rightarrow> scored list \<Rightarrow> bool" where
  "layer_best sc h layer ep ef out \<longleftrightarrow>
     desc_sorted out \<and> (\<forall>p\<in>set out. fst p = sc (snd p))
     \<and> (\<exists>V. ep \<in> V \<and> (\<forall>i\<in>V. reaches h layer ep i) \<and> snd ` set out \<subseteq> V
          \<and> (\<forall>i\<in>snd ` set out. set (links_at h layer i) \<subseteq> V) \<and> kept_best sc ef V out)"

definition layer_sound :: "'s hnsw \<Rightarrow> int \<Rightarrow> nat \<Rightarrow> int \<Rightarrow> scored list \<Rightarrow> bool" where
  "layer_sound h layer ep ef out \<longleftrightarrow>
     out \<noteq> [] \<and> int (length out) \<le> max 1 ef \<and> distinct (map snd out)
     \<and> (\<forall>i\<in>snd ` set out. reaches h layer ep i)"

text \<open>From the queue to the sorted vector.\<close>

lemma layer_sound_sorted:
  assumes "beam_sound h layer ep ef ([], results, ctx)" and "mset out = mset (map (\<lambda>(n, i). (- n, i)) results)"
  shows "layer_sound h layer ep ef out"
proof -
  have "snd ` set out = snd ` set results" "length out = length results"
    "distinct (map snd out) = distinct (map snd results)"
    using mset_perm_set [OF assms(2)] mset_perm_length [OF assms(2)]
      mset_perm_distinct_map [OF assms(2), of snd]
    by (auto simp: image_image split_beta comp_def)
  then show ?thesis using assms(1) by (auto simp: beam_sound_def layer_sound_def)
qed

lemma layer_best_sorted:
  assumes sound: "beam_sound h layer ep ef ([], results, ctx)"
    and exact: "beam_exact sc (links_at h layer) ef eok {} ([], results, ctx)"
    and perm: "mset out = mset (map (\<lambda>(n, i). (- n, i)) results)" and sorted: "desc_sorted out"
  shows "layer_best sc h layer ep ef out"
proof -
  have set: "set out = (\<lambda>(n, i). (- n, i)) ` set results" using mset_perm_set [OF perm] by simp
  then have ids: "snd ` set out = snd ` set results" by (auto simp: image_image split_beta)
  have len: "length out = length results" using mset_perm_length [OF perm] by simp
  have "\<forall>p\<in>set out. fst p = sc (snd p)"
    using exact by (auto simp: set beam_exact_def results_ok_def)
  moreover have "kept_best sc ef (visited ctx) out"
    using exact kept_best_ids [OF ids len] by (simp add: beam_exact_def)
  moreover have "\<forall>i\<in>snd ` set out. set (links_at h layer i) \<subseteq> visited ctx"
    using exact ids by (simp add: beam_exact_def)
  ultimately show ?thesis
    using sound sorted ids unfolding layer_best_def beam_sound_def by auto
qed

lemma sort_results:
  assumes srt: "desc_sorter srt" and sound: "beam_sound h layer ep ef ([], results, ctx)"
    and exact: "b \<Longrightarrow> beam_exact sc (links_at h layer) ef eok {} ([], results, ctx)"
  shows "holdsR b (std_sort srt (map (\<lambda>(neg, i). (- neg, i)) results))
    (\<lambda>out. layer_sound h layer ep ef out \<and> (b \<longrightarrow> layer_best sc h layer ep ef out))"
proof -
  let ?xs = "map (\<lambda>(neg, i). (- neg, i)) results"
  have "keys_ok ?xs" if b
    using exact [OF that] by (auto simp: beam_exact_def results_ok_def keys_ok_iff)
  moreover have "layer_sound h layer ep ef (srt ?xs) \<and> (b \<longrightarrow> layer_best sc h layer ep ef (srt ?xs))"
    if "keys_ok ?xs"
    using layer_sound_sorted [OF sound desc_sorter.srt_perm [OF srt that]]
      layer_best_sorted [OF sound exact desc_sorter.srt_perm [OF srt that]
        desc_sorter.srt_sorted [OF srt that]] by blast
  ultimately show ?thesis by (simp add: std_sort_def)
qed

context vector_source
begin

abbreviation score where
  "score \<equiv> node_score vector_at"

lemma similarity_to_score:
  assumes "b \<Longrightarrow> readable h i \<and> env_ok h (vis_env ctx) \<and> h_dim h \<le> length query"
  shows "holdsR b (similarity_to h query i ctx)
    (\<lambda>(sim, ctx'). (\<exists>s. ctx' = ctx\<lparr>vis_env := s\<rparr> \<and> (b \<longrightarrow> env_ok h s)) \<and> (b \<longrightarrow> sim = score h query i))"
proof (cases b)
  case True
  have sim: "okR (cosine_similarity_avx2 query v (h_dim h)) (\<lambda>s. s = score h query i)"
    if "h_dim h \<le> length v" "take (h_dim h) v = vector_at h i" for v
    using cosine_similarity_avx2_defined [of "h_dim h" query v] cosine_similarity_take [of "h_dim h" v query]
      assms True that
    by (auto simp: node_score_def score_of_def)
  show ?thesis
    using get [of h i "vis_env ctx"] assms True sim
    by (auto simp: similarity_to_def holdsR_total okR_iff split_beta)
next
  case False
  then show ?thesis
    by (auto simp: holdsR_partial postR_iff dest: similarity_to_ctx)
qed

text \<open>One new neighbour, its similarity known: it is kept or not.\<close>

lemma offer_neighbour:
  assumes sound: "beam_sound h layer ep ef (cands, results, ctx)"
    and exact: "b \<Longrightarrow> beam_exact sc (links_at h layer) ef eok X (cands, results, ctx)"
    and reach: "reaches h layer ep nb" and new: "nb \<notin> visited ctx"
    and ctx': "visited ctx' = insert nb (visited ctx)" "visit_ok ctx'" "vis_size ctx' = vis_size ctx"
    and sim: "b \<Longrightarrow> sim = sc nb \<and> eok (vis_env ctx')"
    and nn: "b \<Longrightarrow> \<forall>i. reaches h layer ep i \<longrightarrow> \<not> is_nan (sc i)"
  shows "holdsR b
     (if worst_of results < sim \<or> int (length results) < ef
      then
         bindR (pq_push min_first (- sim, nb) cands) (\<lambda>cands.
         bindR (pq_push max_first (- sim, nb) results) (\<lambda>results.
         Inr (cands, if ef < int (length results) then tl results else results, ctx')))
      else Inr (cands, results, ctx'))
    (\<lambda>beam. beam_sound h layer ep ef beam \<and> (b \<longrightarrow> beam_exact sc (links_at h layer) ef eok X beam)
      \<and> snd (snd beam) = ctx')"
proof -
  have res: "results \<noteq> []" "int (length results) \<le> max 1 ef" "distinct (map snd results)"
    "snd ` set results \<subseteq> visited ctx"
    using sound by (simp_all add: beam_sound_def)
  let ?pushed = "push_result ef (- sim, nb) results"
  have shape: "?pushed \<noteq> [] \<and> int (length ?pushed) \<le> max 1 ef \<and> distinct (map snd ?pushed)
      \<and> set ?pushed \<subseteq> insert (- sim, nb) (set results)"
    using res new by (intro push_result_shape) auto
  have sound_push: "beam_sound h layer ep ef (pq_insert min_first (- sim, nb) cands, ?pushed, ctx')"
    using sound shape reach ctx' by (fastforce simp: beam_sound_def)
  have sound_skip: "beam_sound h layer ep ef (cands, results, ctx')"
    using sound reach ctx' by (auto simp: beam_sound_def)
  show ?thesis
  proof (cases b)
    case False
    then show ?thesis using sound_push sound_skip ctx'(3)
      by (auto simp: holdsR_partial pq_push_def push_result_def Let_def)
  next
    case True
    note ex = exact [OF True, unfolded beam_exact_def prod.case]
    have V: "\<forall>j\<in>insert nb (visited ctx). \<not> is_nan (sc j)"
      using sound reach nn [OF True] by (auto simp: beam_sound_def)
    have cands: "\<forall>p\<in>set cands. \<not> is_nan (fst p)" and results: "\<forall>p\<in>set results. \<not> is_nan (fst p)"
      using ex by (simp_all add: results_ok_def)
    then have keys: "keys_ok ((- sim, nb) # cands)" "keys_ok ((- sim, nb) # results)"
      using V sim [OF True] by (auto simp: keys_ok_iff)
    have links: "i \<in> snd ` set (pq_insert min_first (- sim, nb) cands)
        \<or> i \<in> X \<or> set (links_at h layer i) \<subseteq> visited ctx'" if i: "i \<in> snd ` set ?pushed" for i
    proof -
      have "set ?pushed \<subseteq> insert (- sim, nb) (set results)" using shape by blast
      from image_mono [OF this, of snd] have "snd ` set ?pushed \<subseteq> insert nb (snd ` set results)"
        by (simp only: image_insert snd_conv)
      then consider "i = nb" | "i \<in> snd ` set results" using i by blast
      then show ?thesis
      proof cases
        case 2
        then have "i \<in> snd ` set cands \<or> i \<in> X \<or> set (links_at h layer i) \<subseteq> visited ctx"
          using ex by blast
        then show ?thesis by (auto simp: ctx'(1))
      qed simp
    qed
    have "beam_exact sc (links_at h layer) ef eok X (pq_insert min_first (- sim, nb) cands, ?pushed, ctx')"
      if "worst_of results < sim \<or> int (length results) < ef"
    proof -
      have "results_ok sc ?pushed"
        using results_ok_insert [of sc results nb] results_ok_tl ex V sim [OF True]
        by (simp add: push_result_def Let_def)
      moreover have "kept_best sc ef (visited ctx') ?pushed"
        using kept_best_push [of sc results nb "visited ctx" ef] ex V sim [OF True] res that
        by (simp add: ctx'(1))
      moreover have "minq.queued (pq_insert min_first (- sim, nb) cands)"
        using minq_insert_exact [of cands sc nb] ex V sim [OF True] by simp
      ultimately show ?thesis
        using ex V sim [OF True] links by (simp add: beam_exact_def)
    qed
    moreover have "beam_exact sc (links_at h layer) ef eok X (cands, results, ctx')"
      if "\<not> (worst_of results < sim \<or> int (length results) < ef)"
      using kept_best_skip [of sc results nb ef "visited ctx"] ex V sim [OF True] res that ctx'(1)
      by (auto simp: beam_exact_def)
    ultimately show ?thesis
      using True sound_push sound_skip keys
      by (auto simp: holdsR_total pq_push_def push_result_def Let_def)
  qed
qed

lemma visit_neighbour_inv:
  assumes sound: "beam_sound h layer ep ef (cands, results, ctx)"
    and exact: "b \<Longrightarrow> beam_exact (score h query) (links_at h layer) ef (env_ok h) X (cands, results, ctx)"
    and reach: "reaches h layer ep nb"
    and srch: "b \<Longrightarrow> searchable readable vector_at h query layer ep"
  shows "holdsR b (visit_neighbour h query ef nb (cands, results, ctx))
    (\<lambda>beam. beam_sound h layer ep ef beam
      \<and> (b \<longrightarrow> beam_exact (score h query) (links_at h layer) ef (env_ok h) X beam)
      \<and> visited (snd (snd beam)) = insert nb (visited ctx))"
proof (cases "nb < vis_size ctx")
  case False
  then have "\<not> b" using sound srch reach by (fastforce simp: beam_sound_def searchable_def)
  with False show ?thesis by (simp add: visit_neighbour_def is_visited_def)
next
  case size: True
  show ?thesis
  proof (cases "vis_at ctx nb = vis_tag ctx")
    case True
    then have "nb \<in> visited ctx" using size by (simp add: visited_def)
    then show ?thesis using True size sound exact
      by (auto simp: visit_neighbour_def is_visited_def)
  next
    case False
    let ?ctx = "ctx\<lparr>vis_at := (vis_at ctx)(nb := vis_tag ctx)\<rparr>"
    have new: "nb \<notin> visited ctx" using False by (simp add: visited_def)
    have ctx1: "visited (?ctx\<lparr>vis_env := s\<rparr>) = insert nb (visited ctx)" "visit_ok (?ctx\<lparr>vis_env := s\<rparr>)"
      "vis_size (?ctx\<lparr>vis_env := s\<rparr>) = vis_size ctx" for s
      using sound size visit_ok_mark [of ctx nb] by (simp_all add: visited_mark beam_sound_def)
    have sim: "holdsR b (similarity_to h query nb ?ctx)
      (\<lambda>(sim, ctx'). (\<exists>s. ctx' = ?ctx\<lparr>vis_env := s\<rparr> \<and> (b \<longrightarrow> env_ok h s))
        \<and> (b \<longrightarrow> sim = score h query nb))"
      using srch exact reach by (intro similarity_to_score) (auto simp: searchable_def beam_exact_def)
    have body: "visit_neighbour h query ef nb (cands, results, ctx) =
      bindR (similarity_to h query nb ?ctx) (\<lambda>(nb_sim, ctx).
       if worst_of results < nb_sim \<or> int (length results) < ef
       then
         bindR (pq_push min_first (- nb_sim, nb) cands) (\<lambda>cands.
         bindR (pq_push max_first (- nb_sim, nb) results) (\<lambda>results.
         Inr (cands, if ef < int (length results) then tl results else results, ctx)))
       else Inr (cands, results, ctx))"
      by (simp add: visit_neighbour_def is_visited_def mark_visited_def size False)
    show ?thesis
      unfolding body holdsR_bind
    proof (rule holdsR_mono [OF sim])
      fix r
      assume r: "case r of (sim, ctx') \<Rightarrow> (\<exists>s. ctx' = ?ctx\<lparr>vis_env := s\<rparr> \<and> (b \<longrightarrow> env_ok h s))
        \<and> (b \<longrightarrow> sim = score h query nb)"
      obtain a s where a: "r = (a, ?ctx\<lparr>vis_env := s\<rparr>)" "b \<longrightarrow> env_ok h s" "b \<longrightarrow> a = score h query nb"
        using r by (cases r) auto
      have offered: "holdsR b
         (if worst_of results < a \<or> int (length results) < ef
          then
             bindR (pq_push min_first (- a, nb) cands) (\<lambda>cands.
             bindR (pq_push max_first (- a, nb) results) (\<lambda>results.
             Inr (cands, if ef < int (length results) then tl results else results, ?ctx\<lparr>vis_env := s\<rparr>)))
          else Inr (cands, results, ?ctx\<lparr>vis_env := s\<rparr>))
        (\<lambda>beam. beam_sound h layer ep ef beam
          \<and> (b \<longrightarrow> beam_exact (score h query) (links_at h layer) ef (env_ok h) X beam)
          \<and> snd (snd beam) = ?ctx\<lparr>vis_env := s\<rparr>)"
        using a srch by (intro offer_neighbour [OF sound exact reach new ctx1]) (auto simp: searchable_def)
      show "holdsR b (case r of (nb_sim, ctx) \<Rightarrow>
           if worst_of results < nb_sim \<or> int (length results) < ef
           then
             bindR (pq_push min_first (- nb_sim, nb) cands) (\<lambda>cands.
             bindR (pq_push max_first (- nb_sim, nb) results) (\<lambda>results.
             Inr (cands, if ef < int (length results) then tl results else results, ctx)))
           else Inr (cands, results, ctx))
        (\<lambda>beam. beam_sound h layer ep ef beam
          \<and> (b \<longrightarrow> beam_exact (score h query) (links_at h layer) ef (env_ok h) X beam)
          \<and> visited (snd (snd beam)) = insert nb (visited ctx))"
        unfolding a(1) prod.case by (rule holdsR_mono [OF offered]) (metis ctx1(1))
    qed
  qed
qed

text \<open>All the neighbours of one node.\<close>

lemma beam_exact_expanded:
  assumes "beam_exact sc links ef eok {c} beam" and "set (links c) \<subseteq> visited (snd (snd beam))"
  shows "beam_exact sc links ef eok {} beam"
proof -
  obtain cands results ctx where beam: "beam = (cands, results, ctx)" by (cases beam)
  show ?thesis using assms unfolding beam beam_exact_def prod.case snd_conv by blast
qed

lemma visit_neighbours_inv:
  assumes sound: "beam_sound h layer ep ef beam"
    and exact: "b \<Longrightarrow> beam_exact (score h query) (links_at h layer) ef (env_ok h) {c} beam"
    and reach: "reaches h layer ep c" and nbs: "nbs = links_at h layer c"
    and srch: "b \<Longrightarrow> searchable readable vector_at h query layer ep"
  shows "holdsR b (foldR (visit_neighbour h query ef) nbs beam)
    (\<lambda>beam. beam_sound h layer ep ef beam
      \<and> (b \<longrightarrow> beam_exact (score h query) (links_at h layer) ef (env_ok h) {} beam))"
proof -
  let ?P = "\<lambda>ys beam. beam_sound h layer ep ef beam
      \<and> (b \<longrightarrow> beam_exact (score h query) (links_at h layer) ef (env_ok h) {c} beam)
      \<and> set ys \<subseteq> visited (snd (snd beam))"
  have "holdsR b (foldR (visit_neighbour h query ef) nbs beam) (?P nbs)"
  proof (rule holdsR_foldR_prefix)
    show "?P [] beam" using sound exact by simp
  next
    fix ys nb zs beam
    assume split: "nbs = ys @ nb # zs" and inv: "?P ys beam"
    obtain cands results ctx where beam: "beam = (cands, results, ctx)" by (cases beam)
    have "reaches h layer ep nb"
      using reaches.link [OF reach, of nb] split nbs by (metis in_set_conv_decomp)
    then have "holdsR b (visit_neighbour h query ef nb beam)
      (\<lambda>beam'. beam_sound h layer ep ef beam'
        \<and> (b \<longrightarrow> beam_exact (score h query) (links_at h layer) ef (env_ok h) {c} beam')
        \<and> visited (snd (snd beam')) = insert nb (visited ctx))"
      unfolding beam using inv srch by (intro visit_neighbour_inv) (simp_all add: beam)
    then show "holdsR b (visit_neighbour h query ef nb beam) (?P (ys @ [nb]))"
      by (rule holdsR_mono) (use inv beam in auto)
  qed
  then show ?thesis
    by (rule holdsR_mono) (auto simp: nbs intro: beam_exact_expanded)
qed

lemma pop_exact:
  assumes "beam_exact sc links ef eok {} ((neg, c) # cands, results, ctx)"
  shows "beam_exact sc links ef eok {c} (cands, results, ctx)"
  using assms minq.queued_tl [of "(neg, c)" cands] by (auto simp: beam_exact_def)

text \<open>When the best candidate is worse than the worst result, no candidate is a result.\<close>

lemma break_exact:
  assumes ex: "beam_exact sc links ef eok {} ((neg, c) # cands, results, ctx)"
    and far: "- neg < worst_of results"
  shows "beam_exact sc links ef eok {} ([], results, ctx)"
proof -
  note ex' = ex [unfolded beam_exact_def prod.case]
  have neg: "neg = - sc c" "\<not> is_nan (sc c)" using ex' by simp_all
  have "snd p \<notin> snd ` set results" if p: "p \<in> set ((neg, c) # cands)" for p
  proof
    assume "snd p \<in> snd ` set results"
    then obtain r where r: "r \<in> set results" "snd r = snd p" by auto
    then have "\<not> sc (snd p) < worst_of results"
      using worst_of_least [of sc results r] ex' by auto
    moreover have "\<not> sc c < sc (snd p)"
      using minq.top_first [of "(neg, c)" cands p] ex' p neg
      by (auto simp: min_first_def pair_less_def)
    moreover have "\<not> is_nan (worst_of results)" "\<not> is_nan (sc (snd p))"
      using worst_of_results [of sc results] ex' p length_pos_if_in_set [OF r(1)] neg by auto
    ultimately show False using far neg by (auto simp: less_f32_def)
  qed
  then have "set (links i) \<subseteq> visited ctx" if "i \<in> snd ` set results" for i
    using ex' that by (metis empty_iff image_iff)
  then show ?thesis using ex' by (simp add: beam_exact_def minq.queued_def)
qed

lemma search_loop_inv:
  assumes "beam_sound h layer ep ef beam"
    and "b \<Longrightarrow> beam_exact (score h query) (links_at h layer) ef (env_ok h) {} beam"
    and srch: "b \<Longrightarrow> searchable readable vector_at h query layer ep"
  shows "holdsR b (search_loop h query ef layer beam) (\<lambda>(results, ctx).
    beam_sound h layer ep ef ([], results, ctx)
      \<and> (b \<longrightarrow> beam_exact (score h query) (links_at h layer) ef (env_ok h) {} ([], results, ctx)))"
  using assms(1,2)
proof (induction "beam_work beam" arbitrary: beam rule: less_induct)
  case less
  obtain cs results ctx where beam: "beam = (cs, results, ctx)" by (cases beam)
  show ?case
  proof (cases cs)
    case Nil
    then show ?thesis using less.prems by (simp add: search_loop.simps [of _ _ _ _ "([], _, _)"] beam)
  next
    case (Cons p cands)
    obtain neg c where p: "p = (neg, c)" by (cases p)
    note sound = less.prems(1) [unfolded beam Cons p] and exact = less.prems(2) [unfolded beam Cons p]
    show ?thesis
    proof (cases "- neg < worst_of results \<and> ef \<le> int (length results)")
      case True
      then have "search_loop h query ef layer beam = Inr (results, ctx)"
        unfolding beam Cons p by (subst search_loop.simps) simp
      moreover have "beam_sound h layer ep ef ([], results, ctx)"
        using sound by (simp add: beam_sound_def)
      ultimately show ?thesis using break_exact [OF exact conjunct1 [OF True]] by simp
    next
      case False
      have reach: "reaches h layer ep c" using sound by (auto simp: beam_sound_def)
      have sound': "beam_sound h layer ep ef (cands, results, ctx)"
        using sound by (simp add: beam_sound_def)
      have loop: "search_loop h query ef layer beam = bindR (layer_links h layer c) (\<lambda>nbs.
          bindR (foldR (visit_neighbour h query ef) nbs (cands, results, ctx)) (search_loop h query ef layer))"
        using False unfolding beam Cons p by (subst search_loop.simps) auto
      have links: "holdsR b (layer_links h layer c) (\<lambda>nbs. nbs = links_at h layer c)"
      proof (cases b)
        case True
        then show ?thesis using srch reach by (auto simp: searchable_def layer_links_defined)
      next
        case False
        then show ?thesis by (auto simp: holdsR_partial postR_iff dest: layer_links_at)
      qed
      show ?thesis
        unfolding loop holdsR_bind
      proof (rule holdsR_mono [OF links])
        fix nbs
        assume nbs: "nbs = links_at h layer c"
        show "holdsR b (foldR (visit_neighbour h query ef) nbs (cands, results, ctx))
          (\<lambda>beam. holdsR b (search_loop h query ef layer beam) (\<lambda>(results, ctx).
            beam_sound h layer ep ef ([], results, ctx)
            \<and> (b \<longrightarrow> beam_exact (score h query) (links_at h layer) ef (env_ok h) {} ([], results, ctx))))"
        proof (rule holdsR_mono [OF visit_neighbours_inv [OF sound' pop_exact [OF exact] reach nbs srch]])
          fix beam'
          assume run: "foldR (visit_neighbour h query ef) nbs (cands, results, ctx) = Inr beam'"
            and inv: "beam_sound h layer ep ef beam'
              \<and> (b \<longrightarrow> beam_exact (score h query) (links_at h layer) ef (env_ok h) {} beam')"
          have "beam_work beam' < beam_work beam"
            using visit_neighbours_work [OF run] by (simp add: beam_work_def beam Cons)
          from less.hyps [OF this] inv
          show "holdsR b (search_loop h query ef layer beam') (\<lambda>(results, ctx).
            beam_sound h layer ep ef ([], results, ctx)
            \<and> (b \<longrightarrow> beam_exact (score h query) (links_at h layer) ef (env_ok h) {} ([], results, ctx)))"
            by blast
        qed
      qed
    qed
  qed
qed

lemma search_layer_inv:
  assumes srt: "desc_sorter srt" and ctx: "visit_ok ctx"
    and env: "b \<Longrightarrow> env_ok h (vis_env ctx)"
    and srch: "b \<Longrightarrow> searchable readable vector_at h query layer ep"
  shows "holdsR b (search_layer srt h query ep ef layer ctx) (\<lambda>(out, ctx').
    visit_ok ctx' \<and> layer_sound h layer ep ef out
      \<and> (b \<longrightarrow> env_ok h (vis_env ctx') \<and> layer_best (score h query) h layer ep ef out))"
proof -
  let ?nv = "h_num_vectors h" and ?c0 = "begin_visit (h_num_vectors h) ctx"
  note c0 = begin_visit_props [OF ctx, of ?nv]
  have start: "reaches h layer ep ep" by (rule reaches.start)
  have ep: "b \<Longrightarrow> ep < ?nv \<and> readable h ep \<and> h_dim h \<le> length query \<and> \<not> is_nan (score h query ep)"
    using srch start by (simp add: searchable_def)
  have sim: "holdsR b (similarity_to h query ep ?c0) (\<lambda>(sim, ctx').
      (\<exists>s. ctx' = ?c0\<lparr>vis_env := s\<rparr> \<and> (b \<longrightarrow> env_ok h s)) \<and> (b \<longrightarrow> sim = score h query ep))"
    using ep env c0(4) by (intro similarity_to_score) simp
  have rest: "holdsR b (bindR (mark_visited ep ctx1) (\<lambda>ctx.
      bindR (search_loop h query ef layer ([(- sim, ep)], [(- sim, ep)], ctx))
        (\<lambda>(results, ctx).
      bindR (std_sort srt (map (\<lambda>(neg, i). (- neg, i)) results)) (\<lambda>out. Inr (out, ctx)))))
    (\<lambda>(out, ctx'). visit_ok ctx' \<and> layer_sound h layer ep ef out
      \<and> (b \<longrightarrow> env_ok h (vis_env ctx') \<and> layer_best (score h query) h layer ep ef out))"
    if ctx1: "ctx1 = ?c0\<lparr>vis_env := s\<rparr>" and s: "b \<longrightarrow> env_ok h s" and simv: "b \<longrightarrow> sim = score h query ep"
    for sim ctx1 s
  proof (cases "ep < vis_size ctx1")
    case False
    then have "\<not> b" using ep c0(3) ctx1 by auto
    with False show ?thesis by (simp add: mark_visited_def)
  next
    case True
    let ?c = "ctx1\<lparr>vis_at := (vis_at ctx1)(ep := vis_tag ctx1)\<rparr>"
    have V: "visited ?c = {ep}" and ok: "visit_ok ?c" and size: "?nv \<le> vis_size ?c" and "vis_env ?c = s"
      using c0 True visited_mark [OF True] visit_ok_mark [of ctx1 ep] by (simp_all add: ctx1)
    have "beam_sound h layer ep ef ([(- sim, ep)], [(- sim, ep)], ?c)"
      using V ok size start by (simp add: beam_sound_def)
    moreover have "beam_exact (score h query) (links_at h layer) ef (env_ok h) {}
        ([(- sim, ep)], [(- sim, ep)], ?c)" if b
      using V s simv ep \<open>vis_env ?c = s\<close> that
      by (auto simp: beam_exact_def results_ok_def kept_best_def minq.queued_def maxq.queued_def)
    ultimately have loop: "holdsR b (search_loop h query ef layer ([(- sim, ep)], [(- sim, ep)], ?c))
      (\<lambda>(results, ctx). beam_sound h layer ep ef ([], results, ctx)
        \<and> (b \<longrightarrow> beam_exact (score h query) (links_at h layer) ef (env_ok h) {} ([], results, ctx)))"
      using srch by (rule search_loop_inv)
    have mark: "mark_visited ep ctx1 = Inr ?c" using True by (simp add: mark_visited_def)
    show ?thesis
      unfolding mark bindR_simps holdsR_bind
    proof (rule holdsR_mono [OF loop])
      fix r
      assume r: "case r of (results, ctx) \<Rightarrow> beam_sound h layer ep ef ([], results, ctx)
        \<and> (b \<longrightarrow> beam_exact (score h query) (links_at h layer) ef (env_ok h) {} ([], results, ctx))"
      obtain results ctx2 where r2: "r = (results, ctx2)" by (cases r)
      have "b \<Longrightarrow> env_ok h (vis_env ctx2)" "visit_ok ctx2"
        using r r2 by (simp_all add: beam_exact_def beam_sound_def)
      then show "holdsR b (case r of (results, ctx) \<Rightarrow>
          bindR (std_sort srt (map (\<lambda>(neg, i). (- neg, i)) results)) (\<lambda>out. Inr (out, ctx)))
        (\<lambda>(out, ctx'). visit_ok ctx' \<and> layer_sound h layer ep ef out
          \<and> (b \<longrightarrow> env_ok h (vis_env ctx') \<and> layer_best (score h query) h layer ep ef out))"
        using sort_results [OF srt, of h layer ep ef results ctx2 b "score h query" "env_ok h"] r
        unfolding r2 prod.case holdsR_bind holdsR_simps by (auto elim!: holdsR_mono)
    qed
  qed
  show ?thesis
    unfolding search_layer_def Let_def holdsR_bind
    by (rule holdsR_mono [OF sim]) (use rest in \<open>auto simp: split_beta\<close>)
qed

end


section \<open>The index's own vectors\<close>

definition own_readable :: "'s hnsw \<Rightarrow> nat \<Rightarrow> bool" where
  "own_readable h i \<longleftrightarrow> h_vec_accessor h = None \<and> i * h_dim h + h_dim h \<le> length (h_raw_vectors h)"

definition own_vector :: "'s hnsw \<Rightarrow> nat \<Rightarrow> f32 list" where
  "own_vector h i = take (h_dim h) (drop (i * h_dim h) (h_raw_vectors h))"

interpretation own: vector_source own_readable own_vector "\<lambda>_ _. True"
  by unfold_locales (auto simp: get_vec_def own_readable_def own_vector_def)

lemma own_regraph [simp]:
  "own_readable (h\<lparr>h_graph := g\<rparr>) i = own_readable h i"
  "own_vector (h\<lparr>h_graph := g\<rparr>) i = own_vector h i"
  "node_score own_vector (h\<lparr>h_graph := g\<rparr>) = node_score own_vector h"
  by (simp_all add: own_readable_def own_vector_def node_score_def fun_eq_iff)

lemma own_buffer: "own_readable h i \<Longrightarrow> h_dim h \<le> length (drop (i * h_dim h) (h_raw_vectors h))"
  by (auto simp: own_readable_def)

lemma length_own_vector: "own_readable h i \<Longrightarrow> length (own_vector h i) = h_dim h"
  unfolding own_vector_def length_take using own_buffer [of h i] by (rule min.absorb2)

lemma score_of_sym: "score_of n u v = score_of n v u"
  unfolding score_of_def cosine_similarity_avx2_sym [of u v n] ..

text \<open>Only the first \<open>n\<close> floats of either buffer count.\<close>

lemma score_of_take2: "n \<le> length v \<Longrightarrow> score_of n u (take n v) = score_of n u v"
  by (simp add: score_of_def cosine_similarity_take)

lemma score_of_take1: "n \<le> length u \<Longrightarrow> score_of n (take n u) v = score_of n u v"
  using score_of_take2 [of n u v] by (simp only: score_of_sym [of n v])

lemma cosine_score:
  "n \<le> length u \<Longrightarrow> n \<le> length v \<Longrightarrow> cosine_similarity_avx2 u v n = Inr (score_of n u v)"
  using cosine_similarity_avx2_defined [of n u v] by (auto simp: score_of_def)

section \<open>Searches that see everything\<close>

text \<open>When all the nodes that links lead to fit the beam, the search returns all of them.\<close>

lemma layer_exhaustive:
  assumes sound: "layer_sound h layer ep ef out" and best: "layer_best sc h layer ep ef out"
    and fin: "finite {i. reaches h layer ep i}" and ef: "int (card {i. reaches h layer ep i}) \<le> max 1 ef"
  shows "snd ` set out = {i. reaches h layer ep i}"
proof -
  let ?R = "{i. reaches h layer ep i}" and ?O = "snd ` set out"
  obtain V where V: "ep \<in> V" "?O \<subseteq> V" "kept_best sc ef V out"
      "\<forall>i\<in>?O. set (links_at h layer i) \<subseteq> V"
    using best unfolding layer_best_def by blast
  have sub: "?O \<subseteq> ?R" using sound by (auto simp: layer_sound_def)
  have card: "card ?O = length out"
    using sound by (metis distinct_card layer_sound_def length_map set_map)
  show ?thesis
  proof (cases "V \<subseteq> ?O")
    case True
    have "i \<in> ?O" if "reaches h layer ep i" for i
      using that by (rule reaches_closed) (use V True in blast)+
    then show ?thesis using sub by blast
  next
    case False
    then have "int (length out) = max 1 ef" using V(3) by (auto simp: kept_best_def)
    then show ?thesis using card_subset_eq [OF fin sub] card_mono [OF fin sub] card ef by linarith
  qed
qed

end
