(* ===== verification/Slot_Index.thy ===== *)
theory Slot_Index
  imports Prelude
begin

text \<open>
  What \<open>FlatIndex\<close> and \<open>HNSWIndex\<close> have in common: both keep one slot per insertion, with
  the external id and a deletion mark, and both delete by marking the first slot that has
  the id.  The interface is the locale \<open>slot_index\<close>; both indexes interpret it.
\<close>

section \<open>Slots\<close>

type_synonym slot = "64 word \<times> bool"

fun mark_slot :: "64 word \<Rightarrow> slot list \<Rightarrow> slot list" where
  "mark_slot i [] = []"
| "mark_slot i ((j, d) # ss) = (if j = i then (j, True) # ss else (j, d) # mark_slot i ss)"

definition live_ids :: "slot list \<Rightarrow> 64 word list" where
  "live_ids ss = map fst (filter (\<lambda>s. \<not> snd s) ss)"

lemma live_ids_simps [simp]:
  "live_ids [] = []"
  "live_ids ((j, d) # ss) = (if d then live_ids ss else j # live_ids ss)"
  "live_ids (ss @ ts) = live_ids ss @ live_ids ts"
  by (simp_all add: live_ids_def)

lemma ids_mark_slot [simp]: "map fst (mark_slot i ss) = map fst ss"
  by (induction i ss rule: mark_slot.induct) auto

lemma length_mark_slot [simp]: "length (mark_slot i ss) = length ss"
  by (induction i ss rule: mark_slot.induct) auto

lemma mark_slot_idem [simp]: "mark_slot i (mark_slot i ss) = mark_slot i ss"
  by (induction i ss rule: mark_slot.induct) auto

lemma mark_slot_absent: "i \<notin> fst ` set ss \<Longrightarrow> mark_slot i ss = ss"
  by (induction i ss rule: mark_slot.induct) auto

lemma mark_slot_append:
  "mark_slot i (ss @ ts) = (if i \<in> fst ` set ss then mark_slot i ss @ ts else ss @ mark_slot i ts)"
  by (induction i ss rule: mark_slot.induct) auto

lemma live_ids_subset: "set (live_ids ss) \<subseteq> fst ` set ss"
  by (auto simp: live_ids_def)

lemma live_ids_mark_other: "j \<noteq> i \<Longrightarrow> j \<in> set (live_ids (mark_slot i ss)) \<longleftrightarrow> j \<in> set (live_ids ss)"
  by (induction i ss rule: mark_slot.induct) auto

lemma live_ids_mark_distinct:
  "distinct (map fst ss) \<Longrightarrow> live_ids (mark_slot i ss) = filter (\<lambda>j. j \<noteq> i) (live_ids ss)"
proof (induction i ss rule: mark_slot.induct)
  case (2 i j d ss)
  have "filter (\<lambda>k. k \<noteq> j) (live_ids ss) = live_ids ss" if "j \<notin> fst ` set ss"
    using that live_ids_subset [of ss] by (auto simp: filter_id_conv)
  with 2 show ?case by auto
qed simp

lemma count_live_mark:
  "length (live_ids (mark_slot i ss)) \<le> length (live_ids ss)
    \<and> length (live_ids ss) \<le> Suc (length (live_ids (mark_slot i ss)))"
  by (induction i ss rule: mark_slot.induct) auto

section \<open>The interface\<close>

text \<open>
  \<open>inserts h i h'\<close>: inserting some vector under the id \<open>i\<close> into \<open>h\<close> can give \<open>h'\<close>;
  \<open>deletes h i h'\<close>: deleting the id \<open>i\<close> from \<open>h\<close> gives \<open>h'\<close>.
\<close>

locale slot_index =
  fixes slots :: "'h \<Rightarrow> slot list"
    and inserts :: "'h \<Rightarrow> 64 word \<Rightarrow> 'h \<Rightarrow> bool"
    and deletes :: "'h \<Rightarrow> 64 word \<Rightarrow> 'h \<Rightarrow> bool"
  assumes slots_insert: "inserts h i h' \<Longrightarrow> slots h' = slots h @ [(i, False)]"
    and slots_delete: "deletes h i h' \<Longrightarrow> slots h' = mark_slot i (slots h)"
begin

lemma insert_live: "inserts h i h' \<Longrightarrow> live_ids (slots h') = live_ids (slots h) @ [i]"
  by (simp add: slots_insert)

lemma delete_removes:
  "deletes h i h' \<Longrightarrow> distinct (map fst (slots h)) \<Longrightarrow>
    live_ids (slots h') = filter (\<lambda>j. j \<noteq> i) (live_ids (slots h))"
  by (simp add: slots_delete live_ids_mark_distinct)

lemma delete_twice: "deletes h i h' \<Longrightarrow> deletes h' i h'' \<Longrightarrow> slots h'' = slots h'"
  by (simp add: slots_delete)

lemma delete_absent: "deletes h i h' \<Longrightarrow> i \<notin> fst ` set (slots h) \<Longrightarrow> slots h' = slots h"
  by (simp add: slots_delete mark_slot_absent)

lemma delete_others:
  "deletes h i h' \<Longrightarrow> j \<noteq> i \<Longrightarrow> j \<in> set (live_ids (slots h')) \<longleftrightarrow> j \<in> set (live_ids (slots h))"
  by (simp add: slots_delete live_ids_mark_other)

lemma ids_kept:
  "deletes h i h' \<Longrightarrow> map fst (slots h') = map fst (slots h)"
  by (simp add: slots_delete)

text \<open>
  An id that is inserted a second time can no longer be deleted: the mark goes to its
  first slot.
\<close>

lemma delete_reinserted:
  assumes "i \<in> fst ` set (slots h)" and "inserts h i h'" and "deletes h' i h''"
  shows "i \<in> set (live_ids (slots h''))"
  using assms by (simp add: slots_delete slots_insert mark_slot_append)

end

end
