(* ===== verification/Hnsw.thy ===== *)
theory Hnsw
  imports Hnsw_Beam Slot_Index
begin

text \<open>
  The operations of \<open>HNSWIndex\<close> (\<open>src/src/hnsw.cpp\<close>): construction, insertion with its
  links in both directions and the pruning of full neighbours, deletion by tombstones, and
  the search from the entry point down to layer 0.  The draw of the random generator and
  \<open>std::log\<close> on floats, whose result the standard leaves to the library, are arguments.
  Internal ids are \<open>uint32_t\<close> values kept as naturals.
\<close>

section \<open>Construction and insertion\<close>

definition hnsw_new :: "(f32 \<Rightarrow> f32) \<Rightarrow> nat \<Rightarrow> hnsw_config \<Rightarrow> 's hnsw" where
  "hnsw_new logf n cfg =
     \<lparr>h_dim = n, h_cfg = cfg, h_mL = f32_div f32_one (logf (f32_of_int (cfg_M cfg))),
      h_num_vectors = 0, h_max_layer = 0, h_entry_point = 0, h_graph = [], h_raw_vectors = [],
      h_id_map = [], h_metadata = [], h_tombstone = [], h_vec_accessor = None\<rparr>"

text \<open>The float nearest to \<open>1e-12\<close>.\<close>

definition f32_1e_12 :: f32 where
  "f32_1e_12 = F32 0x2B8CBCCC"

definition random_layer :: "(f32 \<Rightarrow> f32) \<Rightarrow> f32 \<Rightarrow> f32 \<Rightarrow> int res" where
  "random_layer logf val mL =
     (let val = (if val < f32_1e_12 then f32_1e_12 else val)
      in f32_to_int (f32_mul (- logf val) mL))"

text \<open>The arithmetic of \<open>int\<close>: overflow is undefined.\<close>

definition int_r :: "int \<Rightarrow> int res" where
  "int_r n = (if - (2 ^ 31) \<le> n \<and> n < 2 ^ 31 then Inr n else Inl Undefined_Behaviour)"

text \<open>\<open>Mmax\<close>, the bound on the links of a node on a layer.\<close>

definition max_links :: "hnsw_config \<Rightarrow> int \<Rightarrow> int res" where
  "max_links cfg lc = (if lc = 0 then int_r (cfg_M cfg * 2) else Inr (cfg_M cfg))"

text \<open>One layer of the descent: follow the best node found, if any.\<close>

definition descend ::
    "(scored list \<Rightarrow> scored list) \<Rightarrow> 's hnsw \<Rightarrow> f32 list \<Rightarrow> int \<Rightarrow> nat \<times> 's visit_ctx
      \<Rightarrow> (nat \<times> 's visit_ctx) res" where
  "descend srt h query lc = (\<lambda>(ep, ctx).
     bindR (search_layer srt h query ep 1 lc ctx) (\<lambda>(candidates, ctx).
     Inr (if candidates = [] then ep else snd (hd candidates), ctx)))"

definition set_links :: "nat \<Rightarrow> int \<Rightarrow> nat list \<Rightarrow> 's hnsw \<Rightarrow> 's hnsw res" where
  "set_links q lc nbs h =
     bindR (nth_r (h_graph h) q) (\<lambda>levels.
     bindR (upd_r levels (nat lc) nbs) (\<lambda>levels.
     Inr (h\<lparr>h_graph := (h_graph h)[q := levels]\<rparr>)))"

text \<open>One link of a full neighbour, with its similarity to the neighbour.\<close>

definition score_link ::
    "'s hnsw \<Rightarrow> 's pointer \<Rightarrow> nat \<Rightarrow> scored list \<times> 's \<Rightarrow> (scored list \<times> 's) res" where
  "score_link h nb_vec x = (\<lambda>(cands, s).
     bindR (get_vec h x s) (\<lambda>(x_vec, s).
     bindR (nb_vec s) (\<lambda>a.
     bindR (x_vec s) (\<lambda>b.
     bindR (cosine_similarity_avx2 a b (h_dim h)) (\<lambda>sim.
     Inr (cands @ [(sim, x)], s))))))"

text \<open>The link back from a neighbour, whose list is pruned when it is too long.\<close>

definition link_back ::
    "(scored list \<Rightarrow> scored list) \<Rightarrow> nat \<Rightarrow> int \<Rightarrow> nat \<Rightarrow> 's hnsw \<times> 's visit_ctx
      \<Rightarrow> ('s hnsw \<times> 's visit_ctx) res" where
  "link_back srt q lc nb = (\<lambda>(h, ctx).
     bindR (nth_r (h_graph h) nb) (\<lambda>levels.
     let levels = (if int (length levels) \<le> lc then resize [] (nat (lc + 1)) levels else levels);
         links = levels ! nat lc @ [q] in
     bindR (max_links (h_cfg h) lc) (\<lambda>Mmax.
     if Mmax < int (length links)
     then
       bindR (get_vec h nb (vis_env ctx)) (\<lambda>(nb_vec, s).
       bindR (foldR (score_link h nb_vec) links ([], s)) (\<lambda>(cands, s).
       bindR (select_neighbours srt cands Mmax) (\<lambda>links.
       Inr (h\<lparr>h_graph := (h_graph h)[nb := levels[nat lc := links]]\<rparr>, ctx\<lparr>vis_env := s\<rparr>))))
     else Inr (h\<lparr>h_graph := (h_graph h)[nb := levels[nat lc := links]]\<rparr>, ctx))))"

text \<open>One layer of the insertion.\<close>

definition connect_layer ::
    "(scored list \<Rightarrow> scored list) \<Rightarrow> f32 list \<Rightarrow> nat \<Rightarrow> int \<Rightarrow> 's hnsw \<times> nat \<times> 's visit_ctx
      \<Rightarrow> ('s hnsw \<times> nat \<times> 's visit_ctx) res" where
  "connect_layer srt vec q lc = (\<lambda>(h, ep, ctx).
     let ef_c = max (cfg_ef_construction (h_cfg h)) (cfg_M (h_cfg h)) in
     bindR (search_layer srt h vec ep ef_c lc ctx) (\<lambda>(candidates, ctx).
     bindR (select_neighbours srt candidates (cfg_M (h_cfg h))) (\<lambda>neighbours.
     bindR (set_links q lc neighbours h) (\<lambda>h.
     bindR (foldR (link_back srt q lc) neighbours (h, ctx)) (\<lambda>(h, ctx).
     Inr (h, if candidates = [] then ep else snd (hd candidates), ctx))))))"

text \<open>The first locked section: the slot of the new vector.\<close>

definition new_slot :: "64 word \<Rightarrow> f32 list \<Rightarrow> string \<Rightarrow> int \<Rightarrow> 's hnsw \<Rightarrow> 's hnsw res" where
  "new_slot i vec meta level h =
     bindR (slice_r vec 0 (h_dim h)) (\<lambda>v.
     bindR (guardR (0 \<le> level + 1) Length_Error) (\<lambda>_.
     Inr (h\<lparr>h_num_vectors := h_num_vectors h + 1,
            h_raw_vectors := h_raw_vectors h @ v,
            h_id_map := h_id_map h @ [i],
            h_metadata := h_metadata h @ [meta],
            h_tombstone := h_tombstone h @ [False],
            h_graph := h_graph h @ [replicate (nat (level + 1)) []]\<rparr>)))"

definition hnsw_insert ::
    "(scored list \<Rightarrow> scored list) \<Rightarrow> (f32 \<Rightarrow> f32) \<Rightarrow> f32 \<Rightarrow> 64 word \<Rightarrow> f32 list \<Rightarrow> string
      \<Rightarrow> 's hnsw \<times> 's visit_ctx \<Rightarrow> ('s hnsw \<times> 's visit_ctx) res" where
  "hnsw_insert srt logf val i vec meta = (\<lambda>(h, ctx).
     bindR (random_layer logf val (h_mL h)) (\<lambda>level.
     let q = h_num_vectors h mod 2 ^ 32 in
     bindR (new_slot i vec meta level h) (\<lambda>h.
     if q = 0 then Inr (h\<lparr>h_max_layer := level, h_entry_point := 0\<rparr>, ctx)
     else
       let cur_max_layer = h_max_layer h in
       bindR (foldR (descend srt h vec) (rev [level + 1..cur_max_layer]) (h_entry_point h, ctx))
         (\<lambda>(ep, ctx).
       bindR (foldR (connect_layer srt vec q) (rev [0..min level cur_max_layer]) (h, ep, ctx))
         (\<lambda>(h, ep, ctx).
       Inr (if h_max_layer h < level then h\<lparr>h_max_layer := level, h_entry_point := q\<rparr> else h,
            ctx))))))"

definition hnsw_insert_vec ::
    "(scored list \<Rightarrow> scored list) \<Rightarrow> (f32 \<Rightarrow> f32) \<Rightarrow> f32 \<Rightarrow> 64 word \<Rightarrow> f32 list \<Rightarrow> string
      \<Rightarrow> 's hnsw \<times> 's visit_ctx \<Rightarrow> ('s hnsw \<times> 's visit_ctx) res" where
  "hnsw_insert_vec srt logf val i vec meta = (\<lambda>(h, ctx).
     bindR (guardR (length vec = h_dim h) (Invalid_Argument ''dimension mismatch'')) (\<lambda>_.
     hnsw_insert srt logf val i vec meta (h, ctx)))"

section \<open>Deletion and sizes\<close>

definition hnsw_delete :: "64 word \<Rightarrow> 's hnsw \<Rightarrow> 's hnsw res" where
  "hnsw_delete x h =
     bindR (find_first (\<lambda>j. j = x) (h_id_map h) (h_num_vectors h)) (\<lambda>r.
     case r of
       None \<Rightarrow> Inr h
     | Some i \<Rightarrow> bindR (upd_r (h_tombstone h) i True) (\<lambda>t. Inr (h\<lparr>h_tombstone := t\<rparr>)))"

definition hnsw_is_deleted :: "'s hnsw \<Rightarrow> 64 word \<Rightarrow> bool res" where
  "hnsw_is_deleted h x =
     bindR (find_first (\<lambda>j. j = x) (h_id_map h) (h_num_vectors h)) (\<lambda>r.
     case r of None \<Rightarrow> Inr False | Some i \<Rightarrow> nth_r (h_tombstone h) i)"

definition hnsw_size :: "'s hnsw \<Rightarrow> nat" where
  "hnsw_size h = h_num_vectors h"

definition hnsw_live_size :: "'s hnsw \<Rightarrow> nat" where
  "hnsw_live_size h = length (filter (\<lambda>t. \<not> t) (h_tombstone h))"

definition set_ef_search :: "int \<Rightarrow> 's hnsw \<Rightarrow> 's hnsw" where
  "set_ef_search ef h = h\<lparr>h_cfg := (h_cfg h)\<lparr>cfg_ef_search := ef\<rparr>\<rparr>"

definition set_vector_accessor :: "'s accessor option \<Rightarrow> 's hnsw \<Rightarrow> 's hnsw" where
  "set_vector_accessor acc h = h\<lparr>h_vec_accessor := acc\<rparr>"

section \<open>Search\<close>

text \<open>The loop that keeps the live candidates until it has exactly \<open>k\<close>.\<close>

fun collect_live ::
    "'s hnsw \<Rightarrow> int \<Rightarrow> scored list \<Rightarrow> (f32 \<times> 64 word) list \<Rightarrow> (f32 \<times> 64 word) list res" where
  "collect_live h k [] out = Inr out"
| "collect_live h k ((sim, i) # cands) out =
     bindR (nth_r (h_tombstone h) i) (\<lambda>dead.
     if dead then collect_live h k cands out
     else
       bindR (nth_r (h_id_map h) i) (\<lambda>x.
       let out = out @ [(sim, x)] in
       if int (length out) = k then Inr out else collect_live h k cands out))"

text \<open>Where a search starts: at the entry point or, if it is deleted, at the first live node.\<close>

definition search_entry :: "'s hnsw \<Rightarrow> nat option res" where
  "search_entry h =
     bindR (nth_r (h_tombstone h) (h_entry_point h)) (\<lambda>dead.
     if dead then find_first (\<lambda>t. \<not> t) (h_tombstone h) (h_num_vectors h mod 2 ^ 32)
     else Inr (Some (h_entry_point h)))"

definition hnsw_search ::
    "(scored list \<Rightarrow> scored list) \<Rightarrow> 's hnsw \<Rightarrow> f32 list \<Rightarrow> int \<Rightarrow> 's visit_ctx
      \<Rightarrow> ((f32 \<times> 64 word) list \<times> 's visit_ctx) res" where
  "hnsw_search srt h query k ctx =
     (if h_num_vectors h = 0 then Inr ([], ctx)
      else
        bindR (search_entry h) (\<lambda>entry.
        case entry of
          None \<Rightarrow> Inr ([], ctx)
        | Some ep \<Rightarrow>
            bindR (foldR (descend srt h query) (rev [1..h_max_layer h]) (ep, ctx)) (\<lambda>(ep, ctx).
            bindR (search_layer srt h query ep (cfg_ef_search (h_cfg h)) 0 ctx)
              (\<lambda>(candidates, ctx).
            bindR (collect_live h k candidates []) (\<lambda>out.
            Inr (out, ctx))))))"

definition hnsw_search_vec ::
    "(scored list \<Rightarrow> scored list) \<Rightarrow> 's hnsw \<Rightarrow> f32 list \<Rightarrow> int \<Rightarrow> 's visit_ctx
      \<Rightarrow> ((f32 \<times> 64 word) list \<times> 's visit_ctx) res" where
  "hnsw_search_vec srt h query k ctx =
     bindR (guardR (length query = h_dim h) (Invalid_Argument ''dimension mismatch'')) (\<lambda>_.
     hnsw_search srt h query k ctx)"

end
