(* ===== verification/Hnsw_Insert.thy ===== *)
theory Hnsw_Insert
  imports Hnsw
begin

text \<open>
  The invariant of the index and its preservation by insertion: the arrays have one entry
  per vector, the entry point is a node of the highest layer, and every link leads to another
  node of the same layer, without duplicates and within the degree bounds.
\<close>

section \<open>Well-formed graphs\<close>

definition degree_bound :: "int \<Rightarrow> nat \<Rightarrow> int" where
  "degree_bound M l = (if l = 0 then 2 * M else M)"

definition graph_wf :: "int \<Rightarrow> nat list list list \<Rightarrow> bool" where
  "graph_wf M g \<longleftrightarrow>
     (\<forall>i<length g. \<forall>l<length (g ! i).
        distinct (g ! i ! l) \<and> int (length (g ! i ! l)) \<le> degree_bound M l
        \<and> (\<forall>j\<in>set (g ! i ! l). j < length g \<and> l < length (g ! j) \<and> j \<noteq> i))"

lemma graph_wfI:
  assumes "\<And>i l. i < length g \<Longrightarrow> l < length (g ! i) \<Longrightarrow>
    distinct (g ! i ! l) \<and> int (length (g ! i ! l)) \<le> degree_bound M l
    \<and> (\<forall>j\<in>set (g ! i ! l). j < length g \<and> l < length (g ! j) \<and> j \<noteq> i)"
  shows "graph_wf M g"
  using assms unfolding graph_wf_def by blast

lemma graph_wfD:
  assumes "graph_wf M g" and "i < length g" and "l < length (g ! i)"
  shows "distinct (g ! i ! l)" and "int (length (g ! i ! l)) \<le> degree_bound M l"
    and "j \<in> set (g ! i ! l) \<Longrightarrow> j < length g \<and> l < length (g ! j) \<and> j \<noteq> i"
  using assms unfolding graph_wf_def by blast+

definition shape :: "nat list list list \<Rightarrow> nat list" where
  "shape g = map length g"

lemma shape_length: "shape g = shape g' \<Longrightarrow> length g = length g'"
  by (metis length_map shape_def)

lemma shape_levels: "shape g = shape g' \<Longrightarrow> i < length g \<Longrightarrow> length (g ! i) = length (g' ! i)"
  by (metis nth_map shape_def shape_length)

lemma shape_update: "shape (g[i := (g ! i)[l := ls]]) = shape g"
  by (simp add: shape_def map_update list_update_same_conv) (metis length_map list_update_beyond list_update_id not_le nth_map)

lemma nth_graph_update:
  "i < length g \<Longrightarrow> l < length (g ! i) \<Longrightarrow>
    g[i := (g ! i)[l := ls]] ! j ! k = (if j = i \<and> k = l then ls else g ! j ! k)"
  by (cases "j = i") auto

lemma length_graph_update: "length (g[i := (g ! i)[l := ls]] ! j) = length (g ! j)"
  by (cases "j = i"; cases "i < length g") (auto simp: list_update_beyond)

lemma graph_wf_update:
  assumes wf: "graph_wf M g" and i: "i < length g" "l < length (g ! i)" and "distinct ls"
    and "int (length ls) \<le> degree_bound M l"
    and "\<forall>j\<in>set ls. j < length g \<and> l < length (g ! j) \<and> j \<noteq> i"
  shows "graph_wf M (g[i := (g ! i)[l := ls]])"
proof (rule graph_wfI)
  let ?g = "g[i := (g ! i)[l := ls]]"
  fix k m
  assume km: "k < length ?g" "m < length (?g ! k)"
  then have km': "k < length g" "m < length (g ! k)" by (simp_all add: length_graph_update)
  show "distinct (?g ! k ! m) \<and> int (length (?g ! k ! m)) \<le> degree_bound M m
    \<and> (\<forall>j\<in>set (?g ! k ! m). j < length ?g \<and> m < length (?g ! j) \<and> j \<noteq> k)"
    unfolding nth_graph_update [OF i] length_graph_update length_list_update
    using graph_wfD [OF wf km'] assms(4-6) by auto
qed

lemma graph_wf_snoc:
  assumes wf: "graph_wf M g" and "1 \<le> M"
  shows "graph_wf M (g @ [replicate n []])"
proof (rule graph_wfI)
  let ?g = "g @ [replicate n []]"
  fix i l
  assume il: "i < length ?g" "l < length (?g ! i)"
  show "distinct (?g ! i ! l) \<and> int (length (?g ! i ! l)) \<le> degree_bound M l
    \<and> (\<forall>j\<in>set (?g ! i ! l). j < length ?g \<and> l < length (?g ! j) \<and> j \<noteq> i)"
  proof (cases "i < length g")
    case True
    then have "l < length (g ! i)" using il by (simp add: nth_append)
    from graph_wfD [OF wf True this] show ?thesis
      using True by (auto simp: nth_append intro: less_SucI)
  next
    case False
    then have "?g ! i ! l = []" using il by (auto simp: nth_append less_Suc_eq)
    then show ?thesis using assms(2) by (simp add: degree_bound_def)
  qed
qed

text \<open>Links stay on their layer.\<close>

lemma reaches_graph:
  assumes wf: "graph_wf M (h_graph h)" and "0 \<le> layer" and "ep < length (h_graph h)"
    and "layer < int (length (h_graph h ! ep))" and reach: "reaches h layer ep i"
  shows "i < length (h_graph h) \<and> layer < int (length (h_graph h ! i))"
  using reach
proof (rule reaches_closed)
  fix i j
  assume i: "i < length (h_graph h) \<and> layer < int (length (h_graph h ! i))"
    and j: "j \<in> set (links_at h layer i)"
  then have "nat layer < length (h_graph h ! i)" using assms(2) by linarith
  from graph_wfD(3) [OF wf conjunct1 [OF i] this, of j] i j assms(2)
  show "j < length (h_graph h) \<and> layer < int (length (h_graph h ! j))"
    by (auto simp: links_at_def split: if_splits)
qed (use assms in auto)

text \<open>Nobody links to \<open>q\<close> on the layers below \<open>k\<close>.\<close>

definition unlinked :: "nat \<Rightarrow> nat \<Rightarrow> nat list list list \<Rightarrow> bool" where
  "unlinked q k g \<longleftrightarrow> (\<forall>i<length g. \<forall>l<length (g ! i). l < k \<longrightarrow> q \<notin> set (g ! i ! l))"

lemma reaches_unlinked:
  assumes "unlinked q k (h_graph h)" and "nat layer < k" and "ep \<noteq> q" and reach: "reaches h layer ep i"
  shows "i \<noteq> q"
  using reach
proof (rule reaches_closed)
  fix i j
  assume "j \<in> set (links_at h layer i)"
  then show "j \<noteq> q" using assms(1,2) by (auto simp: links_at_def unlinked_def split: if_splits)
qed (rule assms(3))

section \<open>Selecting neighbours\<close>

lemma select_neighbours_spec:
  assumes srt: "desc_sorter srt" and ok: "b \<Longrightarrow> keys_ok cands" and dist: "distinct (map snd cands)"
  shows "holdsR b (select_neighbours srt cands M)
    (\<lambda>nbs. distinct nbs \<and> set nbs \<subseteq> snd ` set cands \<and> length nbs = min (nat M) (length cands))"
proof -
  have "distinct (map snd (take n (srt cands))) \<and> snd ` set (take n (srt cands)) \<subseteq> snd ` set cands
      \<and> length (srt cands) = length cands" if "keys_ok cands" for n
    using desc_sorter.distinct_srt [OF srt that, of snd] desc_sorter.set_srt [OF srt that]
      desc_sorter.length_srt [OF srt that] dist set_take_subset [of n "srt cands"]
    by (simp add: image_mono distinct_take flip: take_map)
  then show ?thesis using ok by (auto simp: select_neighbours_def std_sort_def)
qed


section \<open>Linking back\<close>

text \<open>Every vector of the index can be read, and no similarity of two of them is a not-a-number.\<close>

definition proper_vectors :: "'s hnsw \<Rightarrow> bool" where
  "proper_vectors h \<longleftrightarrow>
     (\<forall>i<h_num_vectors h. own_readable h i
        \<and> (\<forall>j<h_num_vectors h. \<not> is_nan (score_of (h_dim h) (own_vector h i) (own_vector h j))))"

lemma proper_vectors_regraph [simp]: "proper_vectors (h\<lparr>h_graph := g\<rparr>) = proper_vectors h"
  by (simp add: proper_vectors_def)

lemma get_own: "own_readable h i \<Longrightarrow> get_vec h i s = Inr (\<lambda>_. Inr (drop (i * h_dim h) (h_raw_vectors h)), s)"
  by (simp add: get_vec_def own_readable_def)

lemma own_similarity:
  assumes "own_readable h i" and "own_readable h j"
  shows "cosine_similarity_avx2 (drop (i * h_dim h) (h_raw_vectors h))
      (drop (j * h_dim h) (h_raw_vectors h)) (h_dim h)
    = Inr (score_of (h_dim h) (own_vector h i) (own_vector h j))"
  unfolding own_vector_def score_of_take1 [OF own_buffer [OF assms(1)]]
    score_of_take2 [OF own_buffer [OF assms(2)]]
  by (rule cosine_score) (use assms own_buffer in blast)+

lemma score_links_spec:
  assumes proper: "b \<Longrightarrow> proper_vectors h \<and> nb < h_num_vectors h \<and> (\<forall>x\<in>set links. x < h_num_vectors h)"
  shows "holdsR b (bindR (get_vec h nb s) (\<lambda>(nb_vec, s). foldR (score_link h nb_vec) links ([], s)))
    (\<lambda>(cands, s'). map snd cands = links \<and> (b \<longrightarrow> (\<forall>p\<in>set cands. \<not> is_nan (fst p))))"
proof (cases b)
  case True
  note own = proper [OF True]
  let ?v = "\<lambda>_. Inr (drop (nb * h_dim h) (h_raw_vectors h))"
  have "okR (foldR (score_link h ?v) links ([], s))
    (\<lambda>(cands, s'). map snd cands = links \<and> (\<forall>p\<in>set cands. \<not> is_nan (fst p)))"
  proof (rule okR_foldR_prefix
      [of "\<lambda>ys (cands, s'). map snd cands = ys \<and> (\<forall>p\<in>set cands. \<not> is_nan (fst p))"])
    fix ys x zs and c :: "scored list \<times> 'a"
    assume "links = ys @ x # zs" and c: "case c of (cands, s') \<Rightarrow> map snd cands = ys \<and> (\<forall>p\<in>set cands. \<not> is_nan (fst p))"
    then have x: "own_readable h x" "own_readable h nb"
      "\<not> is_nan (score_of (h_dim h) (own_vector h nb) (own_vector h x))"
      using own by (auto simp: proper_vectors_def)
    then show "okR (score_link h ?v x c)
        (\<lambda>(cands, s'). map snd cands = ys @ [x] \<and> (\<forall>p\<in>set cands. \<not> is_nan (fst p)))"
      using c by (auto simp: score_link_def get_own own_similarity split: prod.splits)
  qed simp
  then show ?thesis using own True by (simp add: holdsR_total get_own proper_vectors_def)
next
  case False
  have "postR (foldR (score_link h v) links ([], s')) (\<lambda>(cands, s'). map snd cands = links)" for v s'
    using holdsR_foldR_prefix [of "\<lambda>ys (cands, s'). map snd cands = ys" "([], s')" links False "score_link h v"]
    by (fastforce simp: holdsR_partial postR_iff score_link_def bindR_Inr_iff split: prod.splits)
  then show ?thesis using False by (auto simp: holdsR_partial postR_iff bindR_Inr_iff split: prod.splits)
qed

text \<open>
  The state while the neighbours \<open>nbs\<close> of the new node \<open>q\<close> on layer \<open>l\<close> are linked back:
  only the graph changes, it stays well-formed, and the nodes that link to \<open>q\<close> on
  layer \<open>l\<close> are among the neighbours done.
\<close>

definition back_inv :: "'s hnsw \<Rightarrow> nat \<Rightarrow> nat \<Rightarrow> nat list \<Rightarrow> 's hnsw \<Rightarrow> bool" where
  "back_inv h1 q l done_nbs h \<longleftrightarrow>
     (\<exists>g. h = h1\<lparr>h_graph := g\<rparr> \<and> shape g = shape (h_graph h1)
        \<and> graph_wf (cfg_M (h_cfg h1)) g \<and> unlinked q l g
        \<and> (\<forall>i<length g. l < length (g ! i) \<longrightarrow> q \<in> set (g ! i ! l) \<longrightarrow> i \<in> set done_nbs))"

lemma back_inv_update:
  assumes inv: "back_inv h1 q l ys (h1\<lparr>h_graph := g\<rparr>)" and g: "nb < length g" "l < length (g ! nb)"
    and q: "q < length g" "l < length (g ! q)" "nb \<noteq> q"
    and ls: "distinct ls" "int (length ls) \<le> degree_bound (cfg_M (h_cfg h1)) l"
      "set ls \<subseteq> insert q (set (g ! nb ! l))"
  shows "back_inv h1 q l (ys @ [nb]) (h1\<lparr>h_graph := g[nb := (g ! nb)[l := ls]]\<rparr>)"
proof -
  let ?g = "g[nb := (g ! nb)[l := ls]]"
  obtain g' where "h1\<lparr>h_graph := g\<rparr> = h1\<lparr>h_graph := g'\<rparr>"
    and g': "shape g' = shape (h_graph h1)" "graph_wf (cfg_M (h_cfg h1)) g'" "unlinked q l g'"
      "\<forall>i<length g'. l < length (g' ! i) \<longrightarrow> q \<in> set (g' ! i ! l) \<longrightarrow> i \<in> set ys"
    using inv unfolding back_inv_def by blast
  then have "g' = g" by (metis hnsw.select_convs(7) hnsw.surjective hnsw.update_convs(7))
  note g' = g' [unfolded this]
  have "graph_wf (cfg_M (h_cfg h1)) ?g"
  proof (rule graph_wf_update [OF g'(2) g ls(1,2)])
    show "\<forall>j\<in>set ls. j < length g \<and> l < length (g ! j) \<and> j \<noteq> nb"
      using ls(3) q graph_wfD(3) [OF g'(2) g] by blast
  qed
  moreover have "unlinked q l ?g"
    using g'(3) unfolding unlinked_def length_list_update length_graph_update nth_graph_update [OF g]
    by auto
  moreover have "i \<in> set (ys @ [nb])" if "i < length ?g" "l < length (?g ! i)" "q \<in> set (?g ! i ! l)" for i
    using that g'(4) unfolding length_list_update length_graph_update nth_graph_update [OF g]
    by (auto split: if_splits)
  ultimately show ?thesis
    unfolding back_inv_def using g'(1) by (intro exI [of _ ?g]) (simp add: shape_update)
qed


text \<open>Bounds on the configuration that keep the degree arithmetic within \<open>int\<close>.\<close>

definition cfg_ok :: "hnsw_config \<Rightarrow> bool" where
  "cfg_ok cfg \<longleftrightarrow> 1 \<le> cfg_M cfg \<and> cfg_M cfg < 2 ^ 30"

lemma mmax_degree_bound:
  "cfg_ok cfg \<Longrightarrow> max_links cfg (int l) = Inr (degree_bound (cfg_M cfg) l)"
  by (simp add: max_links_def int_r_def cfg_ok_def degree_bound_def)

lemma link_back_spec:
  assumes srt: "desc_sorter srt" and inv: "back_inv h1 q l ys h" and cfg: "cfg_ok (h_cfg h1)"
    and q: "q < length (h_graph h1)" "l < length (h_graph h1 ! q)"
    and nb: "nb < length (h_graph h1)" "l < length (h_graph h1 ! nb)" "nb \<noteq> q" "nb \<notin> set ys"
    and ctx: "visit_ok ctx"
    and proper: "b \<Longrightarrow> proper_vectors h1 \<and> h_num_vectors h1 = length (h_graph h1)"
  shows "holdsR b (link_back srt q (int l) nb (h, ctx))
    (\<lambda>(h', ctx'). back_inv h1 q l (ys @ [nb]) h' \<and> visit_ok ctx')"
proof -
  let ?M = "cfg_M (h_cfg h1)"
  obtain g where h: "h = h1\<lparr>h_graph := g\<rparr>"
    and g: "shape g = shape (h_graph h1)" "graph_wf ?M g" "unlinked q l g"
      "\<forall>i<length g. l < length (g ! i) \<longrightarrow> q \<in> set (g ! i ! l) \<longrightarrow> i \<in> set ys"
    using inv unfolding back_inv_def by blast
  have nb': "nb < length g" "l < length (g ! nb)" and q': "q < length g" "l < length (g ! q)"
    using nb q shape_length [OF g(1)] shape_levels [OF g(1)] by simp_all
  let ?links = "g ! nb ! l @ [q]"
  have new: "q \<notin> set (g ! nb ! l)" using g(4) nb' nb(4) by blast
  then have dist: "distinct ?links" using graph_wfD(1) [OF g(2) nb'] by simp
  have update: "back_inv h1 q l (ys @ [nb]) (h1\<lparr>h_graph := g[nb := (g ! nb)[l := ls]]\<rparr>)"
    if "distinct ls" "int (length ls) \<le> degree_bound ?M l" "set ls \<subseteq> set ?links" for ls
    using back_inv_update [of h1 q l ys g nb ls] inv h nb' q' nb(3) that by auto
  have body: "link_back srt q (int l) nb (h, ctx) =
    (if degree_bound ?M l < int (length ?links)
     then bindR (bindR (get_vec h nb (vis_env ctx)) (\<lambda>(nb_vec, s). foldR (score_link h nb_vec) ?links ([], s)))
       (\<lambda>(cands, s). bindR (select_neighbours srt cands (degree_bound ?M l)) (\<lambda>links.
         Inr (h1\<lparr>h_graph := g[nb := (g ! nb)[l := links]]\<rparr>, ctx\<lparr>vis_env := s\<rparr>)))
     else Inr (h1\<lparr>h_graph := g[nb := (g ! nb)[l := ?links]]\<rparr>, ctx))"
    using nb' mmax_degree_bound [OF cfg, of l]
    by (auto simp: link_back_def h nth_r_def Let_def bindR_assoc intro!: bindR_cong)
  have scored: "holdsR b (bindR (get_vec h nb (vis_env ctx)) (\<lambda>(nb_vec, s). foldR (score_link h nb_vec) ?links ([], s)))
    (\<lambda>(cands, s'). map snd cands = ?links \<and> (b \<longrightarrow> (\<forall>p\<in>set cands. \<not> is_nan (fst p))))"
    using proper nb' q' graph_wfD(3) [OF g(2) nb'] shape_length [OF g(1)]
    by (intro score_links_spec) (auto simp: h)
  show ?thesis
  proof (cases "degree_bound ?M l < int (length ?links)")
    case False
    then show ?thesis using update [OF dist] ctx unfolding body by simp
  next
    case True
    then have body': "link_back srt q (int l) nb (h, ctx) =
      bindR (bindR (get_vec h nb (vis_env ctx)) (\<lambda>(nb_vec, s). foldR (score_link h nb_vec) ?links ([], s)))
       (\<lambda>(cands, s). bindR (select_neighbours srt cands (degree_bound ?M l)) (\<lambda>links.
         Inr (h1\<lparr>h_graph := g[nb := (g ! nb)[l := links]]\<rparr>, ctx\<lparr>vis_env := s\<rparr>)))"
      using body by simp
    show ?thesis
      unfolding body' holdsR_bind [of b "bindR _ _"]
    proof (rule holdsR_mono [OF scored])
      fix r :: "scored list \<times> 'a"
      assume r: "case r of (cands, s') \<Rightarrow> map snd cands = ?links \<and> (b \<longrightarrow> (\<forall>p\<in>set cands. \<not> is_nan (fst p)))"
      obtain cands s where r2: "r = (cands, s)" by (cases r)
      have ids: "snd ` set cands = set ?links" and ok: "b \<Longrightarrow> keys_ok cands"
        and d: "distinct (map snd cands)"
        using r dist unfolding r2 prod.case by (metis list.set_map, auto simp: keys_ok_iff)
      have bound: "int (nat (degree_bound ?M l)) = degree_bound ?M l"
        using cfg by (simp add: degree_bound_def cfg_ok_def)
      show "holdsR b (case r of (cands, s) \<Rightarrow>
          bindR (select_neighbours srt cands (degree_bound ?M l)) (\<lambda>links.
            Inr (h1\<lparr>h_graph := g[nb := (g ! nb)[l := links]]\<rparr>, ctx\<lparr>vis_env := s\<rparr>)))
        (\<lambda>(h', ctx'). back_inv h1 q l (ys @ [nb]) h' \<and> visit_ok ctx')"
        unfolding r2 prod.case holdsR_bind holdsR_simps
      proof (rule holdsR_mono [OF select_neighbours_spec [OF srt ok d]])
        fix ls
        assume ls: "distinct ls \<and> set ls \<subseteq> snd ` set cands
          \<and> length ls = min (nat (degree_bound ?M l)) (length cands)"
        then have "int (length ls) \<le> degree_bound ?M l" using bound by linarith
        then show "back_inv h1 q l (ys @ [nb]) (h1\<lparr>h_graph := g[nb := (g ! nb)[l := ls]]\<rparr>)
            \<and> visit_ok (ctx\<lparr>vis_env := s\<rparr>)"
          using update [of ls] ls ids ctx by simp
      qed
    qed
  qed
qed


section \<open>One layer of an insertion\<close>

text \<open>The state before layer \<open>k - 1\<close> is connected.\<close>

definition layer_inv :: "'s hnsw \<Rightarrow> nat \<Rightarrow> nat \<Rightarrow> 's hnsw \<Rightarrow> bool" where
  "layer_inv h1 q k h \<longleftrightarrow>
     (\<exists>g. h = h1\<lparr>h_graph := g\<rparr> \<and> shape g = shape (h_graph h1)
        \<and> graph_wf (cfg_M (h_cfg h1)) g \<and> unlinked q k g)"

text \<open>The new node \<open>q\<close> is the last one, and \<open>vec\<close> is its vector.\<close>

definition new_node :: "'s hnsw \<Rightarrow> nat \<Rightarrow> f32 list \<Rightarrow> bool" where
  "new_node h1 q vec \<longleftrightarrow>
     length (h_graph h1) = Suc q \<and> h_num_vectors h1 = Suc q \<and> h_dim h1 \<le> length vec
     \<and> own_vector h1 q = take (h_dim h1) vec"

lemma new_node_scores:
  assumes "proper_vectors h1" and "new_node h1 q vec" and "i \<le> q"
  shows "own_readable h1 i \<and> \<not> is_nan (node_score own_vector h1 vec i)"
proof -
  have "node_score own_vector h1 vec i = score_of (h_dim h1) (own_vector h1 q) (own_vector h1 i)"
    using assms(2) by (simp add: node_score_def new_node_def score_of_take1)
  moreover have "q < h_num_vectors h1" "i < h_num_vectors h1"
    using assms(2,3) by (simp_all add: new_node_def)
  ultimately show ?thesis using assms(1) unfolding proper_vectors_def by metis
qed

text \<open>What a layer search finds on the way: old nodes that have the layer.\<close>

lemma insert_reaches:
  assumes inv: "layer_inv h1 q (Suc k) h" and ep: "ep < q" "k < length (h_graph h1 ! ep)"
    and q: "length (h_graph h1) = Suc q" and reach: "reaches h (int k) ep i"
  shows "i < q \<and> k < length (h_graph h1 ! i)"
proof -
  obtain g where h: "h = h1\<lparr>h_graph := g\<rparr>" and g: "shape g = shape (h_graph h1)"
      "graph_wf (cfg_M (h_cfg h1)) g" "unlinked q (Suc k) g"
    using inv unfolding layer_inv_def by blast
  have len: "length g = Suc q" "\<And>j. j < Suc q \<Longrightarrow> length (g ! j) = length (h_graph h1 ! j)"
    using shape_length [OF g(1)] shape_levels [OF g(1)] q by simp_all
  have "i < length g \<and> int k < int (length (g ! i))"
    using reaches_graph [of "cfg_M (h_cfg h1)" h "int k" ep i] g(2) ep len(1) len(2) [of ep] reach
    by (simp add: h)
  then have "i < Suc q" "k < length (g ! i)" using len(1) by simp_all
  moreover have "i \<noteq> q"
    using reaches_unlinked [of q "Suc k" h "int k" ep i] g(3) ep reach by (simp add: h)
  ultimately show ?thesis using len(2) [of i] by simp
qed

text \<open>With proper vectors every node a layer search meets has a score.\<close>

lemma insert_searchable:
  assumes inv: "layer_inv h1 q (Suc k) h" and ep: "ep < q" "k < length (h_graph h1 ! ep)"
    and q: "length (h_graph h1) = Suc q" and proper: "proper_vectors h1" "new_node h1 q vec"
  shows "searchable own_readable own_vector h vec (int k) ep"
    and "reaches h (int k) ep i \<Longrightarrow> \<not> is_nan (node_score own_vector h vec i)"
proof -
  obtain g where h: "h = h1\<lparr>h_graph := g\<rparr>" "shape g = shape (h_graph h1)"
    using inv unfolding layer_inv_def by blast
  have score: "own_readable h i \<and> \<not> is_nan (node_score own_vector h vec i) \<and> i < h_num_vectors h
      \<and> i < length (h_graph h)" if "reaches h (int k) ep i" for i
    using new_node_scores [OF proper, of i] insert_reaches [OF inv ep q that] q proper(2)
      shape_length [OF h(2)]
    by (simp add: h(1) new_node_def)
  then show "searchable own_readable own_vector h vec (int k) ep"
    using proper unfolding searchable_def by (auto simp: h(1) new_node_def)
  show "reaches h (int k) ep i \<Longrightarrow> \<not> is_nan (node_score own_vector h vec i)"
    using score by blast
qed

lemma insert_search:
  assumes srt: "desc_sorter srt" and inv: "layer_inv h1 q (Suc k) h" and ctx: "visit_ok ctx"
    and ep: "ep < q" "k < length (h_graph h1 ! ep)" and q: "length (h_graph h1) = Suc q"
    and proper: "b \<Longrightarrow> proper_vectors h1 \<and> new_node h1 q vec"
  shows "holdsR b (search_layer srt h vec ep ef (int k) ctx) (\<lambda>(out, ctx').
    visit_ok ctx' \<and> out \<noteq> [] \<and> distinct (map snd out) \<and> (b \<longrightarrow> keys_ok out)
    \<and> (\<forall>i\<in>snd ` set out. i < q \<and> k < length (h_graph h1 ! i)))"
proof -
  have reach: "i < q \<and> k < length (h_graph h1 ! i)" if "reaches h (int k) ep i" for i
    using insert_reaches [OF inv ep q that] .
  have srch: "searchable own_readable own_vector h vec (int k) ep" if b
    using insert_searchable(1) [OF inv ep q] proper [OF that] by blast
  have "holdsR b (search_layer srt h vec ep ef (int k) ctx) (\<lambda>(out, ctx').
      visit_ok ctx' \<and> layer_sound h (int k) ep ef out
      \<and> (b \<longrightarrow> True \<and> layer_best (node_score own_vector h vec) h (int k) ep ef out))"
    by (rule own.search_layer_inv [OF srt ctx TrueI srch])
  then show ?thesis
  proof (rule holdsR_mono)
    fix r :: "scored list \<times> 'a visit_ctx"
    assume r: "case r of (out, ctx') \<Rightarrow> visit_ok ctx' \<and> layer_sound h (int k) ep ef out
      \<and> (b \<longrightarrow> True \<and> layer_best (node_score own_vector h vec) h (int k) ep ef out)"
    have "keys_ok out" if b "layer_sound h (int k) ep ef out"
      "layer_best (node_score own_vector h vec) h (int k) ep ef out" for out
      using insert_searchable(2) [OF inv ep q] proper [OF that(1)] that(2,3)
      by (auto simp: layer_sound_def layer_best_def keys_ok_iff)
    then show "case r of (out, ctx') \<Rightarrow> visit_ok ctx' \<and> out \<noteq> [] \<and> distinct (map snd out)
      \<and> (b \<longrightarrow> keys_ok out) \<and> (\<forall>i\<in>snd ` set out. i < q \<and> k < length (h_graph h1 ! i))"
      using r reach by (cases r) (auto simp: layer_sound_def)
  qed
qed

lemma set_links_spec:
  assumes inv: "layer_inv h1 q (Suc k) h" and q: "length (h_graph h1) = Suc q" "k < length (h_graph h1 ! q)"
    and nbs: "distinct nbs" "int (length nbs) \<le> degree_bound (cfg_M (h_cfg h1)) k"
      "\<forall>i\<in>set nbs. i < q \<and> k < length (h_graph h1 ! i)"
  shows "okR (set_links q (int k) nbs h) (back_inv h1 q k [])"
proof -
  obtain g where h: "h = h1\<lparr>h_graph := g\<rparr>" and g: "shape g = shape (h_graph h1)"
      "graph_wf (cfg_M (h_cfg h1)) g" "unlinked q (Suc k) g"
    using inv unfolding layer_inv_def by blast
  have len: "length g = Suc q" "\<And>j. j < Suc q \<Longrightarrow> length (g ! j) = length (h_graph h1 ! j)"
    using shape_length [OF g(1)] shape_levels [OF g(1)] q by simp_all
  have gq: "q < length g" "k < length (g ! q)" using len q by simp_all
  let ?g = "g[q := (g ! q)[k := nbs]]"
  have "graph_wf (cfg_M (h_cfg h1)) ?g"
    using nbs len by (intro graph_wf_update [OF g(2) gq]) auto
  moreover have "unlinked q k ?g"
    using g(3) unfolding unlinked_def length_list_update length_graph_update nth_graph_update [OF gq]
    by auto
  moreover have "q \<notin> set (?g ! i ! k)" if "i < length ?g" "k < length (?g ! i)" for i
    using that g(3) nbs(3)
    unfolding unlinked_def length_list_update length_graph_update nth_graph_update [OF gq] by auto
  ultimately have "back_inv h1 q k [] (h1\<lparr>h_graph := ?g\<rparr>)"
    unfolding back_inv_def using g(1) by (intro exI [of _ ?g]) (simp add: shape_update)
  then show ?thesis using gq by (simp add: set_links_def h)
qed

lemma back_inv_layer: "back_inv h1 q k nbs h \<Longrightarrow> layer_inv h1 q k h"
  unfolding back_inv_def layer_inv_def by blast


text \<open>The entry point of the next layer: an old node of this one.\<close>

definition entry_inv :: "'s hnsw \<Rightarrow> nat \<Rightarrow> nat \<Rightarrow> nat \<Rightarrow> bool" where
  "entry_inv h1 q k ep \<longleftrightarrow> ep < q \<and> k \<le> length (h_graph h1 ! ep)"

lemma next_entry:
  assumes "out \<noteq> []" and "\<forall>p\<in>set out. snd p < q \<and> k < length (h_graph h1 ! snd p)"
  shows "entry_inv h1 q (Suc k) (snd (hd out))"
  using assms(2) hd_in_set [OF assms(1)] by (auto simp: entry_inv_def Suc_le_eq)

lemma entry_inv_weaken: "entry_inv h1 q (Suc k) ep \<Longrightarrow> entry_inv h1 q k ep"
  by (simp add: entry_inv_def)

lemma connect_layer_spec:
  assumes srt: "desc_sorter srt" and inv: "layer_inv h1 q (Suc k) h" and ctx: "visit_ok ctx"
    and ep: "entry_inv h1 q (Suc k) ep" and cfg: "cfg_ok (h_cfg h1)"
    and q: "length (h_graph h1) = Suc q" "k < length (h_graph h1 ! q)"
    and proper: "b \<Longrightarrow> proper_vectors h1 \<and> new_node h1 q vec"
  shows "holdsR b (connect_layer srt vec q (int k) (h, ep, ctx)) (\<lambda>(h', ep', ctx').
    layer_inv h1 q k h' \<and> entry_inv h1 q k ep' \<and> visit_ok ctx')"
proof -
  let ?M = "cfg_M (h_cfg h1)"
  have hM: "h_cfg h = h_cfg h1" using inv by (auto simp: layer_inv_def)
  have ep': "ep < q" "k < length (h_graph h1 ! ep)" using ep by (simp_all add: entry_inv_def)
  have links: "holdsR b (foldR (link_back srt q (int k)) nbs (h0, ctx0))
      (\<lambda>(h', ctx'). back_inv h1 q k nbs h' \<and> visit_ok ctx')"
    if "back_inv h1 q k [] h0" "visit_ok ctx0" "distinct nbs"
      and nbs: "\<forall>i\<in>set nbs. i < q \<and> k < length (h_graph h1 ! i)" for h0 ctx0 nbs
  proof (rule holdsR_foldR_prefix [of "\<lambda>ys (h', ctx'). back_inv h1 q k ys h' \<and> visit_ok ctx'"])
    fix ys nb zs and s :: "'a hnsw \<times> 'a visit_ctx"
    assume split: "nbs = ys @ nb # zs" and s: "case s of (h', ctx') \<Rightarrow> back_inv h1 q k ys h' \<and> visit_ok ctx'"
    obtain h2 ctx2 where s2: "s = (h2, ctx2)" by (cases s)
    show "holdsR b (link_back srt q (int k) nb s) (\<lambda>(h', ctx'). back_inv h1 q k (ys @ [nb]) h' \<and> visit_ok ctx')"
      unfolding s2
      by (rule link_back_spec [OF srt _ cfg])
        (use s s2 split q nbs \<open>distinct nbs\<close> proper in \<open>auto simp: new_node_def\<close>)
  qed (use that in auto)
  show ?thesis
    unfolding connect_layer_def prod.case Let_def holdsR_bind
  proof (rule holdsR_mono [OF insert_search [OF srt inv ctx ep' q(1) proper]])
    fix r :: "scored list \<times> 'a visit_ctx"
    assume r: "case r of (out, ctx') \<Rightarrow> visit_ok ctx' \<and> out \<noteq> [] \<and> distinct (map snd out)
      \<and> (b \<longrightarrow> keys_ok out) \<and> (\<forall>i\<in>snd ` set out. i < q \<and> k < length (h_graph h1 ! i))"
    obtain out ctx1 where r2: "r = (out, ctx1)" by (cases r)
    note out = r [unfolded r2 prod.case]
    have entry: "entry_inv h1 q k (snd (hd out))"
      using out by (intro entry_inv_weaken [OF next_entry]) auto
    show "holdsR b (case r of (candidates, ctx) \<Rightarrow>
        bindR (select_neighbours srt candidates (cfg_M (h_cfg h))) (\<lambda>neighbours.
        bindR (set_links q (int k) neighbours h) (\<lambda>h.
        bindR (foldR (link_back srt q (int k)) neighbours (h, ctx)) (\<lambda>(h, ctx).
        Inr (h, if candidates = [] then ep else snd (hd candidates), ctx)))))
      (\<lambda>(h', ep', ctx'). layer_inv h1 q k h' \<and> entry_inv h1 q k ep' \<and> visit_ok ctx')"
      unfolding r2 prod.case holdsR_bind hM
    proof (rule holdsR_mono [OF select_neighbours_spec [OF srt, of b out]])
      fix nbs
      assume nbs: "distinct nbs \<and> set nbs \<subseteq> snd ` set out \<and> length nbs = min (nat ?M) (length out)"
      have old: "\<forall>i\<in>set nbs. i < q \<and> k < length (h_graph h1 ! i)" using nbs out by blast
      have "int (length nbs) \<le> degree_bound ?M k"
        using nbs cfg by (auto simp: cfg_ok_def degree_bound_def)
      then have "okR (set_links q (int k) nbs h) (back_inv h1 q k [])"
        using set_links_spec [OF inv q] nbs old by blast
      then obtain h2 where h2: "set_links q (int k) nbs h = Inr h2" "back_inv h1 q k [] h2"
        by (auto simp: okR_iff)
      have "holdsR b (foldR (link_back srt q (int k)) nbs (h2, ctx1))
          (\<lambda>(h', ctx'). back_inv h1 q k nbs h' \<and> visit_ok ctx')"
        using links [OF h2(2)] nbs old out by blast
      then show "holdsR b (set_links q (int k) nbs h) (\<lambda>x.
          holdsR b (foldR (link_back srt q (int k)) nbs (x, ctx1)) (\<lambda>x.
          holdsR b (case x of (h, ctx) \<Rightarrow> Inr (h, if out = [] then ep else snd (hd out), ctx))
        (\<lambda>(h', ep', ctx'). layer_inv h1 q k h' \<and> entry_inv h1 q k ep' \<and> visit_ok ctx')))"
        unfolding h2(1) holdsR_simps
        by (rule holdsR_mono) (use out entry in \<open>auto intro: back_inv_layer\<close>)
    qed (use out in auto)
  qed
qed

lemma descend_spec:
  assumes srt: "desc_sorter srt" and inv: "layer_inv h1 q (Suc k) h1" and ctx: "visit_ok ctx"
    and ep: "entry_inv h1 q (Suc k) ep" and q: "length (h_graph h1) = Suc q"
    and proper: "b \<Longrightarrow> proper_vectors h1 \<and> new_node h1 q vec"
  shows "holdsR b (descend srt h1 vec (int k) (ep, ctx))
    (\<lambda>(ep', ctx'). entry_inv h1 q (Suc k) ep' \<and> visit_ok ctx')"
proof -
  have ep': "ep < q" "k < length (h_graph h1 ! ep)" using ep by (simp_all add: entry_inv_def)
  show ?thesis
    unfolding descend_def prod.case holdsR_bind
    by (rule holdsR_mono [OF insert_search [OF srt inv ctx ep' q proper]])
      (auto split: prod.splits intro!: next_entry)
qed


section \<open>The invariant of the index\<close>

definition hnsw_sizes :: "'s hnsw \<Rightarrow> bool" where
  "hnsw_sizes h \<longleftrightarrow>
     length (h_id_map h) = h_num_vectors h \<and> length (h_metadata h) = h_num_vectors h
     \<and> length (h_tombstone h) = h_num_vectors h \<and> length (h_graph h) = h_num_vectors h
     \<and> length (h_raw_vectors h) = h_num_vectors h * h_dim h"

text \<open>
  Every node has layer 0, none is above the entry point's top layer, \<open>max_layer_\<close>, which
  is an \<open>int\<close>.
\<close>

definition levels_wf :: "'s hnsw \<Rightarrow> bool" where
  "levels_wf h \<longleftrightarrow>
     h_max_layer h < 2 ^ 31 \<and> (h_graph h = [] \<longrightarrow> h_max_layer h = 0 \<and> h_entry_point h = 0)
     \<and> (h_graph h \<noteq> [] \<longrightarrow>
        h_entry_point h < length (h_graph h)
        \<and> int (length (h_graph h ! h_entry_point h)) = h_max_layer h + 1
        \<and> (\<forall>i<length (h_graph h). 1 \<le> length (h_graph h ! i)
             \<and> int (length (h_graph h ! i)) \<le> h_max_layer h + 1))"

definition hnsw_wf :: "'s hnsw \<Rightarrow> bool" where
  "hnsw_wf h \<longleftrightarrow>
     cfg_ok (h_cfg h) \<and> hnsw_sizes h \<and> graph_wf (cfg_M (h_cfg h)) (h_graph h) \<and> levels_wf h"

lemma hnsw_wf_new: "cfg_ok cfg \<Longrightarrow> hnsw_wf (hnsw_new logf n cfg)"
  by (simp add: hnsw_wf_def hnsw_new_def hnsw_sizes_def graph_wf_def levels_wf_def)

text \<open>The slots an insertion adds.\<close>

definition inserted :: "64 word \<Rightarrow> f32 list \<Rightarrow> string \<Rightarrow> 's hnsw \<Rightarrow> 's hnsw \<Rightarrow> bool" where
  "inserted i vec meta h h' \<longleftrightarrow>
     h_num_vectors h' = Suc (h_num_vectors h) \<and> h_id_map h' = h_id_map h @ [i]
     \<and> h_metadata h' = h_metadata h @ [meta] \<and> h_tombstone h' = h_tombstone h @ [False]
     \<and> h_raw_vectors h' = h_raw_vectors h @ take (h_dim h) vec
     \<and> h_dim h' = h_dim h \<and> h_cfg h' = h_cfg h \<and> h_mL h' = h_mL h
     \<and> h_vec_accessor h' = h_vec_accessor h"

text \<open>No similarity between two of the vectors is a not-a-number.\<close>

definition no_nan_scores :: "nat \<Rightarrow> f32 list list \<Rightarrow> bool" where
  "no_nan_scores n vs \<longleftrightarrow> (\<forall>u\<in>set vs. \<forall>v\<in>set vs. \<not> is_nan (score_of n u v))"

definition stored_vectors :: "'s hnsw \<Rightarrow> f32 list list" where
  "stored_vectors h = map (own_vector h) [0..<h_num_vectors h]"

lemma inserted_own_vector:
  assumes "hnsw_sizes h" and "inserted i vec meta h h'" and "h_dim h \<le> length vec"
  shows "j < h_num_vectors h \<Longrightarrow> own_vector h' j = own_vector h j"
    and "own_vector h' (h_num_vectors h) = take (h_dim h) vec"
proof -
  assume "j < h_num_vectors h"
  then have "j * h_dim h + h_dim h \<le> length (h_raw_vectors h)"
    using assms(1) mult_le_mono1 [of "Suc j" "h_num_vectors h" "h_dim h"] by (simp add: hnsw_sizes_def)
  then show "own_vector h' j = own_vector h j"
    using assms(2) by (simp add: own_vector_def inserted_def)
qed (use assms in \<open>simp add: own_vector_def inserted_def hnsw_sizes_def\<close>)

lemma own_readable_sizes:
  assumes "hnsw_sizes h" and "h_vec_accessor h = None" and "i < h_num_vectors h"
  shows "own_readable h i"
  using assms mult_le_mono1 [of "Suc i" "h_num_vectors h" "h_dim h"]
  by (simp add: own_readable_def hnsw_sizes_def)

lemma stored_inserted:
  assumes "hnsw_sizes h" and "inserted i vec meta h h'" and "h_dim h \<le> length vec"
  shows "stored_vectors h' = stored_vectors h @ [take (h_dim h) vec]"
proof -
  have "h_num_vectors h' = Suc (h_num_vectors h)" using assms(2) by (simp add: inserted_def)
  then show ?thesis using inserted_own_vector [OF assms] by (simp add: stored_vectors_def)
qed

lemma proper_vectors_stored:
  assumes "hnsw_sizes h" and "h_vec_accessor h = None" and "no_nan_scores (h_dim h) (stored_vectors h)"
  shows "proper_vectors h"
  using assms own_readable_sizes [OF assms(1,2)]
  by (auto simp: proper_vectors_def no_nan_scores_def stored_vectors_def)

lemma new_slot_spec:
  assumes sizes: "hnsw_sizes h" and level: "0 \<le> level"
  shows "holdsR b (new_slot i vec meta level h)
    (\<lambda>h1. h_dim h \<le> length vec \<and> inserted i vec meta h h1 \<and> hnsw_sizes h1
      \<and> h_graph h1 = h_graph h @ [replicate (nat (level + 1)) []]
      \<and> h_max_layer h1 = h_max_layer h \<and> h_entry_point h1 = h_entry_point h)
    \<longleftrightarrow> (b \<longrightarrow> h_dim h \<le> length vec)"
  using assms by (auto simp: new_slot_def inserted_def hnsw_sizes_def)


text \<open>The two loops over the layers; they also keep \<open>R\<close>, which each layer may carry to the next.\<close>

lemma insert_loops:
  fixes h1 :: "'s hnsw" and ctx :: "'s visit_ctx"
  assumes srt: "desc_sorter srt" and cfg: "cfg_ok (h_cfg h1)"
    and wf: "graph_wf (cfg_M (h_cfg h1)) (h_graph h1)" and un: "\<And>k. unlinked q k (h_graph h1)"
    and q: "length (h_graph h1) = Suc q" "int (length (h_graph h1 ! q)) = level + 1" "0 \<le> level"
    and ep: "ep < q" "int (length (h_graph h1 ! ep)) = cur + 1" "0 \<le> cur" and ctx: "visit_ok ctx"
    and proper: "b \<Longrightarrow> proper_vectors h1 \<and> new_node h1 q vec"
    and start: "\<And>k. R (Suc k) h1"
    and step: "\<And>k h ep ctx h' ep' ctx'. layer_inv h1 q (Suc k) h \<Longrightarrow> entry_inv h1 q (Suc k) ep \<Longrightarrow>
      visit_ok ctx \<Longrightarrow> k < length (h_graph h1 ! q) \<Longrightarrow> R (Suc k) h \<Longrightarrow>
      connect_layer srt vec q (int k) (h, ep, ctx) = Inr (h', ep', ctx') \<Longrightarrow> R k h'"
  shows "holdsR b (bindR (foldR (descend srt h1 vec) (rev [level + 1..cur]) (ep, ctx)) (\<lambda>(ep, ctx).
      foldR (connect_layer srt vec q) (rev [0..min level cur]) (h1, ep, ctx)))
    (\<lambda>(h, ep, ctx). layer_inv h1 q 0 h \<and> visit_ok ctx \<and> R 0 h)"
proof -
  define m where "m = nat (min level cur + 1)"
  have m: "int m = min level cur + 1" using q(3) ep(3) by (simp add: m_def)
  have inv: "layer_inv h1 q k h1" for k
    using wf un unfolding layer_inv_def by (intro exI [of _ "h_graph h1"]) simp
  have down: "holdsR b (foldR (descend srt h1 vec) (rev [level + 1..cur]) (ep, ctx))
    (\<lambda>(ep, ctx). entry_inv h1 q m ep \<and> visit_ok ctx)"
  proof (cases "level < cur")
    case False
    then show ?thesis using ep ctx m by (simp add: entry_inv_def)
  next
    case True
    let ?P = "\<lambda>k (ep, ctx). entry_inv h1 q (m + k) ep \<and> visit_ok ctx"
    have "holdsR b (foldR (descend srt h1 vec) (rev [int m..int m + int (nat (cur - level)) - 1]) (ep, ctx)) (?P 0)"
    proof (rule holdsR_foldR_downto)
      show "?P (nat (cur - level)) (ep, ctx)"
        using True ep ctx m q(3) by (auto simp: entry_inv_def)
    next
      fix k and s :: "nat \<times> 's visit_ctx"
      assume P: "?P (Suc k) s"
      obtain e c where s: "s = (e, c)" by (cases s)
      have "holdsR b (descend srt h1 vec (int (m + k)) (e, c))
          (\<lambda>(ep', ctx'). entry_inv h1 q (Suc (m + k)) ep' \<and> visit_ok ctx')"
        using P s by (intro descend_spec [OF srt inv _ _ q(1) proper]) auto
      then show "holdsR b (descend srt h1 vec (int m + int k) s) (?P k)"
        unfolding s of_nat_add by (rule holdsR_mono) (auto intro: entry_inv_weaken)
    qed
    moreover have "int m + int (nat (cur - level)) - 1 = cur" "int m = level + 1"
      using True m by simp_all
    ultimately show ?thesis by simp
  qed
  have up: "holdsR b (foldR (connect_layer srt vec q) (rev [0..min level cur]) (h1, e, c))
      (\<lambda>(h, ep, ctx). layer_inv h1 q 0 h \<and> visit_ok ctx \<and> R 0 h)"
    if e: "entry_inv h1 q m e" and c: "visit_ok c" for e c
  proof -
    let ?P = "\<lambda>k (h, ep, ctx). layer_inv h1 q k h \<and> entry_inv h1 q k ep \<and> visit_ok ctx \<and> R k h"
    have "holdsR b (foldR (connect_layer srt vec q) (rev [0..0 + int m - 1]) (h1, e, c)) (?P 0)"
    proof (rule holdsR_foldR_downto)
      have "m \<noteq> 0" using m q(3) ep(3) by linarith
      then have "R m h1" using start [of "m - 1"] by simp
      then show "?P m (h1, e, c)" using inv e c by simp
    next
      fix k and s :: "'s hnsw \<times> nat \<times> 's visit_ctx"
      assume k: "k < m" and P: "?P (Suc k) s"
      have "k < length (h_graph h1 ! q)" using k m q(2,3) ep(3) by linarith
      moreover obtain h e c where s: "s = (h, e, c)" by (cases s)
      ultimately have "holdsR b (connect_layer srt vec q (int k) (h, e, c)) (\<lambda>(h', ep', ctx').
          layer_inv h1 q k h' \<and> entry_inv h1 q k ep' \<and> visit_ok ctx')"
        using P by (intro connect_layer_spec [OF srt _ _ _ cfg q(1) _ proper]) auto
      then show "holdsR b (connect_layer srt vec q (0 + int k) s) (?P k)"
        unfolding s add_0 by (rule holdsR_mono)
          (use P step [of k h e c] \<open>k < length (h_graph h1 ! q)\<close> s in auto)
    qed
    then show ?thesis using m by (auto elim!: holdsR_mono)
  qed
  show ?thesis
    unfolding holdsR_bind by (rule holdsR_mono [OF down]) (use up in auto)
qed

lemma layer_inv_wf:
  assumes inv: "layer_inv h1 q 0 h" and cfg: "cfg_ok (h_cfg h1)" and sizes: "hnsw_sizes h1"
    and levels: "levels_wf (h1\<lparr>h_max_layer := mx, h_entry_point := e\<rparr>)"
  shows "hnsw_wf (h\<lparr>h_max_layer := mx, h_entry_point := e\<rparr>)"
proof -
  obtain g where h: "h = h1\<lparr>h_graph := g\<rparr>" and g: "shape g = shape (h_graph h1)"
      "graph_wf (cfg_M (h_cfg h1)) g"
    using inv unfolding layer_inv_def by blast
  have len: "length g = length (h_graph h1)"
      "\<And>i. i < length (h_graph h1) \<Longrightarrow> length (g ! i) = length (h_graph h1 ! i)"
    using shape_length [OF g(1)] shape_levels [OF g(1)] by simp_all
  then have "levels_wf (h\<lparr>h_max_layer := mx, h_entry_point := e\<rparr>)"
    using levels by (fastforce simp: levels_wf_def h)
  then show ?thesis
    using cfg sizes g(2) len(1) by (simp add: hnsw_wf_def hnsw_sizes_def h)
qed

lemma layer_inv_inserted:
  "layer_inv h1 q 0 h \<Longrightarrow> inserted i vec meta h0 h1 \<Longrightarrow>
    inserted i vec meta h0 (h\<lparr>h_max_layer := mx, h_entry_point := e\<rparr>)"
  by (auto simp: layer_inv_def inserted_def)


lemma random_layer_int: "random_layer logf val mL = Inr level \<Longrightarrow> level < 2 ^ 31"
  by (auto simp: random_layer_def f32_to_int_def Let_def split: fval.splits if_splits)

text \<open>The state after the first locked section.\<close>

lemma inserted_start:
  assumes wf: "hnsw_wf h" and ins: "inserted i vec meta h h1" and vec: "h_dim h \<le> length vec"
    and g1: "h_graph h1 = h_graph h @ [replicate (nat (level + 1)) []]"
  shows "graph_wf (cfg_M (h_cfg h1)) (h_graph h1)" and "unlinked (h_num_vectors h) k (h_graph h1)"
    and "length (h_graph h1) = Suc (h_num_vectors h)"
    and "length (h_graph h1 ! h_num_vectors h) = nat (level + 1)"
    and "new_node h1 (h_num_vectors h) vec"
    and "h_num_vectors h \<noteq> 0 \<Longrightarrow> h_entry_point h < h_num_vectors h
      \<and> int (length (h_graph h1 ! h_entry_point h)) = h_max_layer h + 1 \<and> 0 \<le> h_max_layer h"
proof -
  let ?q = "h_num_vectors h"
  have sizes: "hnsw_sizes h" and g: "graph_wf (cfg_M (h_cfg h)) (h_graph h)"
    using wf by (simp_all add: hnsw_wf_def)
  have q: "length (h_graph h) = ?q" using sizes by (simp add: hnsw_sizes_def)
  have h1: "h_cfg h1 = h_cfg h" "h_num_vectors h1 = Suc ?q" "h_dim h1 = h_dim h"
    using ins by (simp_all add: inserted_def)
  show "graph_wf (cfg_M (h_cfg h1)) (h_graph h1)"
    unfolding g1 h1 using graph_wf_snoc [OF g] wf by (simp add: hnsw_wf_def cfg_ok_def)
  show len1: "length (h_graph h1) = Suc ?q" "length (h_graph h1 ! ?q) = nat (level + 1)"
    using q by (simp_all add: g1 nth_append)
  show "unlinked ?q k (h_graph h1)"
    unfolding unlinked_def
  proof (intro allI impI)
    fix j l
    assume "j < length (h_graph h1)" "l < length (h_graph h1 ! j)"
    then show "?q \<notin> set (h_graph h1 ! j ! l)"
      using graph_wfD(3) [OF g, of j l ?q] q by (auto simp: g1 nth_append less_Suc_eq split: if_splits)
  qed
  show "new_node h1 ?q vec"
    using len1(1) h1 vec inserted_own_vector(2) [OF sizes ins vec] by (simp add: new_node_def)
  assume "?q \<noteq> 0"
  then have "h_graph h \<noteq> []" using q by auto
  then have ep: "h_entry_point h < ?q" "int (length (h_graph h ! h_entry_point h)) = h_max_layer h + 1"
    and "1 \<le> length (h_graph h ! h_entry_point h)"
    using wf q by (auto simp: hnsw_wf_def levels_wf_def)
  then show "h_entry_point h < ?q
      \<and> int (length (h_graph h1 ! h_entry_point h)) = h_max_layer h + 1 \<and> 0 \<le> h_max_layer h"
    using q by (auto simp: g1 nth_append)
qed

lemma hnsw_insert_spec:
  fixes h :: "'s hnsw"
  assumes srt: "desc_sorter srt" and wf: "hnsw_wf h" and ctx: "visit_ok ctx"
    and num: "h_num_vectors h < 2 ^ 32"
    and level: "random_layer logf val (h_mL h) = Inr level" "0 \<le> level"
    and proper: "b \<Longrightarrow> h_dim h \<le> length vec \<and> h_vec_accessor h = None
      \<and> no_nan_scores (h_dim h) (take (h_dim h) vec # stored_vectors h)"
  shows "holdsR b (hnsw_insert srt logf val i vec meta (h, ctx))
    (\<lambda>(h', ctx'). hnsw_wf h' \<and> inserted i vec meta h h' \<and> visit_ok ctx')"
proof -
  let ?q = "h_num_vectors h" and ?M = "cfg_M (h_cfg h)"
  have sizes: "hnsw_sizes h" and cfg: "cfg_ok (h_cfg h)" and g: "graph_wf ?M (h_graph h)"
    and lv: "levels_wf h"
    using wf by (simp_all add: hnsw_wf_def)
  have q: "?q mod 2 ^ 32 = ?q" "length (h_graph h) = ?q" using num sizes by (simp_all add: hnsw_sizes_def)
  have slot: "holdsR b (new_slot i vec meta level h) (\<lambda>h1. h_dim h \<le> length vec \<and> inserted i vec meta h h1
      \<and> hnsw_sizes h1 \<and> h_graph h1 = h_graph h @ [replicate (nat (level + 1)) []]
      \<and> h_max_layer h1 = h_max_layer h \<and> h_entry_point h1 = h_entry_point h)"
    using new_slot_spec [OF sizes level(2)] proper by blast
  have main: "holdsR b
     (if ?q = 0 then Inr (h1\<lparr>h_max_layer := level, h_entry_point := 0\<rparr>, ctx)
      else
       let cur_max_layer = h_max_layer h1 in
       bindR (foldR (descend srt h1 vec) (rev [level + 1..cur_max_layer]) (h_entry_point h1, ctx))
         (\<lambda>(ep, ctx).
       bindR (foldR (connect_layer srt vec ?q) (rev [0..min level cur_max_layer]) (h1, ep, ctx))
         (\<lambda>(h, ep, ctx).
       Inr (if h_max_layer h < level then h\<lparr>h_max_layer := level, h_entry_point := ?q\<rparr> else h,
            ctx))))
    (\<lambda>(h', ctx'). hnsw_wf h' \<and> inserted i vec meta h h' \<and> visit_ok ctx')"
    if vec: "h_dim h \<le> length vec" and ins: "inserted i vec meta h h1" and sizes1: "hnsw_sizes h1"
      and g1: "h_graph h1 = h_graph h @ [replicate (nat (level + 1)) []]"
      and same: "h_max_layer h1 = h_max_layer h" "h_entry_point h1 = h_entry_point h" for h1
  proof -
    have h1: "h_cfg h1 = h_cfg h" "h_num_vectors h1 = Suc ?q" "h_dim h1 = h_dim h"
      "h_vec_accessor h1 = h_vec_accessor h"
      using ins by (simp_all add: inserted_def)
    note start = inserted_start [OF wf ins vec g1]
    note wf1 = start(1) and un = start(2) and len1 = start(3,4)
    have self1: "layer_inv h1 ?q 0 h1"
      using wf1 un unfolding layer_inv_def by (intro exI [of _ "h_graph h1"]) simp
    show ?thesis
    proof (cases "?q = 0")
      case True
      have "levels_wf (h1\<lparr>h_max_layer := level, h_entry_point := 0\<rparr>)"
        using True q(2) level random_layer_int [OF level(1)] by (simp add: levels_wf_def g1)
      then have "hnsw_wf (h1\<lparr>h_max_layer := level, h_entry_point := 0\<rparr>)"
        using layer_inv_wf [OF self1 _ sizes1] cfg h1 by simp
      then show ?thesis
        using True ins ctx layer_inv_inserted [OF self1 ins] by simp
    next
      case False
      let ?ep = "h_entry_point h" and ?cur = "h_max_layer h"
      note ep1 = start(6) [OF False]
      have ep: "?ep < ?q" "int (length (h_graph h ! ?ep)) = ?cur + 1" "?cur < 2 ^ 31"
        and all: "\<And>j. j < ?q \<Longrightarrow> 1 \<le> length (h_graph h ! j) \<and> int (length (h_graph h ! j)) \<le> ?cur + 1"
        using lv False q(2) by (auto simp: levels_wf_def)
      have levels1: "levels_wf (h1\<lparr>h_max_layer := if ?cur < level then level else ?cur,
          h_entry_point := if ?cur < level then ?q else ?ep\<rparr>)"
        using all ep q(2) level(2) random_layer_int [OF level(1)]
        by (fastforce simp: levels_wf_def g1 nth_append less_Suc_eq)
      note new = start(5)
      have "proper_vectors h1 \<and> new_node h1 ?q vec" if b
        using proper [OF that] proper_vectors_stored [OF sizes1] stored_inserted [OF sizes ins vec] h1 new
        by (simp add: no_nan_scores_def)
      then have loops: "holdsR b (bindR (foldR (descend srt h1 vec) (rev [level + 1..?cur]) (?ep, ctx)) (\<lambda>(ep, ctx).
          foldR (connect_layer srt vec ?q) (rev [0..min level ?cur]) (h1, ep, ctx)))
        (\<lambda>(h, ep, ctx). layer_inv h1 ?q 0 h \<and> visit_ok ctx \<and> True)"
        using cfg h1(1) len1 ep1 level(2) by (intro insert_loops [OF srt _ wf1 un len1(1)] ctx TrueI) simp_all
      have final: "hnsw_wf h' \<and> inserted i vec meta h h'"
        if inv: "layer_inv h1 ?q 0 h2" and h': "h' = (if h_max_layer h2 < level
          then h2\<lparr>h_max_layer := level, h_entry_point := ?q\<rparr> else h2)" for h2 h'
      proof -
        have "h_max_layer h2 = ?cur" "h_entry_point h2 = ?ep"
          using inv same by (auto simp: layer_inv_def)
        then have "h' = h2\<lparr>h_max_layer := if ?cur < level then level else ?cur,
            h_entry_point := if ?cur < level then ?q else ?ep\<rparr>"
          using h' by simp
        then show ?thesis
          using layer_inv_wf [OF inv _ sizes1 levels1] layer_inv_inserted [OF inv ins] cfg h1(1) by simp
      qed
      show ?thesis
        using False loops final unfolding same Let_def
        by (auto simp: bindR_assoc elim!: holdsR_mono)
    qed
  qed
  show ?thesis
    unfolding hnsw_insert_def prod.case level(1) bindR_simps q(1) Let_def [of ?q] holdsR_bind
    by (rule holdsR_mono [OF slot]) (use main in blast)
qed

end
