(* ===== verification/Hnsw_Search.thy ===== *)
theory Hnsw_Search
  imports Hnsw_Insert
begin

text \<open>
  What \<open>HNSWIndex::search\<close> returns on a well-formed index.
\<close>

section \<open>Collecting the live candidates\<close>

text \<open>The first \<open>k\<close> elements; the comparison with \<open>k\<close> after each push never holds for \<open>k \<le> 0\<close>.\<close>

definition first_k :: "int \<Rightarrow> 'a list \<Rightarrow> 'a list" where
  "first_k k xs = (if 1 \<le> k then take (nat k) xs else xs)"

definition live_candidates :: "'s hnsw \<Rightarrow> scored list \<Rightarrow> scored list" where
  "live_candidates h cands = filter (\<lambda>p. \<not> h_tombstone h ! snd p) cands"

definition external :: "'s hnsw \<Rightarrow> scored \<Rightarrow> f32 \<times> 64 word" where
  "external h p = (fst p, h_id_map h ! snd p)"

definition search_result_of :: "'s hnsw \<Rightarrow> int \<Rightarrow> scored list \<Rightarrow> (f32 \<times> 64 word) list" where
  "search_result_of h k out = map (external h) (first_k k (live_candidates h out))"

lemma live_candidates_Cons:
  "live_candidates h ((s, i) # cands) =
    (if h_tombstone h ! i then live_candidates h cands else (s, i) # live_candidates h cands)"
  by (simp add: live_candidates_def)

lemma collect_live_upto:
  assumes "\<forall>p\<in>set cands. snd p < length (h_tombstone h) \<and> snd p < length (h_id_map h)"
    and "int (length out) < k"
  shows "collect_live h k cands out
    = Inr (out @ map (external h) (take (nat k - length out) (live_candidates h cands)))"
  using assms
proof (induction h k cands out rule: collect_live.induct)
  case (1 h k out)
  then show ?case by (simp add: live_candidates_def)
next
  case (2 h k sim i cands out)
  have i: "i < length (h_tombstone h)" "i < length (h_id_map h)" using "2.prems"(1) by simp_all
  have Suc: "nat k - length out = Suc (nat k - Suc (length out))" using "2.prems"(2) by linarith
  show ?case
  proof (cases "int (Suc (length out)) = k")
    case True
    then have "nat k = Suc (length out)" by linarith
    then show ?thesis
      using "2.IH"(1) "2.prems" i True by (auto simp: nth_r_def live_candidates_Cons external_def)
  next
    case False
    then show ?thesis
      using "2.IH" "2.prems" i Suc by (auto simp: nth_r_def live_candidates_Cons external_def)
  qed
qed

lemma collect_live_all:
  assumes "\<forall>p\<in>set cands. snd p < length (h_tombstone h) \<and> snd p < length (h_id_map h)"
    and "k \<le> int (length out)"
  shows "collect_live h k cands out = Inr (out @ map (external h) (live_candidates h cands))"
  using assms
proof (induction h k cands out rule: collect_live.induct)
  case (2 h k sim i cands out)
  have i: "i < length (h_tombstone h)" "i < length (h_id_map h)" using "2.prems"(1) by simp_all
  show ?case
    using "2.IH" "2.prems" i by (auto simp: nth_r_def live_candidates_Cons external_def)
qed (simp add: live_candidates_def)

lemma collect_live_spec:
  assumes "\<forall>p\<in>set cands. snd p < length (h_tombstone h) \<and> snd p < length (h_id_map h)"
  shows "collect_live h k cands [] = Inr (search_result_of h k cands)"
  using collect_live_upto [OF assms, of "[]" k] collect_live_all [OF assms, of k "[]"]
  by (auto simp: first_k_def search_result_of_def)

section \<open>The search as a whole\<close>

lemma reaches_below:
  assumes "graph_wf M (h_graph h)" and "ep < length (h_graph h)" and reach: "reaches h layer ep i"
  shows "i < length (h_graph h)"
  using reach
proof (rule reaches_closed)
  fix i j
  assume "j \<in> set (links_at h layer i)"
  then show "j < length (h_graph h)"
    using graph_wfD(3) [OF assms(1), of i "nat layer" j] by (auto simp: links_at_def split: if_splits)
qed (rule assms(2))

text \<open>The query has a proper score with every vector of the index, read from some source.\<close>

definition query_fits ::
    "('s hnsw \<Rightarrow> nat \<Rightarrow> bool) \<Rightarrow> ('s hnsw \<Rightarrow> nat \<Rightarrow> f32 list) \<Rightarrow> 's hnsw \<Rightarrow> f32 list \<Rightarrow> bool" where
  "query_fits readable vec h query \<longleftrightarrow>
     h_dim h \<le> length query
     \<and> (\<forall>i<h_num_vectors h. readable h i \<and> \<not> is_nan (node_score vec h query i))"

lemma search_entry_spec:
  assumes wf: "hnsw_wf h" and num: "h_num_vectors h < 2 ^ 32" and "h_num_vectors h \<noteq> 0"
  shows "\<exists>r. search_entry h = Inr r
    \<and> (if False \<in> set (h_tombstone h) then \<exists>ep<h_num_vectors h. r = Some ep else r = None)"
proof -
  let ?live = "False \<in> set (h_tombstone h)" and ?n = "h_num_vectors h"
  have sizes: "length (h_tombstone h) = ?n" "length (h_graph h) = ?n"
    using wf by (simp_all add: hnsw_wf_def hnsw_sizes_def)
  have e: "h_entry_point h < ?n"
    using wf assms(3) sizes by (auto simp: hnsw_wf_def levels_wf_def)
  obtain r where r: "find_first (\<lambda>t. \<not> t) (h_tombstone h) ?n = Inr r"
    using find_first_defined [of ?n "h_tombstone h"] sizes by auto
  show ?thesis
  proof (cases "h_tombstone h ! h_entry_point h")
    case False
    then have ?live using e sizes by (force simp: in_set_conv_nth)
    then show ?thesis using False e sizes by (simp add: search_entry_def nth_r_def)
  next
    case True
    then have "search_entry h = Inr r" using e sizes num r by (simp add: search_entry_def nth_r_def)
    moreover have "if ?live then \<exists>ep<?n. r = Some ep else r = None"
    proof (cases r)
      case None
      then show ?thesis using find_first_None [of Not "h_tombstone h" ?n] r sizes
        by (auto simp: in_set_conv_nth)
    next
      case (Some i)
      then have "i < ?n" "\<not> h_tombstone h ! i" using find_first_Some [of _ "h_tombstone h" ?n i] r by auto
      then have ?live using sizes by (force simp: in_set_conv_nth)
      then show ?thesis using Some \<open>i < ?n\<close> by auto
    qed
    ultimately show ?thesis by blast
  qed
qed

text \<open>What a search returns, in terms of the scores \<open>sc\<close> of the nodes.\<close>

definition searched ::
    "bool \<Rightarrow> (nat \<Rightarrow> f32) \<Rightarrow> 's hnsw \<Rightarrow> int \<Rightarrow> (f32 \<times> 64 word) list \<Rightarrow> bool" where
  "searched b sc h k rs \<longleftrightarrow>
    (if False \<notin> set (h_tombstone h) then rs = []
     else \<exists>ep out. ep < h_num_vectors h \<and> layer_sound h 0 ep (cfg_ef_search (h_cfg h)) out
       \<and> (\<forall>p\<in>set out. snd p < h_num_vectors h) \<and> rs = search_result_of h k out
       \<and> (b \<longrightarrow> layer_best sc h 0 ep (cfg_ef_search (h_cfg h)) out))"

context vector_source
begin

lemma search_layer_wf:
  assumes srt: "desc_sorter srt" and wf: "hnsw_wf h" and ctx: "visit_ok ctx" and "0 \<le> layer"
    and env: "b \<Longrightarrow> env_ok h (vis_env ctx)"
    and ep: "ep < h_num_vectors h" and q: "b \<Longrightarrow> query_fits readable vector_at h query"
  shows "holdsR b (search_layer srt h query ep ef layer ctx) (\<lambda>(out, ctx').
    visit_ok ctx' \<and> (b \<longrightarrow> env_ok h (vis_env ctx')) \<and> layer_sound h layer ep ef out
      \<and> (\<forall>p\<in>set out. snd p < h_num_vectors h)
      \<and> (b \<longrightarrow> layer_best (score h query) h layer ep ef out))"
proof -
  have g: "graph_wf (cfg_M (h_cfg h)) (h_graph h)" "length (h_graph h) = h_num_vectors h"
    using wf by (simp_all add: hnsw_wf_def hnsw_sizes_def)
  have below: "i < h_num_vectors h" if "reaches h layer ep i" for i
    using reaches_below [OF g(1) _ that] ep g(2) by simp
  have "searchable readable vector_at h query layer ep" if b
    using q [OF that] below g(2) assms(4) by (auto simp: searchable_def query_fits_def)
  then have "holdsR b (search_layer srt h query ep ef layer ctx) (\<lambda>(out, ctx').
      visit_ok ctx' \<and> layer_sound h layer ep ef out
      \<and> (b \<longrightarrow> env_ok h (vis_env ctx') \<and> layer_best (score h query) h layer ep ef out))"
    by (intro search_layer_inv [OF srt ctx] env) simp_all
  then show ?thesis
    by (rule holdsR_mono) (auto simp: layer_sound_def dest: below)
qed

lemma descend_wf:
  assumes srt: "desc_sorter srt" and wf: "hnsw_wf h" and "1 \<le> layer"
    and q: "b \<Longrightarrow> query_fits readable vector_at h query"
    and s: "case s of (ep, ctx) \<Rightarrow> ep < h_num_vectors h \<and> visit_ok ctx \<and> (b \<longrightarrow> env_ok h (vis_env ctx))"
  shows "holdsR b (descend srt h query layer s)
    (\<lambda>(ep, ctx). ep < h_num_vectors h \<and> visit_ok ctx \<and> (b \<longrightarrow> env_ok h (vis_env ctx)))"
proof -
  obtain ep ctx where s2: "s = (ep, ctx)" by (cases s)
  have "snd (hd out) < h_num_vectors h" if "out \<noteq> []" "\<forall>p\<in>set out. snd p < h_num_vectors h" for out :: "scored list"
    using that hd_in_set by blast
  moreover have "0 \<le> layer" using assms(3) by simp
  ultimately show ?thesis
    unfolding descend_def s2 prod.case holdsR_bind
    using s s2 by (intro holdsR_mono [OF search_layer_wf [OF srt wf _ _ _ _ q]]) auto
qed

text \<open>From an entry point: the descent, the search of layer 0 and the collection.\<close>

lemma search_from_entry:
  assumes srt: "desc_sorter srt" and wf: "hnsw_wf h" and ctx: "visit_ok ctx"
    and env: "b \<Longrightarrow> env_ok h (vis_env ctx)" and q: "b \<Longrightarrow> query_fits readable vector_at h query"
    and ep: "ep < h_num_vectors h" and live: "False \<in> set (h_tombstone h)"
  shows "holdsR b (bindR (foldR (descend srt h query) (rev [1..h_max_layer h]) (ep, ctx)) (\<lambda>(ep, ctx).
        bindR (search_layer srt h query ep (cfg_ef_search (h_cfg h)) 0 ctx) (\<lambda>(candidates, ctx).
        bindR (collect_live h k candidates []) (\<lambda>out. Inr (out, ctx)))))
      (\<lambda>(rs, ctx'). visit_ok ctx' \<and> (b \<longrightarrow> env_ok h (vis_env ctx')) \<and> searched b (score h query) h k rs)"
proof -
  let ?n = "h_num_vectors h" and ?ef = "cfg_ef_search (h_cfg h)"
  have sizes: "length (h_tombstone h) = ?n" "length (h_id_map h) = ?n"
    using wf by (simp_all add: hnsw_wf_def hnsw_sizes_def)
  have down: "holdsR b (foldR (descend srt h query) (rev [1..h_max_layer h]) (ep, ctx))
      (\<lambda>(ep, ctx). ep < ?n \<and> visit_ok ctx \<and> (b \<longrightarrow> env_ok h (vis_env ctx)))"
    using ep ctx env descend_wf [OF srt wf _ q] by (intro holdsR_foldR) auto
  have last: "holdsR b (bindR (search_layer srt h query e ?ef 0 c) (\<lambda>(candidates, ctx).
        bindR (collect_live h k candidates []) (\<lambda>out. Inr (out, ctx))))
      (\<lambda>(rs, ctx'). visit_ok ctx' \<and> (b \<longrightarrow> env_ok h (vis_env ctx')) \<and> searched b (score h query) h k rs)"
    if e: "e < ?n" "visit_ok c" "b \<Longrightarrow> env_ok h (vis_env c)" for e c
    unfolding holdsR_bind
  proof (rule holdsR_mono [OF search_layer_wf [OF srt wf e(2) order_refl e(3) e(1) q]])
    fix x :: "scored list \<times> 's visit_ctx"
    assume x: "case x of (out, ctx') \<Rightarrow> visit_ok ctx' \<and> (b \<longrightarrow> env_ok h (vis_env ctx'))
      \<and> layer_sound h 0 e ?ef out \<and> (\<forall>p\<in>set out. snd p < ?n)
      \<and> (b \<longrightarrow> layer_best (score h query) h 0 e ?ef out)"
    obtain out c' where x2: "x = (out, c')" by (cases x)
    have "collect_live h k out [] = Inr (search_result_of h k out)"
      using x x2 sizes by (intro collect_live_spec) simp
    then show "holdsR b (case x of (candidates, ctx) \<Rightarrow>
        bindR (collect_live h k candidates []) (\<lambda>out. Inr (out, ctx)))
      (\<lambda>(rs, ctx'). visit_ok ctx' \<and> (b \<longrightarrow> env_ok h (vis_env ctx')) \<and> searched b (score h query) h k rs)"
      using x e(1) live unfolding x2 searched_def by simp blast
  qed
  show ?thesis
    unfolding holdsR_bind [of b "foldR _ _ _"] by (rule holdsR_mono [OF down]) (use last in auto)
qed

lemma search_spec:
  assumes srt: "desc_sorter srt" and wf: "hnsw_wf h" and ctx: "visit_ok ctx"
    and num: "h_num_vectors h < 2 ^ 32" and env: "b \<Longrightarrow> env_ok h (vis_env ctx)"
    and q: "b \<Longrightarrow> query_fits readable vector_at h query"
  shows "holdsR b (hnsw_search srt h query k ctx) (\<lambda>(rs, ctx').
    visit_ok ctx' \<and> (b \<longrightarrow> env_ok h (vis_env ctx')) \<and> searched b (score h query) h k rs)"
proof (cases "h_num_vectors h = 0")
  case True
  then have "h_tombstone h = []" using wf by (simp add: hnsw_wf_def hnsw_sizes_def)
  then show ?thesis using True ctx env by (simp add: hnsw_search_def searched_def)
next
  case False
  show ?thesis
  proof (cases "False \<in> set (h_tombstone h)")
    case True
    then show ?thesis
      using search_entry_spec [OF wf num False] search_from_entry [OF srt wf ctx env q _ True] False
      by (auto simp: hnsw_search_def)
  next
    case dead: False
    then show ?thesis
      using search_entry_spec [OF wf num False] False ctx env
      by (auto simp: hnsw_search_def searched_def)
  qed
qed

end

section \<open>Searching the index's own vectors\<close>

definition query_ok :: "'s hnsw \<Rightarrow> f32 list \<Rightarrow> bool" where
  "query_ok h query \<longleftrightarrow>
     h_dim h \<le> length query \<and> h_vec_accessor h = None
     \<and> (\<forall>i<h_num_vectors h. \<not> is_nan (node_score own_vector h query i))"

lemma query_ok_fits: "hnsw_wf h \<Longrightarrow> query_ok h query \<Longrightarrow> query_fits own_readable own_vector h query"
  using own_readable_sizes [of h] by (simp add: query_ok_def query_fits_def hnsw_wf_def)

lemma hnsw_search_spec:
  assumes srt: "desc_sorter srt" and wf: "hnsw_wf h" and ctx: "visit_ok ctx"
    and num: "h_num_vectors h < 2 ^ 32" and q: "b \<Longrightarrow> query_ok h query"
  shows "holdsR b (hnsw_search srt h query k ctx) (\<lambda>(rs, ctx'). visit_ok ctx' \<and>
    (if False \<notin> set (h_tombstone h) then rs = []
     else \<exists>ep out. ep < h_num_vectors h \<and> layer_sound h 0 ep (cfg_ef_search (h_cfg h)) out
       \<and> (\<forall>p\<in>set out. snd p < h_num_vectors h) \<and> rs = search_result_of h k out
       \<and> (b \<longrightarrow> layer_best (node_score own_vector h query) h 0 ep (cfg_ef_search (h_cfg h)) out)))"
  using own.search_spec [OF srt wf ctx num TrueI query_ok_fits [OF wf q], of b k]
  unfolding searched_def by simp

end
