(* ===== verification/Hnsw_Slots.thy ===== *)
theory Hnsw_Slots
  imports Hnsw_Search
begin

text \<open>
  \<open>HNSWIndex\<close> as an index of slots: insertion changes nothing but the graph besides adding
  its slot, on any index, and deletion marks the first slot of the id.  The interpretation
  of \<open>slot_index\<close> carries over what \<open>Slot_Index\<close> shows of deletions.
\<close>

section \<open>What insertion leaves alone\<close>

definition regraphed :: "'s hnsw \<Rightarrow> 's hnsw \<Rightarrow> bool" where
  "regraphed h h' \<longleftrightarrow> (\<exists>g. h' = h\<lparr>h_graph := g\<rparr>)"

lemma regraphed_refl [simp]: "regraphed h h"
  unfolding regraphed_def by (rule exI [of _ "h_graph h"]) simp

lemma regraphed_graph [simp]: "regraphed h (h\<lparr>h_graph := g\<rparr>)"
  unfolding regraphed_def by blast

lemma regraphed_trans: "regraphed h h' \<Longrightarrow> regraphed h' h'' \<Longrightarrow> regraphed h h''"
  by (auto simp: regraphed_def)

lemma inserted_regraph: "inserted i vec meta h0 h \<Longrightarrow> regraphed h h' \<Longrightarrow> inserted i vec meta h0 h'"
  by (auto simp: regraphed_def inserted_def)

lemma link_back_frame: "postR (link_back srt q lc nb (h, ctx)) (\<lambda>(h', ctx'). regraphed h h')"
  by (auto simp: link_back_def Let_def simp del: postR_bind intro!: postR_bind_any split: prod.splits)

lemma connect_layer_frame:
  "postR (connect_layer srt vec q lc (h, ep, ctx)) (\<lambda>(h', ep', ctx'). regraphed h h')"
proof -
  have links: "postR (foldR (link_back srt q lc) nbs (h1, c)) (\<lambda>(h', ctx'). regraphed h h')"
    if "regraphed h h1" for nbs h1 c
  proof (rule postR_foldR)
    fix x and s :: "'a hnsw \<times> 'a visit_ctx"
    assume "case s of (h', ctx') \<Rightarrow> regraphed h h'"
    then show "postR (link_back srt q lc x s) (\<lambda>(h', ctx'). regraphed h h')"
      using link_back_frame by (cases s) (fastforce elim!: postR_mono intro: regraphed_trans)
  qed (use that in simp)
  have "postR (set_links q lc nbs h) (regraphed h)" for nbs
    by (auto simp: postR_iff set_links_def bindR_Inr_iff)
  then show ?thesis
    using links unfolding connect_layer_def
    by (fastforce simp: postR_iff bindR_Inr_iff Let_def split: prod.splits)
qed

lemma connect_layers_frame:
  "postR (foldR (connect_layer srt vec q) lcs (h, ep, ctx)) (\<lambda>(h', ep', ctx'). regraphed h h')"
proof (rule postR_foldR)
  fix x and s :: "'a hnsw \<times> nat \<times> 'a visit_ctx"
  assume "case s of (h', ep', ctx') \<Rightarrow> regraphed h h'"
  then show "postR (connect_layer srt vec q x s) (\<lambda>(h', ep', ctx'). regraphed h h')"
    using connect_layer_frame by (cases s) (fastforce elim!: postR_mono intro: regraphed_trans)
qed simp

lemma hnsw_insert_frame:
  fixes h :: "'s hnsw"
  shows "postR (hnsw_insert srt logf val i vec meta (h, ctx))
    (\<lambda>(h', ctx'). h_dim h \<le> length vec \<and> inserted i vec meta h h')"
proof -
  let ?q = "h_num_vectors h mod 2 ^ 32" and ?P = "\<lambda>h'. h_dim h \<le> length vec \<and> inserted i vec meta h h'"
  have up: "inserted i vec meta h (h2\<lparr>h_max_layer := a, h_entry_point := e\<rparr>) = inserted i vec meta h h2"
    for h2 a e
    by (simp add: inserted_def)
  have slot: "postR (new_slot i vec meta level h) ?P" for level
    by (auto simp: new_slot_def inserted_def)
  have layers: "postR (bindR (foldR (connect_layer srt vec ?q) lcs (h1, ep, c)) (\<lambda>(h, ep, ctx).
      Inr (if h_max_layer h < level then h\<lparr>h_max_layer := level, h_entry_point := ?q\<rparr> else h, ctx)))
    (\<lambda>(h', ctx'). ?P h')" if "?P h1" for lcs h1 ep c level
    unfolding postR_bind
    by (rule postR_mono [OF connect_layers_frame]) (use that inserted_regraph in \<open>auto simp: up\<close>)
  have main: "postR (if ?q = 0 then Inr (h1\<lparr>h_max_layer := level, h_entry_point := 0\<rparr>, ctx)
      else let cur = h_max_layer h1 in
       bindR (foldR (descend srt h1 vec) (rev [level + 1..cur]) (h_entry_point h1, ctx))
         (\<lambda>(ep, ctx).
       bindR (foldR (connect_layer srt vec ?q) (rev [0..min level cur]) (h1, ep, ctx))
         (\<lambda>(h, ep, ctx).
       Inr (if h_max_layer h < level then h\<lparr>h_max_layer := level, h_entry_point := ?q\<rparr> else h,
            ctx)))) (\<lambda>(h', ctx'). ?P h')" if h1: "?P h1" for h1 level
  proof (cases "?q = 0")
    case False
    show ?thesis
      unfolding Let_def if_not_P [OF False]
      by (intro postR_bind_any, unfold case_prod_beta, rule layers [OF h1, unfolded case_prod_beta])
  qed (use h1 in \<open>simp add: up\<close>)
  show ?thesis
    unfolding hnsw_insert_def prod.case Let_def [of ?q]
    by (intro postR_bind_any postR_bindI [OF slot] main)
qed

lemma hnsw_insert_inserted:
  "hnsw_insert srt logf val i vec meta (h, ctx) = Inr (h', ctx') \<Longrightarrow>
    h_dim h \<le> length vec \<and> inserted i vec meta h h'"
  using hnsw_insert_frame [of srt logf val i vec meta h ctx] by simp

section \<open>Slots\<close>

definition hnsw_slots :: "'s hnsw \<Rightarrow> slot list" where
  "hnsw_slots h = zip (h_id_map h) (h_tombstone h)"

definition slots_sized :: "'s hnsw \<Rightarrow> bool" where
  "slots_sized h \<longleftrightarrow> length (h_id_map h) = h_num_vectors h \<and> length (h_tombstone h) = h_num_vectors h"

lemma hnsw_sizes_slots [simp]: "hnsw_sizes h \<Longrightarrow> slots_sized h"
  by (simp add: hnsw_sizes_def slots_sized_def)

definition hnsw_inserts :: "'s hnsw \<Rightarrow> 64 word \<Rightarrow> 's hnsw \<Rightarrow> bool" where
  "hnsw_inserts h i h' \<longleftrightarrow> slots_sized h
     \<and> (\<exists>srt logf val vec meta ctx ctx'. hnsw_insert srt logf val i vec meta (h, ctx) = Inr (h', ctx'))"

definition hnsw_deletes :: "'s hnsw \<Rightarrow> 64 word \<Rightarrow> 's hnsw \<Rightarrow> bool" where
  "hnsw_deletes h i h' \<longleftrightarrow> slots_sized h \<and> hnsw_delete i h = Inr h'"

lemma find_first_mark:
  assumes "find_first (\<lambda>j. j = i) ids (length ids) = Inr r" and "length ts = length ids"
  shows "mark_slot i (zip ids ts) = zip ids (case r of None \<Rightarrow> ts | Some k \<Rightarrow> ts[k := True])"
  using assms
proof (induction ids arbitrary: ts r)
  case (Cons j ids)
  obtain t us where ts: "ts = t # us" using Cons.prems(2) by (cases ts) auto
  show ?case
  proof (cases "j = i")
    case False
    then obtain r' where "find_first (\<lambda>j. j = i) ids (length ids) = Inr r'" "r = map_option Suc r'"
      using Cons.prems(1) by (auto simp: bindR_Inr_iff)
    with Cons.IH [OF this(1), of us] Cons.prems(2) False show ?thesis
      by (cases r') (auto simp: ts)
  qed (use Cons.prems ts in auto)
qed simp

lemma hnsw_delete_defined:
  assumes "slots_sized h"
  shows "\<exists>ts. hnsw_delete i h = Inr (h\<lparr>h_tombstone := ts\<rparr>) \<and> length ts = h_num_vectors h
    \<and> zip (h_id_map h) ts = mark_slot i (zip (h_id_map h) (h_tombstone h))"
proof -
  have n: "h_num_vectors h = length (h_id_map h)" "length (h_tombstone h) = length (h_id_map h)"
    using assms by (simp_all add: slots_sized_def)
  obtain r where r: "find_first (\<lambda>j. j = i) (h_id_map h) (length (h_id_map h)) = Inr r"
    using find_first_defined by blast
  show ?thesis
  proof (cases r)
    case None
    then show ?thesis using r n find_first_mark [OF r n(2)]
      by (intro exI [of _ "h_tombstone h"]) (simp add: hnsw_delete_def)
  next
    case (Some k)
    then have "k < length (h_id_map h)" using find_first_Some [of _ "h_id_map h" _ k] r by blast
    then show ?thesis using Some r n find_first_mark [OF r n(2)]
      by (intro exI [of _ "(h_tombstone h)[k := True]"]) (simp add: hnsw_delete_def upd_r_def)
  qed
qed

interpretation hnsw: slot_index hnsw_slots hnsw_inserts hnsw_deletes
proof
  fix h h' :: "'s hnsw" and i
  show "hnsw_inserts h i h' \<Longrightarrow> hnsw_slots h' = hnsw_slots h @ [(i, False)]"
    using hnsw_insert_inserted by (fastforce simp: hnsw_inserts_def hnsw_slots_def inserted_def slots_sized_def)
  show "hnsw_deletes h i h' \<Longrightarrow> hnsw_slots h' = mark_slot i (hnsw_slots h)"
    using hnsw_delete_defined [of h i] by (auto simp: hnsw_deletes_def hnsw_slots_def)
qed

lemma hnsw_slots_ids: "slots_sized h \<Longrightarrow> map fst (hnsw_slots h) = h_id_map h"
  by (simp add: hnsw_slots_def slots_sized_def)

lemma marked_slot: "(x, False) \<notin> S \<Longrightarrow> (x, True) \<in> S \<longleftrightarrow> x \<in> fst ` S"
proof -
  assume "(x, False) \<notin> S"
  moreover have "x \<in> fst ` S \<longleftrightarrow> (\<exists>d. (x, d) \<in> S)" by force
  ultimately show ?thesis by (simp add: ex_bool_eq)
qed

text \<open>A deletion only sets marks.\<close>

lemma hnsw_delete_marks:
  assumes "slots_sized h" and "hnsw_delete i h = Inr h'"
  obtains ts where "h' = h\<lparr>h_tombstone := ts\<rparr>" and "length ts = h_num_vectors h"
  using hnsw_delete_defined [OF assms(1), of i] assms(2) by auto

lemma hnsw_wf_marks: "hnsw_wf h \<Longrightarrow> length ts = h_num_vectors h \<Longrightarrow> hnsw_wf (h\<lparr>h_tombstone := ts\<rparr>)"
  by (auto simp: hnsw_wf_def hnsw_sizes_def levels_wf_def)

lemma hnsw_delete_keeps:
  assumes "hnsw_wf h" and "hnsw_delete i h = Inr h'"
  shows "hnsw_wf h'"
proof -
  have sizes: "hnsw_sizes h" using assms(1) by (simp add: hnsw_wf_def)
  obtain ts where "h' = h\<lparr>h_tombstone := ts\<rparr>" "length ts = h_num_vectors h"
    by (rule hnsw_delete_marks [OF hnsw_sizes_slots [OF sizes] assms(2)])
  then show ?thesis using hnsw_wf_marks [OF assms(1)] by simp
qed

lemma hnsw_is_deleted_slots:
  assumes "hnsw_sizes h" and "distinct (h_id_map h)"
  shows "hnsw_is_deleted h x = Inr ((x, True) \<in> set (hnsw_slots h))"
proof -
  let ?ids = "h_id_map h" and ?ts = "h_tombstone h"
  have n: "h_num_vectors h = length ?ids" "length ?ts = length ?ids"
    using assms(1) by (simp_all add: hnsw_sizes_def)
  obtain r where r: "find_first (\<lambda>j. j = x) ?ids (length ?ids) = Inr r"
    using find_first_defined by blast
  show ?thesis
  proof (cases r)
    case None
    then show ?thesis using r n find_first_None [of _ ?ids "length ?ids"]
      by (auto simp: hnsw_is_deleted_def hnsw_slots_def set_zip)
  next
    case (Some k)
    then have k: "k < length ?ids" "?ids ! k = x" using find_first_Some [of _ ?ids _ k] r by blast+
    then have "(x, True) \<in> set (zip ?ids ?ts) \<longleftrightarrow> ?ts ! k"
      using assms(2) n by (auto simp: set_zip nth_eq_iff_index_eq)
    then show ?thesis using k Some r n by (simp add: hnsw_is_deleted_def hnsw_slots_def nth_r_def)
  qed
qed

lemma live_ids_hnsw:
  "x \<in> set (live_ids (hnsw_slots h)) \<longleftrightarrow>
    (\<exists>j<min (length (h_id_map h)) (length (h_tombstone h)). h_id_map h ! j = x \<and> \<not> h_tombstone h ! j)"
  by (force simp: live_ids_def hnsw_slots_def set_zip)

lemma hnsw_live_size_slots: "hnsw_sizes h \<Longrightarrow> hnsw_live_size h = length (live_ids (hnsw_slots h))"
proof -
  have "length (filter (\<lambda>t. \<not> t) ts) = length (live_ids (zip ids ts))" if "length ids = length ts"
    for ids :: "64 word list" and ts
    using that by (induction ids ts rule: list_induct2) auto
  then show "hnsw_sizes h \<Longrightarrow> ?thesis"
    by (simp add: hnsw_live_size_def hnsw_slots_def hnsw_sizes_def)
qed

end
