(* ===== verification/Vector_Store.thy ===== *)
theory Vector_Store
  imports Distance Std_Algo Slot_Index
begin

text \<open>
  \<open>FlatIndex\<close> (\<open>include/vector_store.hpp\<close>, \<open>src/vector_store.cpp\<close>): the brute-force
  index.  A deleted vector stays in place until \<open>compact\<close>; a search scores every vector,
  gives the deleted ones minus infinity, and takes the best \<open>k\<close>.  The OpenMP loop writes
  slot \<open>i\<close> from vector \<open>i\<close> only, so it is a map.  Sizes are below \<open>2^31\<close>, so that the
  code's \<open>int n\<close> is the size.
\<close>

section \<open>State and operations\<close>

record vector =
  vec_id :: "64 word"
  vec_metadata :: string
  vec_data :: "f32 list"
  vec_deleted :: bool

record search_result =
  sr_id :: "64 word"
  sr_score :: f32
  sr_metadata :: string

record flat_index =
  fi_dim :: nat
  fi_vectors :: "vector list"

definition flat_new :: "nat \<Rightarrow> flat_index" where
  "flat_new d = \<lparr>fi_dim = d, fi_vectors = []\<rparr>"

text \<open>\<open>insert(id, const float*, metadata)\<close>: copies \<open>dim_\<close> floats from the pointer.\<close>

definition flat_insert ::
    "flat_index \<Rightarrow> 64 word \<Rightarrow> f32 list \<Rightarrow> string \<Rightarrow> flat_index res" where
  "flat_insert fi i vec meta =
     bindR (slice_r vec 0 (fi_dim fi)) (\<lambda>d.
       Inr (fi\<lparr>fi_vectors := fi_vectors fi @
              [\<lparr>vec_id = i, vec_metadata = meta, vec_data = d, vec_deleted = False\<rparr>]\<rparr>))"

text \<open>\<open>insert(id, const std::vector<float>&, metadata)\<close>.\<close>

definition flat_insert_vec ::
    "flat_index \<Rightarrow> 64 word \<Rightarrow> f32 list \<Rightarrow> string \<Rightarrow> flat_index res" where
  "flat_insert_vec fi i vec meta =
     bindR (guardR (length vec = fi_dim fi) (Invalid_Argument ''vector dimension mismatch''))
       (\<lambda>_. flat_insert fi i vec meta)"

text \<open>The loop of \<open>delete_vector\<close> stops at the first vector with the id.\<close>

fun mark_first :: "64 word \<Rightarrow> vector list \<Rightarrow> vector list" where
  "mark_first i [] = []"
| "mark_first i (v # vs) =
     (if vec_id v = i then v\<lparr>vec_deleted := True\<rparr> # vs else v # mark_first i vs)"

definition flat_delete :: "flat_index \<Rightarrow> 64 word \<Rightarrow> flat_index" where
  "flat_delete fi i = fi\<lparr>fi_vectors := mark_first i (fi_vectors fi)\<rparr>"

definition flat_compact :: "flat_index \<Rightarrow> flat_index" where
  "flat_compact fi = fi\<lparr>fi_vectors := filter (\<lambda>v. \<not> vec_deleted v) (fi_vectors fi)\<rparr>"

definition flat_size :: "flat_index \<Rightarrow> nat" where
  "flat_size fi = length (fi_vectors fi)"

definition flat_live_size :: "flat_index \<Rightarrow> nat" where
  "flat_live_size fi = length (filter (\<lambda>v. \<not> vec_deleted v) (fi_vectors fi))"

text \<open>\<open>==\<close> on floats.\<close>

definition f32_eq :: "f32 \<Rightarrow> f32 \<Rightarrow> bool" where
  "f32_eq a b = (\<not> is_nan a \<and> \<not> is_nan b \<and> f32_key a = f32_key b)"

text \<open>The body of the scoring loop, for the vectors the guard \<open>g\<close> admits.\<close>

definition score_entry ::
    "(vector \<Rightarrow> bool) \<Rightarrow> flat_index \<Rightarrow> f32 list \<Rightarrow> nat \<times> vector \<Rightarrow> scored res" where
  "score_entry g fi query iv = (case iv of (i, v) \<Rightarrow>
     (if g v then bindR (cosine_similarity_avx2 query (vec_data v) (fi_dim fi)) (\<lambda>s. Inr (s, i))
      else Inr (- f32_infinity, i)))"

text \<open>The loop that turns the best scores into results, up to the first minus infinity.\<close>

definition collect_results :: "flat_index \<Rightarrow> scored list \<Rightarrow> search_result list res" where
  "collect_results fi scores =
     mapR (\<lambda>(score, idx). bindR (nth_r (fi_vectors fi) idx) (\<lambda>v.
             Inr \<lparr>sr_id = vec_id v, sr_score = score, sr_metadata = vec_metadata v\<rparr>))
       (takeWhile (\<lambda>(score, idx). \<not> f32_eq score (- f32_infinity)) scores)"

definition flat_search_with ::
    "(nat \<Rightarrow> scored list \<Rightarrow> scored list) \<Rightarrow> (vector \<Rightarrow> bool) \<Rightarrow> flat_index \<Rightarrow> f32 list \<Rightarrow> int
      \<Rightarrow> search_result list res" where
  "flat_search_with ps g fi query k =
     (if fi_vectors fi = [] then Inr []
      else bindR (mapR (score_entry g fi query) (enumerate 0 (fi_vectors fi))) (\<lambda>scores.
           bindR (std_partial_sort ps (min k (int (length (fi_vectors fi)))) scores) (\<lambda>sorted.
             collect_results fi (take (nat (min k (int (length (fi_vectors fi))))) sorted))))"

definition flat_search ::
    "(nat \<Rightarrow> scored list \<Rightarrow> scored list) \<Rightarrow> flat_index \<Rightarrow> f32 list \<Rightarrow> int \<Rightarrow> search_result list res" where
  "flat_search ps = flat_search_with ps (\<lambda>v. \<not> vec_deleted v)"

definition flat_search_vec ::
    "(nat \<Rightarrow> scored list \<Rightarrow> scored list) \<Rightarrow> flat_index \<Rightarrow> f32 list \<Rightarrow> int \<Rightarrow> search_result list res" where
  "flat_search_vec ps fi query k =
     bindR (guardR (length query = fi_dim fi) (Invalid_Argument ''query dimension mismatch''))
       (\<lambda>_. flat_search ps fi query k)"

definition flat_search_filtered ::
    "(nat \<Rightarrow> scored list \<Rightarrow> scored list) \<Rightarrow> flat_index \<Rightarrow> f32 list \<Rightarrow> int \<Rightarrow> (string \<Rightarrow> bool)
      \<Rightarrow> search_result list res" where
  "flat_search_filtered ps fi query k filter_fn =
     flat_search_with ps (\<lambda>v. \<not> vec_deleted v \<and> filter_fn (vec_metadata v)) fi query k"

section \<open>Well-formed indexes\<close>

definition flat_wf :: "flat_index \<Rightarrow> bool" where
  "flat_wf fi = list_all (\<lambda>v. length (vec_data v) = fi_dim fi) (fi_vectors fi)"

lemma flat_wf_new [simp]: "flat_wf (flat_new d)"
  by (simp add: flat_wf_def flat_new_def)

lemma flat_insert_wf: "flat_wf fi \<Longrightarrow> postR (flat_insert fi i vec meta) flat_wf"
  by (simp add: flat_insert_def flat_wf_def)

lemma list_all_mark_first:
  "list_all P (mark_first i vs) = list_all P vs"
  if "\<And>v. P (v\<lparr>vec_deleted := True\<rparr>) = P v"
  using that by (induction vs) auto

lemma flat_delete_wf: "flat_wf fi \<Longrightarrow> flat_wf (flat_delete fi i)"
  by (simp add: flat_delete_def flat_wf_def list_all_mark_first)

lemma flat_compact_wf: "flat_wf fi \<Longrightarrow> flat_wf (flat_compact fi)"
  by (auto simp: flat_compact_def flat_wf_def list_all_iff)

section \<open>What a search returns\<close>

definition flat_score :: "flat_index \<Rightarrow> f32 list \<Rightarrow> nat \<Rightarrow> f32" where
  "flat_score fi query i =
     (case cosine_similarity_avx2 query (vec_data (fi_vectors fi ! i)) (fi_dim fi) of
        Inr s \<Rightarrow> s | Inl _ \<Rightarrow> 0)"

definition eligible :: "(vector \<Rightarrow> bool) \<Rightarrow> flat_index \<Rightarrow> nat list" where
  "eligible g fi = filter (\<lambda>i. g (fi_vectors fi ! i)) [0..<length (fi_vectors fi)]"

definition result_of :: "flat_index \<Rightarrow> f32 list \<Rightarrow> nat \<Rightarrow> search_result" where
  "result_of fi query i =
     \<lparr>sr_id = vec_id (fi_vectors fi ! i), sr_score = flat_score fi query i,
      sr_metadata = vec_metadata (fi_vectors fi ! i)\<rparr>"

lemma set_eligible: "i \<in> set (eligible g fi) \<longleftrightarrow> i < length (fi_vectors fi) \<and> g (fi_vectors fi ! i)"
  by (simp add: eligible_def)

lemma distinct_eligible [simp]: "distinct (eligible g fi)"
  by (simp add: eligible_def)

text \<open>The scored entries: the score of an eligible vector, minus infinity otherwise.\<close>

lemma score_entries:
  assumes "mapR (score_entry g fi query) (enumerate 0 (fi_vectors fi)) = Inr scores"
  shows "scores = map (\<lambda>i. (if g (fi_vectors fi ! i) then flat_score fi query i
                            else - f32_infinity, i)) [0..<length (fi_vectors fi)]"
proof (rule nth_equalityI)
  have *: "length scores = length (fi_vectors fi)
    \<and> (\<forall>i<length (fi_vectors fi). score_entry g fi query (i, fi_vectors fi ! i) = Inr (scores ! i))"
    using mapR_Inr_nth [OF assms] by (auto simp: nth_enumerate_eq)
  then show "length scores = length (map (\<lambda>i. (if g (fi_vectors fi ! i) then flat_score fi query i
      else - f32_infinity, i)) [0..<length (fi_vectors fi)])" by simp
  fix i
  assume "i < length scores"
  with * have "score_entry g fi query (i, fi_vectors fi ! i) = Inr (scores ! i)"
    and "i < length (fi_vectors fi)" by auto
  then show "scores ! i = map (\<lambda>i. (if g (fi_vectors fi ! i) then flat_score fi query i
      else - f32_infinity, i)) [0..<length (fi_vectors fi)] ! i"
    by (auto simp: score_entry_def flat_score_def bindR_Inr_iff split: if_splits)
qed

lemma f32_eq_minus_infinity: "f32_eq a (- f32_infinity) \<longleftrightarrow> a = - f32_infinity"
  using f32_key_inj [of a "- f32_infinity"] by (auto simp: f32_eq_def)

lemma not_eq_minus_infinity:
  "\<not> is_nan a \<Longrightarrow> \<not> f32_eq a (- f32_infinity) \<longleftrightarrow> - f32_infinity < a"
  using f32_above_minus_infinity [of a] by (auto simp: f32_eq_minus_infinity)

lemma collect_results_eq:
  assumes "collect_results fi ps = Inr rs"
    and "\<forall>p\<in>set ps. - f32_infinity \<noteq> fst p \<longrightarrow> fst p = flat_score fi query (snd p)"
  shows "rs = map (result_of fi query) (map snd (takeWhile (\<lambda>p. fst p \<noteq> - f32_infinity) ps))"
proof (rule nth_equalityI)
  let ?T = "takeWhile (\<lambda>p. fst p \<noteq> - f32_infinity) ps"
  have T: "takeWhile (\<lambda>(score, idx). \<not> f32_eq score (- f32_infinity)) ps = ?T"
    by (rule takeWhile_cong) (auto simp: f32_eq_minus_infinity)
  have *: "length rs = length ?T \<and> (\<forall>i<length ?T.
      bindR (nth_r (fi_vectors fi) (snd (?T ! i))) (\<lambda>v.
        Inr \<lparr>sr_id = vec_id v, sr_score = fst (?T ! i), sr_metadata = vec_metadata v\<rparr>) = Inr (rs ! i))"
    using mapR_Inr_nth [OF assms(1) [unfolded collect_results_def T]] by (simp add: split_beta)
  then show "length rs = length (map (result_of fi query) (map snd ?T))" by simp
  fix i
  assume "i < length rs"
  with * have i: "i < length ?T" by simp
  then have "?T ! i \<in> set ps" "fst (?T ! i) \<noteq> - f32_infinity"
    using set_takeWhileD [OF nth_mem [OF i]] by blast+
  with assms(2) have "fst (?T ! i) = flat_score fi query (snd (?T ! i))" by metis
  with * i show "rs ! i = map (result_of fi query) (map snd ?T) ! i"
    by (auto simp: result_of_def nth_r_def split: if_splits)
qed

text \<open>One successful run of a search on a non-empty index.\<close>

lemma flat_search_with_run:
  assumes "partial_sorter ps" and "flat_search_with ps g fi query k = Inr rs"
    and "fi_vectors fi \<noteq> []"
  obtains S T where "S = map (\<lambda>i. (if g (fi_vectors fi ! i) then flat_score fi query i
        else - f32_infinity, i)) [0..<length (fi_vectors fi)]"
    and "keys_ok S" and "0 \<le> k" and "T = take (min (nat k) (length S)) (ps (min (nat k) (length S)) S)"
    and "rs = map (result_of fi query) (map snd (takeWhile (\<lambda>p. fst p \<noteq> - f32_infinity) T))"
proof -
  let ?n = "length (fi_vectors fi)"
  obtain S sorted where S: "mapR (score_entry g fi query) (enumerate 0 (fi_vectors fi)) = Inr S"
    and sorted: "std_partial_sort ps (min k (int ?n)) S = Inr sorted"
    and rs: "collect_results fi (take (nat (min k (int ?n))) sorted) = Inr rs"
    using assms(2,3) by (auto simp: flat_search_with_def bindR_Inr_iff)
  have len: "length S = ?n" using mapR_Inr_nth [OF S] by simp
  have m: "nat (min k (int ?n)) = min (nat k) (length S)" using len by (auto simp: min_def)
  have ok: "keys_ok S" "0 \<le> k" and ps: "sorted = ps (min (nat k) (length S)) S"
    using sorted m by (auto simp: std_partial_sort_def guardR_def split: if_splits)
  let ?T = "take (min (nat k) (length S)) (ps (min (nat k) (length S)) S)"
  have "set ?T \<subseteq> set S"
    using partial_sorter.set_ps [OF assms(1) ok(1), of "min (nat k) (length S)"]
    by (metis min.cobounded2 set_take_subset)
  then have "\<forall>p\<in>set ?T. - f32_infinity \<noteq> fst p \<longrightarrow> fst p = flat_score fi query (snd p)"
    by (auto simp: score_entries [OF S] split: if_splits)
  with rs m ps have
    "rs = map (result_of fi query) (map snd (takeWhile (\<lambda>p. fst p \<noteq> - f32_infinity) ?T))"
    by (intro collect_results_eq) auto
  with that [OF score_entries [OF S] ok refl] show ?thesis by blast
qed

text \<open>
  Every search returns results of distinct admitted vectors, with their scores, best first.
\<close>

lemma flat_search_with_sound:
  assumes ps: "partial_sorter ps" and run: "flat_search_with ps g fi query k = Inr rs"
    and nonempty: "fi_vectors fi \<noteq> []"
  obtains S T idxs where "idxs = map snd (takeWhile (\<lambda>p. fst p \<noteq> - f32_infinity) T)"
    and "rs = map (result_of fi query) idxs" and "distinct idxs"
    and "set idxs \<subseteq> set (eligible g fi)"
    and "sorted_wrt (\<lambda>i j. \<not> flat_score fi query i < flat_score fi query j) idxs"
    and "S = map (\<lambda>i. (if g (fi_vectors fi ! i) then flat_score fi query i
        else - f32_infinity, i)) [0..<length (fi_vectors fi)]"
    and "keys_ok S" and "0 \<le> k"
    and "T = take (min (nat k) (length S)) (ps (min (nat k) (length S)) S)"
proof -
  obtain S T where S: "S = map (\<lambda>i. (if g (fi_vectors fi ! i) then flat_score fi query i
        else - f32_infinity, i)) [0..<length (fi_vectors fi)]"
    and ok: "keys_ok S" "0 \<le> k"
    and T: "T = take (min (nat k) (length S)) (ps (min (nat k) (length S)) S)"
    and rs: "rs = map (result_of fi query) (map snd (takeWhile (\<lambda>p. fst p \<noteq> - f32_infinity) T))"
    by (rule flat_search_with_run [OF ps run nonempty])
  let ?W = "takeWhile (\<lambda>p. fst p \<noteq> - f32_infinity) T"
  obtain j where W: "?W = take j T" by (metis takeWhile_eq_take)
  have set_T: "set T \<subseteq> set S"
    unfolding T using partial_sorter.set_ps [OF ps ok(1), of "min (nat k) (length S)"]
    by (metis min.cobounded2 set_take_subset)
  have W_sound: "g (fi_vectors fi ! snd p) \<and> snd p < length (fi_vectors fi)
      \<and> fst p = flat_score fi query (snd p)" if "p \<in> set ?W" for p
    using set_takeWhileD [OF that] set_T by (auto simp: S split: if_splits)
  have "distinct (map snd (ps (min (nat k) (length S)) S))"
    using mset_perm_distinct_map [OF partial_sorter.ps_perm [OF ps ok(1)], of _ snd]
    by (simp add: S comp_def)
  then have "distinct (map snd T)"
    unfolding T by (simp add: distinct_take flip: take_map)
  then have dist: "distinct (map snd ?W)"
    unfolding W by (simp add: distinct_take flip: take_map)
  have "desc_sorted T"
    unfolding T by (rule partial_sorter.ps_sorted [OF ps ok(1)]) simp
  then have "desc_sorted ?W" by (simp add: W desc_sorted_def sorted_wrt_take)
  then have "sorted_wrt (\<lambda>i j. \<not> flat_score fi query i < flat_score fi query j) (map snd ?W)"
    unfolding desc_sorted_def sorted_wrt_map
    by (rule sorted_wrt_mono_rel [rotated]) (simp add: W_sound)
  moreover have "set (map snd ?W) \<subseteq> set (eligible g fi)"
    using W_sound by (fastforce simp: set_eligible)
  ultimately show ?thesis by (intro that [OF refl rs dist _ _ S ok T])
qed

lemma flat_search_with_top_k:
  assumes ps: "partial_sorter ps" and run: "flat_search_with ps g fi query k = Inr rs"
    and above: "\<forall>i\<in>set (eligible g fi). flat_score fi query i \<noteq> - f32_infinity"
  shows "\<exists>idxs. rs = map (result_of fi query) idxs
    \<and> is_top_k (flat_score fi query) (eligible g fi) (nat k) idxs"
proof (cases "fi_vectors fi = []")
  case True
  then show ?thesis using run by (auto simp: flat_search_with_def is_top_k_def eligible_def)
next
  case False
  obtain S T idxs where idxs: "idxs = map snd (takeWhile (\<lambda>p. fst p \<noteq> - f32_infinity) T)"
    and sound: "rs = map (result_of fi query) idxs" "distinct idxs"
      "set idxs \<subseteq> set (eligible g fi)"
      "sorted_wrt (\<lambda>i j. \<not> flat_score fi query i < flat_score fi query j) idxs"
    and S: "S = map (\<lambda>i. (if g (fi_vectors fi ! i) then flat_score fi query i
        else - f32_infinity, i)) [0..<length (fi_vectors fi)]"
    and ok: "keys_ok S" "0 \<le> k"
    and T: "T = take (min (nat k) (length S)) (ps (min (nat k) (length S)) S)"
    by (rule flat_search_with_sound [OF ps run False])
  let ?m = "min (nat k) (length S)" and ?sc = "flat_score fi query"
  note set_ps = partial_sorter.set_ps [OF ps ok(1), of ?m]
    and len_ps = partial_sorter.length_ps [OF ps ok(1), of ?m]
  have ps_split: "set (ps ?m S) = set T \<union> set (drop ?m (ps ?m S))"
    unfolding T by (metis append_take_drop_id set_append)
  have len_T: "length T = ?m" using len_ps by (simp add: T)
  have ok_T: "keys_ok T" and sorted_T: "desc_sorted T"
    using ok(1) set_ps partial_sorter.ps_sorted [OF ps ok(1), of ?m]
    by (auto simp: T keys_ok_iff dest: in_set_takeD)
  have W: "takeWhile (\<lambda>p. fst p \<noteq> - f32_infinity) T = filter (\<lambda>p. fst p \<noteq> - f32_infinity) T"
    by (rule takeWhile_above_minus_infinity [OF sorted_T ok_T])
  have T_score: "fst p = ?sc (snd p)" if "p \<in> set T" "fst p \<noteq> - f32_infinity" for p
  proof -
    have "p \<in> set S" using that(1) set_ps ps_split by auto
    then show ?thesis using that(2) by (auto simp: S split: if_splits)
  qed
  text \<open>An eligible vector that is left out was sorted behind the first \<open>k\<close>.\<close>
  have "length idxs = nat k \<and> (\<forall>i\<in>set idxs. \<not> ?sc i < ?sc j)"
    if j: "j \<in> set (eligible g fi) - set idxs" for j
  proof -
    have j_above: "?sc j \<noteq> - f32_infinity" using j above by blast
    have S_j: "(?sc j, j) \<in> set S" using j by (auto simp: S set_eligible)
    then have "(?sc j, j) \<in> set (ps ?m S)" using set_ps by simp
    moreover have "(?sc j, j) \<notin> set T" using j j_above by (force simp: idxs W)
    ultimately have D: "(?sc j, j) \<in> set (drop ?m (ps ?m S))" using ps_split by blast
    then have m: "?m = nat k" "nat k < length S"
      using len_ps by (auto simp: min_def dest!: length_pos_if_in_set split: if_splits)
    have best: "\<not> fst p < ?sc j" if "p \<in> set T" for p
      using partial_sorter.ps_best [OF ps ok(1) _ _ D] that by (simp add: T)
    have "fst p \<noteq> - f32_infinity" if p: "p \<in> set T" for p
    proof
      assume "fst p = - f32_infinity"
      moreover have "\<not> is_nan (?sc j)"
      proof -
        have "0 < length T" using p by (rule length_pos_if_in_set)
        then have "1 < length S" using m len_T by linarith
        then show ?thesis using ok(1) S_j by (auto simp: keys_ok_iff dest!: bspec)
      qed
      ultimately show False using best [OF p] f32_above_minus_infinity [OF _ j_above] by simp
    qed
    then have "filter (\<lambda>p. fst p \<noteq> - f32_infinity) T = T" by simp
    then have "idxs = map snd T" by (simp add: idxs W)
    then show ?thesis using best T_score m len_T \<open>\<And>p. p \<in> set T \<Longrightarrow> fst p \<noteq> - f32_infinity\<close>
      by force
  qed
  moreover have "length idxs \<le> nat k"
    using length_takeWhile_le [of _ T] len_T by (simp add: idxs)
  ultimately have "is_top_k ?sc (eligible g fi) (nat k) idxs"
    using sound by (intro is_top_kI) auto
  with sound(1) show ?thesis by blast
qed

section \<open>A search that is defined\<close>

lemma flat_search_with_defined:
  assumes ps: "partial_sorter ps" and wf: "flat_wf fi" and q: "fi_dim fi \<le> length query"
    and k: "0 \<le> k" and num: "\<forall>i\<in>set (eligible g fi). \<not> is_nan (flat_score fi query i)"
  shows "\<exists>rs. flat_search_with ps g fi query k = Inr rs"
proof (cases "fi_vectors fi = []")
  case False
  let ?n = "length (fi_vectors fi)"
  have "\<exists>y. score_entry g fi query iv = Inr y" if "iv \<in> set (enumerate 0 (fi_vectors fi))" for iv
  proof -
    have "snd iv \<in> set (fi_vectors fi)" using that imageI [of iv _ snd] by (metis map_snd_enumerate set_map)
    then have "\<exists>s. cosine_similarity_avx2 query (vec_data (snd iv)) (fi_dim fi) = Inr s"
      using wf q by (intro cosine_similarity_avx2_defined) (auto simp: flat_wf_def list_all_iff)
    then show ?thesis by (auto simp: score_entry_def split_beta)
  qed
  then obtain S where S: "mapR (score_entry g fi query) (enumerate 0 (fi_vectors fi)) = Inr S"
    using mapR_defined by blast
  note S_eq = score_entries [OF S]
  have ok: "keys_ok S"
    using num by (auto intro!: keys_okI simp: S_eq set_eligible split: if_splits)
  have len: "length S = ?n" by (simp add: S_eq)
  let ?m = "nat (min k (int ?n))"
  have sort: "std_partial_sort ps (min k (int ?n)) S = Inr (ps ?m S)"
    using k ok len by (simp add: std_partial_sort_def)
  have "\<exists>r. bindR (nth_r (fi_vectors fi) (snd p)) (\<lambda>v. Inr \<lparr>sr_id = vec_id v, sr_score = fst p,
      sr_metadata = vec_metadata v\<rparr>) = Inr r"
    if "p \<in> set (takeWhile (\<lambda>(score, idx). \<not> f32_eq score (- f32_infinity)) (take ?m (ps ?m S)))"
    for p
  proof -
    have "p \<in> set (ps ?m S)" using that by (auto dest!: set_takeWhileD in_set_takeD)
    then have "p \<in> set S" using partial_sorter.set_ps [OF ps ok, of ?m] len by simp
    then show ?thesis by (auto simp: S_eq nth_r_def)
  qed
  then have "\<exists>rs. collect_results fi (take ?m (ps ?m S)) = Inr rs"
    unfolding collect_results_def by (intro mapR_defined) (simp add: split_beta)
  then show ?thesis using False S sort by (auto simp: flat_search_with_def)
qed (simp add: flat_search_with_def)

section \<open>The index as slots\<close>

definition flat_slots :: "flat_index \<Rightarrow> slot list" where
  "flat_slots fi = map (\<lambda>v. (vec_id v, vec_deleted v)) (fi_vectors fi)"

definition flat_inserts :: "flat_index \<Rightarrow> 64 word \<Rightarrow> flat_index \<Rightarrow> bool" where
  "flat_inserts fi i fi' = (\<exists>vec meta. flat_insert fi i vec meta = Inr fi')"

lemma slots_mark_first:
  "map (\<lambda>v. (vec_id v, vec_deleted v)) (mark_first i vs)
    = mark_slot i (map (\<lambda>v. (vec_id v, vec_deleted v)) vs)"
  by (induction i vs rule: mark_first.induct) auto

definition flat_deletes :: "flat_index \<Rightarrow> 64 word \<Rightarrow> flat_index \<Rightarrow> bool" where
  "flat_deletes fi i fi' = (fi' = flat_delete fi i)"

interpretation flat: slot_index flat_slots flat_inserts flat_deletes
  by unfold_locales
    (auto simp: flat_slots_def flat_inserts_def flat_insert_def flat_deletes_def flat_delete_def
      slots_mark_first bindR_Inr_iff)

lemma flat_live_size_slots: "flat_live_size fi = length (live_ids (flat_slots fi))"
  by (simp add: flat_live_size_def flat_slots_def live_ids_def filter_map comp_def)

lemma flat_slots_compact: "flat_slots (flat_compact fi) = filter (\<lambda>s. \<not> snd s) (flat_slots fi)"
  by (simp add: flat_slots_def flat_compact_def filter_map comp_def)

section \<open>Properties\<close>

text \<open>An index with the vectors 1 (id 7) and -1 (id 8), used in the witnesses.\<close>

definition flat_pair :: flat_index where
  "flat_pair = \<lparr>fi_dim = 1, fi_vectors =
     [\<lparr>vec_id = 7, vec_metadata = ''a'', vec_data = [f32_one], vec_deleted = False\<rparr>,
      \<lparr>vec_id = 8, vec_metadata = ''b'', vec_data = [- f32_one], vec_deleted = False\<rparr>]\<rparr>"

lemma flat_pair_facts:
  "flat_wf flat_pair" "fi_dim flat_pair = 1" "eligible (\<lambda>v. \<not> vec_deleted v) flat_pair = [0, 1]"
  "flat_score flat_pair [f32_one] 0 = f32_one"
  "flat_score flat_pair [f32_one] (Suc 0) = - f32_one"
  by (simp_all add: flat_pair_def flat_wf_def eligible_def flat_score_def unit_similarities)

lemma flat_pair_search:
  "flat_search (\<lambda>n. isort_desc) flat_pair [f32_one] 2
    = Inr [\<lparr>sr_id = 7, sr_score = f32_one, sr_metadata = ''a''\<rparr>,
           \<lparr>sr_id = 8, sr_score = - f32_one, sr_metadata = ''b''\<rparr>]"
  by (simp add: flat_search_def flat_search_with_def flat_pair_def score_entry_def
      unit_similarities std_partial_sort_def keys_ok_iff collect_results_def
      f32_eq_minus_infinity nth_r_def guardR_def f32_less_asym)

text \<open>C8: \<open>FlatIndex::search\<close> is exact: with the scores above minus infinity, it returns the
  \<open>k\<close> best live vectors (all of them when there are fewer), each with its id, metadata and
  cosine similarity, best first, and no live vector it leaves out scores higher than one it
  returns, for every conforming \<open>std::partial_sort\<close>.\<close>

theorem flat_search_top_k:
  assumes "partial_sorter ps" and "flat_search ps fi query k = Inr rs"
    and "\<forall>i\<in>set (eligible (\<lambda>v. \<not> vec_deleted v) fi). flat_score fi query i \<noteq> - f32_infinity"
  shows "\<exists>idxs. rs = map (result_of fi query) idxs
    \<and> is_top_k (flat_score fi query) (eligible (\<lambda>v. \<not> vec_deleted v) fi) (nat k) idxs"
  using assms unfolding flat_search_def by (rule flat_search_with_top_k)

theorem flat_search_top_k_witness:
  "\<exists>rs idxs. flat_search (\<lambda>n. isort_desc) flat_pair [f32_one] 2 = Inr rs
    \<and> rs = map (result_of flat_pair [f32_one]) idxs
    \<and> is_top_k (flat_score flat_pair [f32_one]) [0, 1] 2 idxs"
proof -
  have "\<forall>i\<in>set (eligible (\<lambda>v. \<not> vec_deleted v) flat_pair).
      flat_score flat_pair [f32_one] i \<noteq> - f32_infinity"
    by (simp add: flat_pair_facts unit_similarities)
  from flat_search_top_k [OF isort.partial_sorter_axioms flat_pair_search this]
  show ?thesis using flat_pair_search by (auto simp: flat_pair_facts)
qed

text \<open>C9: \<open>FlatIndex::search_filtered\<close> is exact among the live vectors whose metadata the
  filter accepts.\<close>

theorem flat_search_filtered_top_k:
  assumes "partial_sorter ps" and "flat_search_filtered ps fi query k filter_fn = Inr rs"
    and "\<forall>i\<in>set (eligible (\<lambda>v. \<not> vec_deleted v \<and> filter_fn (vec_metadata v)) fi).
      flat_score fi query i \<noteq> - f32_infinity"
  shows "\<exists>idxs. rs = map (result_of fi query) idxs
    \<and> is_top_k (flat_score fi query)
        (eligible (\<lambda>v. \<not> vec_deleted v \<and> filter_fn (vec_metadata v)) fi) (nat k) idxs"
  using assms unfolding flat_search_filtered_def by (rule flat_search_with_top_k)

theorem flat_search_filtered_top_k_witness:
  "\<exists>rs idxs. flat_search_filtered (\<lambda>n. isort_desc) flat_pair [f32_one] 2 (\<lambda>m. m = ''b'') = Inr rs
    \<and> rs = map (result_of flat_pair [f32_one]) idxs
    \<and> is_top_k (flat_score flat_pair [f32_one]) [1] 2 idxs"
proof -
  let ?g = "\<lambda>v. \<not> vec_deleted v \<and> vec_metadata v = ''b''"
  have el: "eligible ?g flat_pair = [1]" by (simp add: eligible_def flat_pair_def)
  have run: "flat_search_filtered (\<lambda>n. isort_desc) flat_pair [f32_one] 2 (\<lambda>m. m = ''b'')
      = Inr [\<lparr>sr_id = 8, sr_score = - f32_one, sr_metadata = ''b''\<rparr>]"
    by (simp add: flat_search_filtered_def flat_search_with_def flat_pair_def score_entry_def
      unit_similarities std_partial_sort_def keys_ok_iff collect_results_def
      f32_eq_minus_infinity nth_r_def guardR_def less_f32_def [of "- f32_infinity"]
      f32_above_minus_infinity)
  have "\<forall>i\<in>set (eligible ?g flat_pair). flat_score flat_pair [f32_one] i \<noteq> - f32_infinity"
    by (simp add: el flat_pair_facts unit_similarities)
  from flat_search_filtered_top_k [OF isort.partial_sorter_axioms run this]
  show ?thesis using run by (auto simp: el)
qed

text \<open>C34: Deleting an id whose vector was inserted once removes exactly that id from the live
  vectors, and \<open>compact\<close> then drops exactly the deleted slots: the live vectors stay, in
  their order, and the size becomes the live size.\<close>

theorem flat_delete_compact:
  assumes "distinct (map fst (flat_slots fi))"
  shows "live_ids (flat_slots (flat_compact (flat_delete fi i)))
      = filter (\<lambda>j. j \<noteq> i) (live_ids (flat_slots fi))
    \<and> flat_size (flat_compact (flat_delete fi i)) = flat_live_size (flat_delete fi i)"
proof -
  have "live_ids (flat_slots (flat_compact (flat_delete fi i))) = live_ids (flat_slots (flat_delete fi i))"
    by (simp add: flat_slots_compact live_ids_def)
  moreover have "flat_size (flat_compact (flat_delete fi i)) = flat_live_size (flat_delete fi i)"
    by (simp add: flat_size_def flat_compact_def flat_live_size_def)
  ultimately show ?thesis using flat.delete_removes [OF _ assms, of i "flat_delete fi i"] by (simp add: flat_deletes_def)
qed

theorem flat_delete_compact_witness:
  "live_ids (flat_slots (flat_compact (flat_delete flat_pair 7))) = [8]"
  using flat_delete_compact [of flat_pair 7] by (simp add: flat_pair_def flat_slots_def)

text \<open>An id that is inserted again after its deletion cannot be deleted any more:
  \<open>delete_vector\<close> stops at the first slot with the id, so the new vector stays live.\<close>

theorem flat_delete_after_reinsert:
  assumes "i \<in> set (live_ids (flat_slots fi))"
    and "flat_insert (flat_delete fi i) i vec meta = Inr fi'"
  shows "i \<in> set (live_ids (flat_slots (flat_delete fi' i)))"
proof (rule flat.delete_reinserted [of _ "flat_delete fi i"])
  have "map fst (flat_slots (flat_delete fi i)) = map fst (flat_slots fi)"
    by (rule flat.ids_kept) (simp add: flat_deletes_def)
  then have "fst ` set (flat_slots (flat_delete fi i)) = fst ` set (flat_slots fi)"
    by (metis set_map)
  then show "i \<in> fst ` set (flat_slots (flat_delete fi i))"
    using assms(1) live_ids_subset [of "flat_slots fi"] by auto
  show "flat_inserts (flat_delete fi i) i fi'"
    using assms(2) by (auto simp: flat_inserts_def)
  show "flat_deletes fi' i (flat_delete fi' i)" by (simp add: flat_deletes_def)
qed

theorem flat_delete_after_reinsert_witness:
  "\<exists>fi'. flat_insert (flat_delete flat_pair 7) 7 [f32_one] ''c'' = Inr fi'
    \<and> 7 \<in> set (live_ids (flat_slots (flat_delete fi' 7)))"
proof -
  obtain fi' where ins: "flat_insert (flat_delete flat_pair 7) 7 [f32_one] ''c'' = Inr fi'"
    by (simp add: flat_insert_def flat_delete_def flat_pair_def slice_r_def)
  have "7 \<in> set (live_ids (flat_slots flat_pair))"
    by (simp add: flat_pair_def flat_slots_def)
  from flat_delete_after_reinsert [OF this ins] ins show ?thesis by blast
qed

end
