(* ===== verification/Hnsw_Properties.thy ===== *)
theory Hnsw_Properties
  imports Hnsw_Slots Vector_Store
begin

text \<open>
  The properties of \<open>HNSWIndex\<close>: what insertion, deletion and search promise, over the
  invariant \<open>hnsw_wf\<close> and the interfaces the previous theories interpret.
\<close>

section \<open>A small index\<close>

text \<open>Two opposite unit vectors that link to each other.\<close>

definition cfg_small :: hnsw_config where
  "cfg_small = \<lparr>cfg_M = 2, cfg_ef_construction = 2, cfg_ef_search = 2\<rparr>"

definition hnsw_pair :: "unit hnsw" where
  "hnsw_pair =
     \<lparr>h_dim = 1, h_cfg = cfg_small, h_mL = F32 0x3FB8AA3B, h_num_vectors = 2, h_max_layer = 0,
      h_entry_point = 0, h_graph = [[[1]], [[0]]], h_raw_vectors = [f32_one, - f32_one],
      h_id_map = [7, 8], h_metadata = [''a'', ''b''], h_tombstone = [False, False],
      h_vec_accessor = None\<rparr>"

definition ctx_new :: "unit visit_ctx" where
  "ctx_new = \<lparr>vis_size = 0, vis_at = (\<lambda>_. 0), vis_tag = 0, vis_env = ()\<rparr>"

text \<open>A logarithm whose draws all give level 0.\<close>

definition log_low :: "f32 \<Rightarrow> f32" where
  "log_low x = F32 0xBE800000"

lemma ctx_new_ok [simp]: "visit_ok ctx_new"
  by (simp add: visit_ok_def ctx_new_def)

lemma level_low: "random_layer log_low (F32 0x3F000000) (F32 0x3FB8AA3B) = Inr 0"
  by code_simp

text \<open>A logarithm with the float values of \<open>log 2\<close> and, for the draws, \<open>-1/4\<close>.\<close>

definition log_two :: "f32 \<Rightarrow> f32" where
  "log_two x = (if x = F32 0x40000000 then F32 0x3F317218 else F32 0xBE800000)"

lemma level_two: "random_layer log_two (F32 0x3F000000) (f32_div f32_one (log_two (f32_of_int 2))) = Inr 0"
  by code_simp

lemma all_less_2: "(\<forall>i<(2::nat). P i) \<longleftrightarrow> P 0 \<and> P 1"
  by (auto simp: less_2_cases_iff)

lemma all_upt_2: "(\<forall>i<Suc (Suc 0). P i) \<longleftrightarrow> P 0 \<and> P 1"
  by (auto simp: less_Suc_eq)

lemma hnsw_pair_wf [simp]: "hnsw_wf hnsw_pair"
  by (simp add: hnsw_wf_def cfg_ok_def hnsw_sizes_def graph_wf_def levels_wf_def hnsw_pair_def
      cfg_small_def all_upt_2 degree_bound_def)

lemma hnsw_pair_fields [simp]:
  "h_dim hnsw_pair = 1" "h_num_vectors hnsw_pair = 2" "h_tombstone hnsw_pair = [False, False]"
  "h_id_map hnsw_pair = [7, 8]" "h_mL hnsw_pair = F32 0x3FB8AA3B" "h_vec_accessor hnsw_pair = None"
  "h_cfg hnsw_pair = cfg_small"
  by (simp_all add: hnsw_pair_def)

lemma own_pair:
  "own_vector hnsw_pair 0 = [f32_one]" "own_vector hnsw_pair 1 = [- f32_one]"
  "own_vector hnsw_pair (Suc 0) = [- f32_one]"
  by (simp_all add: own_vector_def hnsw_pair_def)

lemma unit_scores:
  "score_of 1 [f32_one] [f32_one] = f32_one" "score_of 1 [f32_one] [- f32_one] = - f32_one"
  "score_of 1 [- f32_one] [f32_one] = - f32_one" "score_of 1 [- f32_one] [- f32_one] = f32_one"
  by (simp_all add: score_of_def unit_similarities)

lemma pair_query: "query_ok hnsw_pair [f32_one]"
  using unit_scores by (simp add: query_ok_def all_less_2 node_score_def own_pair unit_similarities)

lemma pair_links: "links_at hnsw_pair 0 0 = [1]" "links_at hnsw_pair 0 1 = [0]"
  by (simp_all add: links_at_def hnsw_pair_def)

lemma pair_connected: "\<forall>i<2. \<forall>j<2. reaches hnsw_pair 0 i j"
proof -
  have "reaches hnsw_pair 0 0 1" "reaches hnsw_pair 0 1 0"
    using pair_links by (auto intro: reaches.link [OF reaches.start])
  then show ?thesis by (auto simp: all_less_2 intro: reaches.start)
qed

section \<open>Insertion\<close>

text \<open>C2: Whatever the vectors, the accessor and the drawn level, an insertion that returns
  keeps the invariant (links to nodes of the same layer, no self or double links, degrees at
  most \<open>M\<close> and \<open>2M\<close> on layer 0, the entry point on the top layer) and adds exactly one live
  slot with the id, the metadata and the first \<open>dim_\<close> floats of the vector.\<close>

theorem hnsw_insert_wf:
  assumes "desc_sorter srt" and "hnsw_wf h" and "visit_ok ctx" and "h_num_vectors h < 2 ^ 32"
    and "random_layer logf val (h_mL h) = Inr level" and "0 \<le> level"
    and "hnsw_insert srt logf val i vec meta (h, ctx) = Inr (h', ctx')"
  shows "hnsw_wf h' \<and> inserted i vec meta h h' \<and> visit_ok ctx'"
  using hnsw_insert_spec [OF assms(1-6), of False vec i meta] assms(7) by simp

text \<open>C15: With enough floats in the buffer and no similarity that is a not-a-number, an
  insertion into an index that stores its own vectors returns: no index, level, visited mark
  or buffer is read out of range on any of its paths, and every loop ends.\<close>

theorem hnsw_insert_returns:
  assumes "desc_sorter srt" and "hnsw_wf h" and "visit_ok ctx" and "h_num_vectors h < 2 ^ 32"
    and "random_layer logf val (h_mL h) = Inr level" and "0 \<le> level"
    and "length vec = h_dim h" and "h_vec_accessor h = None"
    and "no_nan_scores (h_dim h) (vec # stored_vectors h)"
  shows "\<exists>h' ctx'. hnsw_insert_vec srt logf val i vec meta (h, ctx) = Inr (h', ctx')
    \<and> hnsw_wf h' \<and> inserted i vec meta h h' \<and> visit_ok ctx'"
  using hnsw_insert_spec [OF assms(1-6), of True vec i meta] assms(7-9)
  by (auto simp: hnsw_insert_vec_def holdsR_total okR_iff)

lemma pair_no_nan: "no_nan_scores 1 ([f32_one] # stored_vectors hnsw_pair)"
  using unit_scores by (simp add: no_nan_scores_def stored_vectors_def own_pair numeral_2_eq_2 unit_similarities)

lemmas pair_insert_args =
  isort.whole.desc_sorter_axioms hnsw_pair_wf ctx_new_ok _ level_low [folded hnsw_pair_fields]

theorem hnsw_insert_returns_witness:
  "\<exists>h' ctx'. hnsw_insert_vec isort_desc log_low (F32 0x3F000000) 9 [f32_one] ''c'' (hnsw_pair, ctx_new)
      = Inr (h', ctx') \<and> hnsw_wf h' \<and> h_id_map h' = [7, 8, 9]"
  using hnsw_insert_returns [OF pair_insert_args, of "[f32_one]" 9 "''c''"] pair_no_nan
  by (auto simp: inserted_def)

lemma pair_insert_runs:
  "\<exists>h' ctx'. hnsw_insert isort_desc log_low (F32 0x3F000000) 9 [f32_one] ''c'' (hnsw_pair, ctx_new)
      = Inr (h', ctx')"
  using hnsw_insert_spec [OF pair_insert_args, of True "[f32_one]" 9 "''c''"] pair_no_nan
  by (auto simp: holdsR_total okR_iff)

theorem hnsw_insert_wf_witness:
  "\<exists>h' ctx'. hnsw_insert isort_desc log_low (F32 0x3F000000) 9 [f32_one] ''c'' (hnsw_pair, ctx_new)
      = Inr (h', ctx') \<and> hnsw_wf h' \<and> h_num_vectors h' = 3"
proof -
  obtain h' ctx' where run: "hnsw_insert isort_desc log_low (F32 0x3F000000) 9 [f32_one] ''c''
      (hnsw_pair, ctx_new) = Inr (h', ctx')"
    using pair_insert_runs by blast
  then show ?thesis
    using hnsw_insert_wf [OF pair_insert_args _ run] by (auto simp: inserted_def)
qed

section \<open>Search\<close>

definition live_nodes :: "'s hnsw \<Rightarrow> nat list" where
  "live_nodes h = filter (\<lambda>i. \<not> h_tombstone h ! i) [0..<h_num_vectors h]"

definition result_node :: "'s hnsw \<Rightarrow> f32 list \<Rightarrow> nat \<Rightarrow> f32 \<times> 64 word" where
  "result_node h query i = (node_score own_vector h query i, h_id_map h ! i)"

text \<open>How many results a search may give: a \<open>k\<close> that is not positive sets no bound.\<close>

definition result_limit :: "int \<Rightarrow> nat \<Rightarrow> nat" where
  "result_limit k n = (if 1 \<le> k then nat k else n)"

lemma first_k_take: "\<exists>n. first_k k xs = take n xs \<and> (1 \<le> k \<longrightarrow> n = nat k) \<and> (k \<le> 0 \<longrightarrow> n = length xs)"
  by (cases "1 \<le> k") (auto simp: first_k_def)

lemma search_result_sound:
  assumes sound: "layer_sound h 0 ep ef out" and below: "\<forall>p\<in>set out. snd p < h_num_vectors h"
    and idxs: "idxs = map snd (first_k k (live_candidates h out))"
  shows "map snd (search_result_of h k out) = map (\<lambda>i. h_id_map h ! i) idxs \<and> distinct idxs
    \<and> set idxs \<subseteq> set (live_nodes h) \<and> int (length idxs) \<le> max 1 ef \<and> (1 \<le> k \<longrightarrow> int (length idxs) \<le> k)"
proof -
  obtain n where n: "first_k k (live_candidates h out) = take n (live_candidates h out)"
    "1 \<le> k \<longrightarrow> n = nat k"
    using first_k_take by blast
  have "distinct (map snd (live_candidates h out))"
    using sound by (auto simp: layer_sound_def live_candidates_def intro: distinct_map_filter)
  then have "distinct idxs" by (simp add: idxs n distinct_take flip: take_map)
  moreover have "set idxs \<subseteq> set (live_nodes h)"
    using below set_take_subset [of n "live_candidates h out"]
    unfolding idxs n(1) by (auto simp: live_nodes_def live_candidates_def)
  moreover have "length idxs \<le> length out"
    using length_filter_le [of "\<lambda>p. \<not> h_tombstone h ! snd p" out]
    unfolding idxs n(1) by (simp add: live_candidates_def min.coboundedI1)
  moreover have "1 \<le> k \<longrightarrow> int (length idxs) \<le> k"
    using n(2) by (auto simp: idxs n(1) min_def)
  moreover have "int (length out) \<le> max 1 ef" using sound by (simp add: layer_sound_def)
  ultimately show ?thesis by (auto simp: search_result_of_def idxs external_def)
qed

lemma search_returns_live:
  assumes "desc_sorter srt" and "hnsw_wf h" and "visit_ok ctx" and "h_num_vectors h < 2 ^ 32"
    and "hnsw_search srt h query k ctx = Inr (rs, ctx')"
  shows "\<exists>idxs. map snd rs = map (\<lambda>i. h_id_map h ! i) idxs \<and> distinct idxs
    \<and> set idxs \<subseteq> set (live_nodes h) \<and> int (length rs) \<le> max 1 (cfg_ef_search (h_cfg h))
    \<and> (1 \<le> k \<longrightarrow> int (length rs) \<le> k)"
proof (cases "False \<in> set (h_tombstone h)")
  case False
  then show ?thesis using hnsw_search_spec [OF assms(1-4), of False query k] assms(5) by simp
next
  case True
  then obtain ep out where out: "layer_sound h 0 ep (cfg_ef_search (h_cfg h)) out"
    "\<forall>p\<in>set out. snd p < h_num_vectors h" and rs: "rs = search_result_of h k out"
    using hnsw_search_spec [OF assms(1-4), of False query k] assms(5) by auto
  let ?idxs = "map snd (first_k k (live_candidates h out))"
  have "length rs = length ?idxs" by (simp add: rs search_result_of_def)
  then show ?thesis using search_result_sound [OF out refl] by (intro exI [of _ ?idxs]) (simp add: rs)
qed

text \<open>Whatever the vectors and the accessor, a search that returns answers with the ids of
  distinct live slots, at most \<open>ef_search\<close> of them, and at most \<open>k\<close> when \<open>k\<close> is positive.\<close>

theorem hnsw_search_sound:
  assumes "desc_sorter srt" and "hnsw_wf h" and "visit_ok ctx" and "h_num_vectors h < 2 ^ 32"
    and "hnsw_search srt h query k ctx = Inr (rs, ctx')"
  shows "\<exists>idxs. map snd rs = map (\<lambda>i. h_id_map h ! i) idxs \<and> distinct idxs
    \<and> set idxs \<subseteq> set (live_nodes h) \<and> int (length rs) \<le> max 1 (cfg_ef_search (h_cfg h))
    \<and> (1 \<le> k \<longrightarrow> int (length rs) \<le> k)"
  by (rule search_returns_live [OF assms])

text \<open>C1: A search for a query with a proper score on every vector returns.  The results are
  those of a set \<open>V\<close> of scored nodes on layer 0: the beam, at most \<open>ef_search\<close> nodes
  best first with their cosine similarities, of which the live ones are given up to \<open>k\<close>.  No
  scored node outside the beam scores higher than one inside, and every neighbour of a node in
  the beam was scored, so the beam is a local optimum of the graph.\<close>

theorem hnsw_search_local_optimum:
  assumes "desc_sorter srt" and "hnsw_wf h" and "visit_ok ctx" and "h_num_vectors h < 2 ^ 32"
    and "query_ok h query" and "False \<in> set (h_tombstone h)"
  shows "\<exists>rs ctx' out V. hnsw_search srt h query k ctx = Inr (rs, ctx') \<and> visit_ok ctx'
    \<and> rs = map (external h) (first_k k (filter (\<lambda>p. \<not> h_tombstone h ! snd p) out))
    \<and> out \<noteq> [] \<and> int (length out) \<le> max 1 (cfg_ef_search (h_cfg h)) \<and> distinct (map snd out)
    \<and> desc_sorted out \<and> (\<forall>p\<in>set out. fst p = node_score own_vector h query (snd p))
    \<and> snd ` set out \<subseteq> V \<and> (\<forall>i\<in>snd ` set out. set (links_at h 0 i) \<subseteq> V)
    \<and> (\<forall>i\<in>V - snd ` set out. \<forall>p\<in>set out. \<not> fst p < node_score own_vector h query i)"
proof -
  obtain rs ctx' ep out where run: "hnsw_search srt h query k ctx = Inr (rs, ctx')" "visit_ok ctx'"
    and sound: "layer_sound h 0 ep (cfg_ef_search (h_cfg h)) out" and rs: "rs = search_result_of h k out"
    and best: "layer_best (node_score own_vector h query) h 0 ep (cfg_ef_search (h_cfg h)) out"
    using hnsw_search_spec [OF assms(1-4), of True query k] assms(5,6)
    by (auto simp: holdsR_total okR_iff)
  obtain V where "snd ` set out \<subseteq> V" "\<forall>i\<in>snd ` set out. set (links_at h 0 i) \<subseteq> V"
    "kept_best (node_score own_vector h query) (cfg_ef_search (h_cfg h)) V out"
    using best unfolding layer_best_def by blast
  moreover have "desc_sorted out" "\<forall>p\<in>set out. fst p = node_score own_vector h query (snd p)"
    using best unfolding layer_best_def by blast+
  ultimately show ?thesis using run rs sound
    by (intro exI [of _ rs] exI [of _ ctx'] exI [of _ out] exI [of _ V])
      (simp add: layer_sound_def search_result_of_def live_candidates_def kept_best_def)
qed

lemma search_exhaustive_top_k:
  assumes wf: "hnsw_wf h" and sound: "layer_sound h 0 ep ef out"
    and best: "layer_best (node_score own_vector h query) h 0 ep ef out"
    and ep: "ep < h_num_vectors h" and conn: "\<forall>i<h_num_vectors h. reaches h 0 ep i"
    and ef: "int (h_num_vectors h) \<le> ef" and idxs: "idxs = map snd (first_k k (live_candidates h out))"
  shows "search_result_of h k out = map (result_node h query) idxs
    \<and> is_top_k (node_score own_vector h query) (live_nodes h) (result_limit k (h_num_vectors h)) idxs"
proof -
  let ?sc = "node_score own_vector h query" and ?n = "h_num_vectors h" and ?L = "live_candidates h out"
  have g: "graph_wf (cfg_M (h_cfg h)) (h_graph h)" "length (h_graph h) = ?n"
    using wf by (simp_all add: hnsw_wf_def hnsw_sizes_def)
  have R: "{i. reaches h 0 ep i} = {..<?n}"
    using conn reaches_below [OF g(1), of ep 0] ep g(2) by auto
  have all: "snd ` set out = {..<?n}"
    using layer_exhaustive [OF sound best] ef by (simp add: R)
  have score: "fst p = ?sc (snd p)" if "p \<in> set out" for p
    using best that by (auto simp: layer_best_def)
  have dist: "distinct (map snd ?L)" and sorted: "desc_sorted ?L"
    using sound best by (auto simp: layer_sound_def layer_best_def live_candidates_def desc_sorted_def
        intro: distinct_map_filter sorted_wrt_filter)
  have L: "set (live_nodes h) = snd ` set ?L"
  proof -
    have "snd ` set ?L = {i \<in> snd ` set out. \<not> h_tombstone h ! i}"
      unfolding live_candidates_def by force
    then show ?thesis by (auto simp: all live_nodes_def)
  qed
  obtain m where m: "first_k k ?L = take m ?L" "1 \<le> k \<longrightarrow> m = nat k" "k \<le> 0 \<longrightarrow> m = length ?L"
    using first_k_take by blast
  have len: "length ?L \<le> ?n"
  proof -
    have "length ?L = card (set (live_nodes h))"
      using dist by (metis L distinct_card length_map set_map)
    also have "\<dots> \<le> card {..<?n}" by (intro card_mono) (auto simp: live_nodes_def)
    finally show ?thesis by simp
  qed
  have sub: "set (take m ?L) \<subseteq> set out"
    using set_take_subset [of m ?L] by (auto simp: live_candidates_def)
  have "is_top_k ?sc (live_nodes h) (result_limit k ?n) idxs"
  proof (rule is_top_kI)
    show "distinct idxs" using dist by (simp add: idxs m distinct_take flip: take_map)
    show "distinct (live_nodes h)" by (simp add: live_nodes_def)
    show "set idxs \<subseteq> set (live_nodes h)" unfolding L idxs m using set_take_subset by fastforce
    show "length idxs \<le> result_limit k ?n"
      using m len by (cases "1 \<le> k") (auto simp: idxs result_limit_def)
    show "sorted_wrt (\<lambda>i j. \<not> ?sc i < ?sc j) idxs"
      unfolding idxs m(1) sorted_wrt_map
    proof (rule sorted_wrt_mono_rel)
      show "sorted_wrt (\<lambda>p q. \<not> fst p < fst q) (take m ?L)"
        using sorted sorted_wrt_take unfolding desc_sorted_def by blast
    qed (use score sub in \<open>simp add: subset_eq\<close>)
    fix j
    assume "j \<in> set (live_nodes h) - set idxs"
    then obtain p where p: "p \<in> set ?L" "snd p = j" "p \<notin> set (take m ?L)"
      unfolding L idxs m by auto
    then have d: "p \<in> set (drop m ?L)" by (metis Un_iff append_take_drop_id set_append)
    then have "m < length ?L" by (metis drop_all empty_iff leI list.set(1))
    then have "length idxs = result_limit k ?n"
      using m by (cases "1 \<le> k") (auto simp: idxs result_limit_def)
    moreover have "\<not> ?sc i < ?sc j" if "i \<in> set idxs" for i
    proof -
      obtain r where r: "r \<in> set (take m ?L)" "snd r = i" using \<open>i \<in> set idxs\<close> by (auto simp: idxs m)
      have "\<not> fst r < fst p"
        using sorted_wrt_take_drop [OF sorted [unfolded desc_sorted_def] r(1) d] .
      moreover have "p \<in> set out" "r \<in> set out" using p(1) r(1) sub by (auto simp: live_candidates_def)
      ultimately show ?thesis using score p(2) r(2) by metis
    qed
    ultimately show "length idxs = result_limit k ?n \<and> (\<forall>i\<in>set idxs. \<not> ?sc i < ?sc j)" by blast
  qed
  moreover have "search_result_of h k out = map (result_node h query) idxs"
    using score sub by (auto simp: search_result_of_def idxs m external_def result_node_def)
  ultimately show ?thesis by blast
qed

lemma exhaustive_search:
  assumes "desc_sorter srt" and "hnsw_wf h" and "visit_ok ctx" and "h_num_vectors h < 2 ^ 32"
    and "query_ok h query" and "\<forall>i<h_num_vectors h. \<forall>j<h_num_vectors h. reaches h 0 i j"
    and "int (h_num_vectors h) \<le> cfg_ef_search (h_cfg h)"
  shows "\<exists>rs ctx' idxs. hnsw_search srt h query k ctx = Inr (rs, ctx')
    \<and> rs = map (result_node h query) idxs
    \<and> is_top_k (node_score own_vector h query) (live_nodes h) (result_limit k (h_num_vectors h)) idxs"
proof (cases "False \<in> set (h_tombstone h)")
  case False
  have "length (h_tombstone h) = h_num_vectors h" using assms(2) by (simp add: hnsw_wf_def hnsw_sizes_def)
  then have "live_nodes h = []" using False by (auto simp: live_nodes_def filter_empty_conv in_set_conv_nth)
  moreover obtain rs ctx' where "hnsw_search srt h query k ctx = Inr (rs, ctx')" "rs = []"
    using hnsw_search_spec [OF assms(1-4), of True query k] assms(5) False
    by (auto simp: holdsR_total okR_iff)
  ultimately show ?thesis by (simp add: is_top_k_def)
next
  case True
  then obtain rs ctx' ep out where run: "hnsw_search srt h query k ctx = Inr (rs, ctx')"
    and sound: "layer_sound h 0 ep (cfg_ef_search (h_cfg h)) out" and rs: "rs = search_result_of h k out"
    and ep: "ep < h_num_vectors h"
    and best: "layer_best (node_score own_vector h query) h 0 ep (cfg_ef_search (h_cfg h)) out"
    using hnsw_search_spec [OF assms(1-4), of True query k] assms(5)
    by (auto simp: holdsR_total okR_iff)
  have "\<forall>i<h_num_vectors h. reaches h 0 ep i" using assms(6) ep by blast
  from search_exhaustive_top_k [OF assms(2) sound best ep this assms(7) refl] show ?thesis
    using run rs by blast
qed

text \<open>When the beam is as wide as the index and layer 0 is strongly connected, a search is
  exact: it returns the \<open>k\<close> best live vectors with their similarities and ids, best first
  (all of them when \<open>k\<close> is not positive: the code stops when it has exactly \<open>k\<close>).\<close>

theorem hnsw_search_exhaustive:
  assumes "desc_sorter srt" and "hnsw_wf h" and "visit_ok ctx" and "h_num_vectors h < 2 ^ 32"
    and "query_ok h query" and "\<forall>i<h_num_vectors h. \<forall>j<h_num_vectors h. reaches h 0 i j"
    and "int (h_num_vectors h) \<le> cfg_ef_search (h_cfg h)"
  shows "\<exists>rs ctx' idxs. hnsw_search srt h query k ctx = Inr (rs, ctx')
    \<and> rs = map (result_node h query) idxs
    \<and> is_top_k (node_score own_vector h query) (live_nodes h) (result_limit k (h_num_vectors h)) idxs"
  by (rule exhaustive_search [OF assms])

text \<open>The exact index with the same slots.\<close>

definition flat_of :: "'s hnsw \<Rightarrow> flat_index" where
  "flat_of h = \<lparr>fi_dim = h_dim h, fi_vectors =
     map (\<lambda>i. \<lparr>vec_id = h_id_map h ! i, vec_metadata = h_metadata h ! i,
                vec_data = own_vector h i, vec_deleted = h_tombstone h ! i\<rparr>) [0..<h_num_vectors h]\<rparr>"

lemma flat_of_facts:
  "eligible (\<lambda>v. \<not> vec_deleted v) (flat_of h) = live_nodes h"
  "i < h_num_vectors h \<Longrightarrow> flat_score (flat_of h) query i = node_score own_vector h query i"
  by (auto simp: eligible_def live_nodes_def flat_of_def flat_score_def node_score_def score_of_def
      intro!: filter_cong split: sum.split)

text \<open>C4: On such an index HNSW search agrees with brute force: for every positive \<open>k\<close> it
  gives the same list of scores as \<open>FlatIndex::search\<close> on the same vectors, ids and marks
  (as numbers: the two zeros are equal), so the approximation loses nothing.\<close>

theorem hnsw_agrees_with_flat:
  assumes "desc_sorter srt" and "hnsw_wf h" and "visit_ok ctx" and "h_num_vectors h < 2 ^ 32"
    and "query_ok h query" and "\<forall>i<h_num_vectors h. \<forall>j<h_num_vectors h. reaches h 0 i j"
    and "int (h_num_vectors h) \<le> cfg_ef_search (h_cfg h)" and "1 \<le> k"
    and "partial_sorter ps" and "flat_search ps (flat_of h) query k = Inr frs"
    and "\<forall>i\<in>set (live_nodes h). node_score own_vector h query i \<noteq> - f32_infinity"
  shows "\<exists>rs ctx'. hnsw_search srt h query k ctx = Inr (rs, ctx')
    \<and> map (\<lambda>r. f32_key (fst r)) rs = map (\<lambda>r. f32_key (sr_score r)) frs"
proof -
  let ?sc = "node_score own_vector h query"
  have live: "i < h_num_vectors h" if "i \<in> set (live_nodes h)" for i
    using that by (simp add: live_nodes_def)
  have nn: "\<forall>i\<in>set (live_nodes h). \<not> is_nan (?sc i)" using assms(5) live by (auto simp: query_ok_def)
  have dist: "distinct (live_nodes h)" by (simp add: live_nodes_def)
  obtain rs ctx' idxs where run: "hnsw_search srt h query k ctx = Inr (rs, ctx')"
    and rs: "rs = map (result_node h query) idxs" and top: "is_top_k ?sc (live_nodes h) (nat k) idxs"
    using exhaustive_search [OF assms(1-7), of k] assms(8) by (auto simp: result_limit_def)
  have "\<forall>i\<in>set (eligible (\<lambda>v. \<not> vec_deleted v) (flat_of h)). flat_score (flat_of h) query i \<noteq> - f32_infinity"
    using assms(11) live by (simp add: flat_of_facts)
  from flat_search_with_top_k [OF assms(9) assms(10) [unfolded flat_search_def] this]
  obtain fidxs where frs: "frs = map (result_of (flat_of h) query) fidxs"
    and ftop: "is_top_k (flat_score (flat_of h) query) (live_nodes h) (nat k) fidxs"
    by (auto simp: flat_of_facts)
  have sub: "set fidxs \<subseteq> set (live_nodes h)" using ftop by (simp add: is_top_k_def)
  have same: "flat_score (flat_of h) query i = ?sc i" if "i \<in> set (live_nodes h)" for i
    using live [OF that] by (rule flat_of_facts)
  have "map (\<lambda>r. f32_key (sr_score r)) frs = map (f32_key \<circ> flat_score (flat_of h) query) fidxs"
    by (simp add: frs result_of_def)
  also have "\<dots> = take (nat k) (rev (sort (map (f32_key \<circ> flat_score (flat_of h) query) (live_nodes h))))"
    by (rule top_k_keys [OF ftop _ dist]) (use nn same in simp)
  also have "map (f32_key \<circ> flat_score (flat_of h) query) (live_nodes h) = map (f32_key \<circ> ?sc) (live_nodes h)"
    using same by simp
  also have "take (nat k) (rev (sort \<dots>)) = map (f32_key \<circ> ?sc) idxs"
    by (rule top_k_keys [OF top nn dist, symmetric])
  also have "\<dots> = map (\<lambda>r. f32_key (fst r)) rs" by (simp add: rs result_node_def)
  finally show ?thesis using run by metis
qed

lemma search_returns:
  assumes "desc_sorter srt" and "hnsw_wf h" and "visit_ok ctx" and "h_num_vectors h < 2 ^ 32"
    and "query_ok h query"
  shows "\<exists>rs ctx'. hnsw_search srt h query k ctx = Inr (rs, ctx')"
  using holdsR_returns [OF hnsw_search_spec [OF assms(1-4)]] assms(5) by simp

lemma pair_searches:
  "\<exists>rs ctx'. hnsw_search isort_desc hnsw_pair [f32_one] k ctx_new = Inr (rs, ctx')"
  by (rule search_returns) (simp_all add: isort.whole.desc_sorter_axioms pair_query)

lemma pair_live: "live_nodes hnsw_pair = [0, 1]"
  by (simp add: live_nodes_def numeral_2_eq_2)

theorem hnsw_search_sound_witness:
  "\<exists>rs ctx'. hnsw_search isort_desc hnsw_pair [f32_one] 1 ctx_new = Inr (rs, ctx')
    \<and> length rs \<le> 1 \<and> snd ` set rs \<subseteq> {7, 8}"
proof -
  obtain rs ctx' where run: "hnsw_search isort_desc hnsw_pair [f32_one] 1 ctx_new = Inr (rs, ctx')"
    using pair_searches by blast
  then obtain idxs where idxs: "map snd rs = map (\<lambda>i. [7, 8] ! i) idxs" "set idxs \<subseteq> {0, 1}" "length rs \<le> 1"
    using hnsw_search_sound [OF isort.whole.desc_sorter_axioms hnsw_pair_wf ctx_new_ok _ run]
    by (auto simp: pair_live)
  have "snd ` set rs = (\<lambda>i. [7, 8] ! i) ` set idxs" using idxs(1) by (metis list.set_map)
  then show ?thesis using run idxs(2,3) by fastforce
qed

theorem hnsw_search_local_optimum_witness:
  "\<exists>rs ctx' out. hnsw_search isort_desc hnsw_pair [f32_one] 2 ctx_new = Inr (rs, ctx')
    \<and> out \<noteq> [] \<and> desc_sorted out"
  using hnsw_search_local_optimum [OF isort.whole.desc_sorter_axioms hnsw_pair_wf ctx_new_ok _ pair_query, of 2]
  by auto

lemma pair_top:
  assumes "is_top_k (node_score own_vector hnsw_pair [f32_one]) [0, 1] 2 idxs"
  shows "idxs = [0, 1]"
proof -
  have "length idxs = 2" "set idxs \<subseteq> {0, 1}" "distinct idxs"
    and ord: "sorted_wrt (\<lambda>i j. \<not> node_score own_vector hnsw_pair [f32_one] i
        < node_score own_vector hnsw_pair [f32_one] j) idxs"
    using assms by (auto simp: is_top_k_def)
  then obtain a b where "idxs = [a, b]" "a \<noteq> b" "a \<in> {0, 1}" "b \<in> {0, 1}"
    by (auto simp: length_Suc_conv numeral_2_eq_2)
  then show ?thesis
    using ord by (auto simp: node_score_def own_pair unit_scores [unfolded One_nat_def] unit_similarities)
qed

theorem hnsw_search_exhaustive_witness:
  "\<exists>ctx'. hnsw_search isort_desc hnsw_pair [f32_one] 2 ctx_new
    = Inr ([(f32_one, 7), (- f32_one, 8)], ctx')"
proof -
  obtain rs ctx' idxs where run: "hnsw_search isort_desc hnsw_pair [f32_one] 2 ctx_new = Inr (rs, ctx')"
    and rs: "rs = map (result_node hnsw_pair [f32_one]) idxs"
    and "is_top_k (node_score own_vector hnsw_pair [f32_one]) [0, 1] 2 idxs"
    using hnsw_search_exhaustive [OF isort.whole.desc_sorter_axioms hnsw_pair_wf ctx_new_ok _ pair_query, of 2]
      pair_connected
    by (auto simp: pair_live cfg_small_def result_limit_def)
  then have "idxs = [0, 1]" using pair_top by blast
  then have "rs = [(f32_one, 7), (- f32_one, 8)]"
    using unit_scores by (simp add: rs result_node_def node_score_def own_pair)
  then show ?thesis using run by blast
qed

lemma flat_of_pair: "flat_of hnsw_pair = flat_pair"
  by (simp add: flat_of_def flat_pair_def own_pair numeral_2_eq_2) (simp add: hnsw_pair_def)

theorem hnsw_agrees_with_flat_witness:
  "\<exists>rs ctx'. hnsw_search isort_desc hnsw_pair [f32_one] 2 ctx_new = Inr (rs, ctx')
    \<and> map (\<lambda>r. f32_key (fst r)) rs = [f32_key f32_one, f32_key (- f32_one)]"
  using hnsw_agrees_with_flat [OF isort.whole.desc_sorter_axioms hnsw_pair_wf ctx_new_ok _ pair_query
      pair_connected [folded hnsw_pair_fields] _ _ isort.partial_sorter_axioms
      flat_pair_search [folded flat_of_pair]]
    unit_scores
  by (simp add: pair_live node_score_def own_pair cfg_small_def unit_similarities)

section \<open>Deletion\<close>

text \<open>C17: Deleting an id whose vector was inserted once removes it from the live vectors and
  nothing else; the index says it is deleted, stays well-formed, and no later search returns the
  id, for any query and any \<open>k\<close>, while the slot stays in the graph.\<close>

theorem hnsw_deleted_not_found:
  assumes "desc_sorter srt" and "hnsw_wf h" and "visit_ok ctx" and "h_num_vectors h < 2 ^ 32"
    and "distinct (h_id_map h)" and "hnsw_delete x h = Inr h'"
    and "hnsw_search srt h' query k ctx = Inr (rs, ctx')"
  shows "hnsw_wf h' \<and> live_ids (hnsw_slots h') = filter (\<lambda>i. i \<noteq> x) (live_ids (hnsw_slots h))
    \<and> hnsw_is_deleted h' x = Inr (x \<in> set (h_id_map h)) \<and> x \<notin> snd ` set rs"
proof -
  have sizes: "hnsw_sizes h" using assms(2) by (simp add: hnsw_wf_def)
  obtain ts where h': "h' = h\<lparr>h_tombstone := ts\<rparr>" and ts: "length ts = h_num_vectors h"
    by (rule hnsw_delete_marks [OF hnsw_sizes_slots [OF sizes] assms(6)])
  have wf': "hnsw_wf h'" by (rule hnsw_delete_keeps [OF assms(2,6)])
  then have sizes': "hnsw_sizes h'" by (simp add: hnsw_wf_def)
  have ids: "map fst (hnsw_slots h) = h_id_map h" by (rule hnsw_slots_ids [OF hnsw_sizes_slots [OF sizes]])
  have live: "live_ids (hnsw_slots h') = filter (\<lambda>i. i \<noteq> x) (live_ids (hnsw_slots h))"
    by (rule hnsw.delete_removes) (use sizes assms(5,6) ids in \<open>simp_all add: hnsw_deletes_def\<close>)
  have same: "h_id_map h' = h_id_map h" by (simp add: h')
  then have "set (h_id_map h) = fst ` set (hnsw_slots h')"
    using hnsw_slots_ids [OF hnsw_sizes_slots [OF sizes']] by (metis list.set_map)
  moreover have "(x, False) \<notin> set (hnsw_slots h')"
  proof
    assume "(x, False) \<in> set (hnsw_slots h')"
    then have "x \<in> set (live_ids (hnsw_slots h'))" by (force simp: live_ids_def)
    then show False by (simp add: live)
  qed
  ultimately have "(x, True) \<in> set (hnsw_slots h') \<longleftrightarrow> x \<in> set (h_id_map h)"
    using marked_slot [of x "set (hnsw_slots h')"] by simp
  then have "hnsw_is_deleted h' x = Inr (x \<in> set (h_id_map h))"
    using hnsw_is_deleted_slots [OF sizes', of x] assms(5) same by simp
  moreover have "x \<notin> snd ` set rs"
  proof
    assume "x \<in> snd ` set rs"
    moreover obtain idxs where idxs: "map snd rs = map ((!) (h_id_map h')) idxs" "set idxs \<subseteq> set (live_nodes h')"
      using search_returns_live [OF assms(1) wf' assms(3) _ assms(7)] assms(4) by (auto simp: h')
    ultimately obtain i where "i \<in> set (live_nodes h')" "h_id_map h' ! i = x"
      by (metis (no_types, lifting) imageE list.set_map subsetD)
    then have "x \<in> set (live_ids (hnsw_slots h'))"
      using sizes' by (auto simp: live_ids_hnsw live_nodes_def hnsw_sizes_def)
    then show False by (simp add: live)
  qed
  ultimately show ?thesis using wf' live by blast
qed

lemma pair_delete: "hnsw_delete 7 hnsw_pair = Inr (hnsw_pair\<lparr>h_tombstone := [True, False]\<rparr>)"
  by (simp add: hnsw_delete_def upd_r_def numeral_2_eq_2)

lemma own_marks [simp]: "own_vector (h\<lparr>h_tombstone := ts\<rparr>) = own_vector h"
  by (simp add: own_vector_def fun_eq_iff)

theorem hnsw_deleted_not_found_witness:
  "\<exists>rs ctx'. hnsw_search isort_desc (hnsw_pair\<lparr>h_tombstone := [True, False]\<rparr>) [f32_one] 2 ctx_new
      = Inr (rs, ctx') \<and> 7 \<notin> snd ` set rs"
proof -
  let ?h = "hnsw_pair\<lparr>h_tombstone := [True, False]\<rparr>"
  have "query_ok ?h [f32_one]"
    using pair_query by (simp add: query_ok_def node_score_def)
  then have "\<exists>rs ctx'. hnsw_search isort_desc ?h [f32_one] 2 ctx_new = Inr (rs, ctx')"
    by (intro search_returns) (simp_all add: isort.whole.desc_sorter_axioms hnsw_wf_marks)
  then obtain rs ctx' where run: "hnsw_search isort_desc ?h [f32_one] 2 ctx_new = Inr (rs, ctx')"
    by blast
  have "distinct (h_id_map hnsw_pair)" by simp
  from hnsw_deleted_not_found [OF isort.whole.desc_sorter_axioms hnsw_pair_wf ctx_new_ok _ this pair_delete run]
  show ?thesis using run by auto
qed

text \<open>C35: An id that is inserted again after its deletion cannot be deleted any more: the
  deletion marks the old slot again and the new vector stays live, so searches keep finding it.\<close>

theorem hnsw_delete_after_reinsert:
  assumes "hnsw_wf h" and "x \<in> set (live_ids (hnsw_slots h))" and "hnsw_delete x h = Inr h1"
    and "hnsw_insert srt logf val x vec meta (h1, ctx) = Inr (h2, ctx')" and "hnsw_delete x h2 = Inr h3"
  shows "x \<in> set (live_ids (hnsw_slots h3))"
proof (rule hnsw.delete_reinserted [of _ h1])
  have sizes: "hnsw_sizes h" using assms(1) by (simp add: hnsw_wf_def)
  have sizes1: "hnsw_sizes h1" using hnsw_delete_keeps [OF assms(1,3)] by (simp add: hnsw_wf_def)
  have ids: "map fst (hnsw_slots h1) = map fst (hnsw_slots h)"
    by (rule hnsw.ids_kept) (use sizes assms(3) in \<open>simp add: hnsw_deletes_def\<close>)
  have "fst ` set (hnsw_slots h1) = fst ` set (hnsw_slots h)" by (simp only: ids set_map [symmetric])
  then show "x \<in> fst ` set (hnsw_slots h1)" using assms(2) live_ids_subset [of "hnsw_slots h"] by (simp add: subset_eq)
  show "hnsw_inserts h1 x h2" using hnsw_sizes_slots [OF sizes1] assms(4) unfolding hnsw_inserts_def by blast
  have "inserted x vec meta h1 h2" using hnsw_insert_inserted [OF assms(4)] by blast
  then have "slots_sized h2" using sizes1 by (simp add: slots_sized_def hnsw_sizes_def inserted_def)
  then show "hnsw_deletes h2 x h3"
    using assms(5) by (simp add: hnsw_deletes_def)
qed

theorem hnsw_delete_after_reinsert_witness:
  "\<exists>h1 h2 ctx' h3. hnsw_delete 7 hnsw_pair = Inr h1
    \<and> hnsw_insert isort_desc log_low (F32 0x3F000000) 7 [f32_one] ''c'' (h1, ctx_new) = Inr (h2, ctx')
    \<and> hnsw_delete 7 h2 = Inr h3 \<and> 7 \<in> set (live_ids (hnsw_slots h3))"
proof -
  let ?h1 = "hnsw_pair\<lparr>h_tombstone := [True, False]\<rparr>"
  have wf1: "hnsw_wf ?h1" by (simp add: hnsw_wf_marks)
  have "no_nan_scores 1 ([f32_one] # stored_vectors ?h1)"
    using pair_no_nan by (simp add: stored_vectors_def)
  then obtain h2 ctx' where ins: "hnsw_insert isort_desc log_low (F32 0x3F000000) 7 [f32_one] ''c'' (?h1, ctx_new)
      = Inr (h2, ctx')"
    using holdsR_returns [OF hnsw_insert_spec [OF isort.whole.desc_sorter_axioms wf1 ctx_new_ok, of log_low
        "F32 0x3F000000" 0 True "[f32_one]" 7 "''c''"]] level_low by auto
  have "inserted 7 [f32_one] ''c'' ?h1 h2" using hnsw_insert_inserted [OF ins] by blast
  then have "slots_sized h2" by (simp add: slots_sized_def inserted_def)
  then obtain h3 where del: "hnsw_delete 7 h2 = Inr h3" using hnsw_delete_defined by blast
  have "7 \<in> set (live_ids (hnsw_slots hnsw_pair))" by (simp add: hnsw_slots_def)
  from hnsw_delete_after_reinsert [OF hnsw_pair_wf this pair_delete ins del] show ?thesis
    using pair_delete ins del by blast
qed

section \<open>The visited table\<close>

text \<open>C31: The thread-local visited table is shared by all searches and never cleared between
  them, yet at the start of a layer search no node counts as visited and every node of the index
  has a mark: the 16-bit tag is larger than every mark, and when it wraps around to zero the
  marks are cleared.\<close>

theorem begin_visit_fresh:
  assumes "visit_ok ctx"
  shows "(\<forall>i. is_visited (begin_visit nv ctx) i \<noteq> Inr True) \<and> visit_ok (begin_visit nv ctx)
    \<and> nv \<le> vis_size (begin_visit nv ctx)"
  using begin_visit_props [OF assms, of nv] by (auto simp: is_visited_def visited_def)

text \<open>After 65535 searches: the tag wraps.\<close>

theorem begin_visit_fresh_witness:
  "vis_tag (begin_visit 1 \<lparr>vis_size = 1, vis_at = (\<lambda>_. 1), vis_tag = 0xFFFF, vis_env = ()\<rparr>) = 1
    \<and> is_visited (begin_visit 1 \<lparr>vis_size = 1, vis_at = (\<lambda>_. 1), vis_tag = 0xFFFF, vis_env = ()\<rparr>) 0
      \<noteq> Inr True"
proof -
  have "visit_ok \<lparr>vis_size = 1, vis_at = (\<lambda>_. 1), vis_tag = 0xFFFF, vis_env = ()\<rparr>"
    by (simp add: visit_ok_def)
  from begin_visit_fresh [OF this, of 1] show ?thesis by (simp add: begin_visit_def)
qed

end
