(* ===== verification/Hnsw_Store.thy ===== *)
theory Hnsw_Store
  imports Hnsw_Properties Wal
begin

text \<open>
  \<open>HNSWIndex::save\<close>, \<open>load\<close> and \<open>compact\<close> (\<open>src/src/hnsw.cpp\<close>).  \<open>save\<close> writes the
  header, the arrays, the metadata strings, the tombstones packed into 64-bit words and the
  graph; \<open>load\<close> never tests what \<open>fread\<close> returns, so on a short file a local variable stays
  uninitialised (using it is undefined) and an object keeps its old bytes where none were
  read.  Writes succeed, memory suffices for every vector below \<open>max_size()\<close>.
\<close>

section \<open>Reading into objects\<close>

text \<open>\<open>fread\<close> over the bytes \<open>old\<close> of an object: what is missing keeps its old bytes.\<close>

definition fread_over :: "byte list \<Rightarrow> byte list \<Rightarrow> byte list \<times> byte list" where
  "fread_over old bs = (take (length old) bs @ drop (length bs) old, drop (length old) bs)"

text \<open>A local \<open>uint32_t\<close> or \<open>uint64_t\<close> that is used afterwards.\<close>

definition read_local32 :: "byte list \<Rightarrow> (32 word \<times> byte list) res" where
  "read_local32 bs = (case read_u32 bs of None \<Rightarrow> Inl Undefined_Behaviour | Some r \<Rightarrow> Inr r)"

definition read_local64 :: "byte list \<Rightarrow> (64 word \<times> byte list) res" where
  "read_local64 bs = (case read_u64 bs of None \<Rightarrow> Inl Undefined_Behaviour | Some r \<Rightarrow> Inr r)"

text \<open>Arrays of integers as bytes.\<close>

primrec chunks :: "nat \<Rightarrow> nat \<Rightarrow> byte list \<Rightarrow> byte list list" where
  "chunks k 0 bs = []"
| "chunks k (Suc n) bs = take k bs # chunks k n (drop k bs)"

definition u32s_bytes :: "nat list \<Rightarrow> byte list" where
  "u32s_bytes xs = concat (map (\<lambda>x. le32 (u32 x)) xs)"

definition u64s_bytes :: "64 word list \<Rightarrow> byte list" where
  "u64s_bytes xs = concat (map le64 xs)"

definition u32_of_bytes :: "byte list \<Rightarrow> 32 word" where
  "u32_of_bytes bs = word_of_nat (le_nat bs)"

definition u64_of_bytes :: "byte list \<Rightarrow> 64 word" where
  "u64_of_bytes bs = word_of_nat (le_nat bs)"

text \<open>\<open>fread\<close> into the data of a vector of 64-bit words, of floats, of 32-bit words.\<close>

definition fread_u64s :: "64 word list \<Rightarrow> byte list \<Rightarrow> 64 word list \<times> byte list" where
  "fread_u64s old bs = (case fread_over (u64s_bytes old) bs of (x, rest) \<Rightarrow>
     (map u64_of_bytes (chunks 8 (length old) x), rest))"

definition fread_f32s :: "f32 list \<Rightarrow> byte list \<Rightarrow> f32 list \<times> byte list" where
  "fread_f32s old bs = (case fread_over (f32s_bytes old) bs of (x, rest) \<Rightarrow>
     (f32s_of_bytes (length old) x, rest))"

definition fread_u32s :: "nat list \<Rightarrow> byte list \<Rightarrow> nat list \<times> byte list" where
  "fread_u32s old bs = (case fread_over (u32s_bytes old) bs of (x, rest) \<Rightarrow>
     (map (\<lambda>b. unat (u32_of_bytes b)) (chunks 4 (length old) x), rest))"

text \<open>\<open>resize\<close> throws \<open>std::length_error\<close> above \<open>max_size()\<close>, \<open>PTRDIFF_MAX\<close> bytes.\<close>

definition resize_r :: "nat \<Rightarrow> 'a \<Rightarrow> nat \<Rightarrow> 'a list \<Rightarrow> 'a list res" where
  "resize_r elem d n xs = bindR (guardR (n * elem < 2 ^ 63) Length_Error) (\<lambda>_. Inr (resize d n xs))"

text \<open>A loop over all slots of a vector that fills each from the file.\<close>

primrec fill :: "('a \<Rightarrow> byte list \<Rightarrow> ('a \<times> byte list) res) \<Rightarrow> 'a list \<Rightarrow> byte list
    \<Rightarrow> ('a list \<times> byte list) res" where
  "fill f [] bs = Inr ([], bs)"
| "fill f (x # xs) bs =
     bindR (f x bs) (\<lambda>(y, bs). bindR (fill f xs bs) (\<lambda>(ys, bs). Inr (y # ys, bs)))"

section \<open>Save\<close>

definition ndb_magic :: "32 word" where
  "ndb_magic = 0x4E444220"

text \<open>\<open>tbits[i / 64] |= 1 << (i % 64)\<close> for every tombstone.\<close>

definition pack_tombstone :: "bool list \<Rightarrow> nat \<Rightarrow> 64 word list \<Rightarrow> 64 word list res" where
  "pack_tombstone ts i tbits =
     bindR (nth_r ts i) (\<lambda>t.
     if t then bindR (nth_r tbits (i div 64)) (\<lambda>w. upd_r tbits (i div 64) (or w (push_bit (i mod 64) 1)))
     else Inr tbits)"

definition pack_tombstones :: "nat \<Rightarrow> bool list \<Rightarrow> 64 word list res" where
  "pack_tombstones nv ts = foldR (pack_tombstone ts) [0..<nv] (replicate ((nv + 63) div 64) 0)"

text \<open>A metadata string, the links of a node on a layer, and a node, with their lengths.\<close>

definition meta_bytes :: "string \<Rightarrow> byte list" where
  "meta_bytes m =
     (let len = u32 (length m) in le32 len @ take (unat len) (bytes_of_string m))"

definition links_bytes :: "nat list \<Rightarrow> byte list" where
  "links_bytes ls =
     (let sz = u32 (length ls) in le32 sz @ (if sz \<noteq> 0 then u32s_bytes (take (unat sz) ls) else []))"

definition node_bytes :: "nat list list \<Rightarrow> byte list" where
  "node_bytes levels = le32 (u32 (length levels)) @ concat (map links_bytes levels)"

text \<open>The bytes \<open>save\<close> writes.\<close>

definition index_bytes :: "'s hnsw \<Rightarrow> byte list res" where
  "index_bytes h =
     (let nv = h_num_vectors h in
      bindR (pack_tombstones nv (h_tombstone h)) (\<lambda>tbits.
      bindR (mapR (\<lambda>i. bindR (nth_r (h_graph h) i) (\<lambda>levels. Inr (node_bytes levels))) [0..<nv])
        (\<lambda>nodes.
      Inr (le32 ndb_magic @ le32 2 @ le32 (u32 (h_dim h)) @ le32 0 @ le64 (word_of_nat nv)
           @ u64s_bytes (h_id_map h) @ f32s_bytes (h_raw_vectors h)
           @ concat (map meta_bytes (h_metadata h))
           @ le32 (word_of_int (h_max_layer h)) @ le32 (u32 (h_entry_point h))
           @ u64s_bytes tbits @ concat nodes))))"

definition hnsw_save :: "string \<Rightarrow> 's hnsw \<Rightarrow> filesys \<Rightarrow> filesys res" where
  "hnsw_save path h fs =
     (case fopen_wb fs path of
        None \<Rightarrow> Inl (Runtime_Error (''Cannot open file for write: '' @ path))
      | Some fs \<Rightarrow>
          bindR (index_bytes h) (\<lambda>bs. Inr (fs\<lparr>fs_files := (fs_files fs)(path \<mapsto> bs)\<rparr>)))"

section \<open>Load\<close>

definition load_meta :: "string \<Rightarrow> byte list \<Rightarrow> (string \<times> byte list) res" where
  "load_meta old bs =
     bindR (read_local32 bs) (\<lambda>(len, bs).
     case fread_over (bytes_of_string (resize (CHR 0x00) (unat len) old)) bs of (x, bs) \<Rightarrow>
       Inr (string_of_bytes x, bs))"

definition load_links :: "nat list \<Rightarrow> byte list \<Rightarrow> (nat list \<times> byte list) res" where
  "load_links old bs =
     bindR (read_local32 bs) (\<lambda>(sz, bs).
     let ls = resize 0 (unat sz) old in
     Inr (if sz \<noteq> 0 then fread_u32s ls bs else (ls, bs)))"

definition load_node :: "nat list list \<Rightarrow> byte list \<Rightarrow> (nat list list \<times> byte list) res" where
  "load_node old bs =
     bindR (read_local32 bs) (\<lambda>(nlayers, bs). fill load_links (resize [] (unat nlayers) old) bs)"

text \<open>\<open>(tbits[i / 64] >> (i % 64)) & 1\<close>.\<close>

definition unpack_tombstone :: "64 word list \<Rightarrow> nat \<Rightarrow> bool res" where
  "unpack_tombstone tbits i =
     bindR (nth_r tbits (i div 64)) (\<lambda>w. Inr (and (drop_bit (i mod 64) w) 1 \<noteq> 0))"

text \<open>The tombstones: a file of version 1 has none, and the marks of the old slots stay.\<close>

definition load_tombstones :: "32 word \<Rightarrow> nat \<Rightarrow> bool list \<Rightarrow> byte list
    \<Rightarrow> (bool list \<times> byte list) res" where
  "load_tombstones ver nv old bs =
     (let ts = resize False nv old in
      if 2 \<le> ver
      then (case fread_u64s (replicate ((nv + 63) div 64) 0) bs of (tbits, bs) \<Rightarrow>
        bindR (mapR (unpack_tombstone tbits) [0..<nv]) (\<lambda>ts. Inr (ts, bs)))
      else Inr (ts, bs))"

text \<open>
  What follows the magic number.  A short header leaves \<open>dim32\<close> or \<open>nv\<close> uninitialised;
  \<open>nv * dim_\<close> is a \<open>size_t\<close>.
\<close>

definition load_body :: "'s hnsw \<Rightarrow> byte list \<Rightarrow> 's hnsw res" where
  "load_body h bs =
     bindR (read_local32 bs) (\<lambda>(ver, bs).
     bindR (read_local32 bs) (\<lambda>(dim32, bs).
     bindR (read_local32 bs) (\<lambda>(reserved, bs).
     bindR (read_local64 bs) (\<lambda>(nv64, bs).
     let n = unat dim32; nv = unat nv64 in
     bindR (resize_r 8 0 nv (h_id_map h)) (\<lambda>ids.
     case fread_u64s ids bs of (ids, bs) \<Rightarrow>
     bindR (resize_r 4 0 (nv * n mod 2 ^ 64) (h_raw_vectors h)) (\<lambda>raw.
     case fread_f32s raw bs of (raw, bs) \<Rightarrow>
     bindR (resize_r 32 [] nv (h_metadata h)) (\<lambda>metas.
     bindR (fill load_meta metas bs) (\<lambda>(metas, bs).
     case fread_over (le32 (word_of_int (h_max_layer h))) bs of (ml, bs) \<Rightarrow>
     case fread_over (le32 (u32 (h_entry_point h))) bs of (ep, bs) \<Rightarrow>
     bindR (load_tombstones ver nv (h_tombstone h) bs) (\<lambda>(ts, bs).
     bindR (resize_r 24 [] nv (h_graph h)) (\<lambda>g.
     bindR (fill load_node g bs) (\<lambda>(g, bs).
     Inr (h\<lparr>h_dim := n, h_num_vectors := nv, h_id_map := ids, h_raw_vectors := raw,
            h_metadata := metas, h_max_layer := sint (u32_of_bytes ml),
            h_entry_point := unat (u32_of_bytes ep), h_tombstone := ts, h_graph := g\<rparr>))))))))))))"

definition hnsw_load :: "string \<Rightarrow> 's hnsw \<Rightarrow> filesys \<Rightarrow> 's hnsw res" where
  "hnsw_load path h fs =
     (case fopen_rb fs path of
        None \<Rightarrow> Inl (Runtime_Error (''Cannot open file for read: '' @ path))
      | Some bs \<Rightarrow>
          bindR (read_local32 bs) (\<lambda>(magic, bs).
          if magic \<noteq> ndb_magic then Inl (Runtime_Error ''Bad magic'') else load_body h bs))"

section \<open>Compact\<close>

text \<open>
  The fresh index: every live vector is inserted again, in order, with a level drawn for it.
  The pointer reaches from the vector to the end of \<open>raw_vectors_\<close>.
\<close>

definition reinsert ::
    "(scored list \<Rightarrow> scored list) \<Rightarrow> (f32 \<Rightarrow> f32) \<Rightarrow> (nat \<Rightarrow> f32) \<Rightarrow> 's hnsw \<Rightarrow> nat
      \<Rightarrow> 's hnsw \<times> 's visit_ctx \<Rightarrow> ('s hnsw \<times> 's visit_ctx) res" where
  "reinsert srt logf draws h i s =
     bindR (nth_r (h_tombstone h) i) (\<lambda>dead.
     if dead then Inr s
     else
       bindR (nth_r (h_id_map h) i) (\<lambda>x.
       bindR (nth_r (h_metadata h) i) (\<lambda>meta.
       hnsw_insert srt logf (draws i) x (drop (i * h_dim h) (h_raw_vectors h)) meta s)))"

definition hnsw_rebuild ::
    "(scored list \<Rightarrow> scored list) \<Rightarrow> (f32 \<Rightarrow> f32) \<Rightarrow> (nat \<Rightarrow> f32) \<Rightarrow> 's hnsw \<Rightarrow> 's visit_ctx
      \<Rightarrow> ('s hnsw \<times> 's visit_ctx) res" where
  "hnsw_rebuild srt logf draws h ctx =
     foldR (reinsert srt logf draws h) [0..<h_num_vectors h]
       (hnsw_new logf (h_dim h) (h_cfg h), ctx)"

text \<open>\<open>compact\<close> does not change the index itself: the result is what happens to the files.\<close>

definition hnsw_compact ::
    "(scored list \<Rightarrow> scored list) \<Rightarrow> (f32 \<Rightarrow> f32) \<Rightarrow> (nat \<Rightarrow> f32) \<Rightarrow> string \<Rightarrow> string
      \<Rightarrow> 's hnsw \<Rightarrow> 's visit_ctx \<times> filesys \<Rightarrow> unit res \<times> 's visit_ctx \<times> filesys" where
  "hnsw_compact srt logf draws index_path log_path h = (\<lambda>(ctx, fs).
     case hnsw_rebuild srt logf draws h ctx of
       Inl e \<Rightarrow> (Inl e, ctx, fs)
     | Inr (fresh, ctx) \<Rightarrow>
         (case hnsw_save index_path fresh fs of
            Inl e \<Rightarrow> (Inl e, ctx, fs)
          | Inr fs \<Rightarrow>
              (case wal_open log_path fs of
                 Inl e \<Rightarrow> (Inl e, ctx, fs)
               | Inr s \<Rightarrow> (case wal_checkpoint s of (r, w, fs) \<Rightarrow> (r, ctx, fs)))))"

section \<open>What is written is read back\<close>

lemma fread_over_append: "length x = length old \<Longrightarrow> fread_over old (x @ rest) = (x, rest)"
  by (simp add: fread_over_def)

lemma read_local_append [simp]:
  "read_local32 (le32 w @ rest) = Inr (w, rest)" "read_local64 (le64 v @ rest) = Inr (v, rest)"
  by (simp_all add: read_local32_def read_local64_def)

lemma u32_of_le32 [simp]: "u32_of_bytes (le32 w) = w"
  using read_u32_append [of w "[]"] by (simp add: read_u32_def read_bytes_def u32_of_bytes_def)

lemma u64_of_le64 [simp]: "u64_of_bytes (le64 w) = w"
  using read_u64_append [of w "[]"] by (simp add: read_u64_def read_bytes_def u64_of_bytes_def)

lemma le32_of_bytes: "length bs = 4 \<Longrightarrow> le32 (u32_of_bytes bs) = bs"
  using le_bytes_le_nat [of bs] le_nat_less [of bs] by (simp add: le32_def u32_of_bytes_def unat_of_nat)

lemma length_u64s_bytes [simp]: "length (u64s_bytes xs) = 8 * length xs"
  by (induction xs) (simp_all add: u64s_bytes_def)

lemma length_u32s_bytes [simp]: "length (u32s_bytes xs) = 4 * length xs"
  by (induction xs) (simp_all add: u32s_bytes_def)

lemma chunks_concat:
  "\<forall>x\<in>set xs. length (enc x) = k \<Longrightarrow> chunks k (length xs) (concat (map enc xs)) = map enc xs"
  by (induction xs) simp_all

lemma fread_u64s_append:
  assumes "length xs = length old"
  shows "fread_u64s old (u64s_bytes xs @ rest) = (xs, rest)"
proof -
  have "chunks 8 (length old) (u64s_bytes xs) = map le64 xs"
    using chunks_concat [of xs le64 8] assms by (simp add: u64s_bytes_def)
  then have "map u64_of_bytes (chunks 8 (length old) (u64s_bytes xs)) = xs" by (simp add: map_idI)
  then show ?thesis using assms by (simp add: fread_u64s_def fread_over_append)
qed

lemma fread_f32s_append: "length v = length old \<Longrightarrow> fread_f32s old (f32s_bytes v @ rest) = (v, rest)"
  using f32s_of_bytes_inverse [of v] by (simp add: fread_f32s_def fread_over_append)

lemma fread_u32s_append:
  assumes "length xs = length old" and "\<forall>x\<in>set xs. x < 2 ^ 32"
  shows "fread_u32s old (u32s_bytes xs @ rest) = (xs, rest)"
proof -
  have "chunks 4 (length old) (u32s_bytes xs) = map (\<lambda>x. le32 (u32 x)) xs"
    using chunks_concat [of xs "\<lambda>x. le32 (u32 x)" 4] assms(1) by (simp add: u32s_bytes_def)
  then have "map (\<lambda>b. unat (u32_of_bytes b)) (chunks 4 (length old) (u32s_bytes xs)) = xs"
    using assms(2) by (simp add: map_idI u32_unat)
  then show ?thesis using assms(1) by (simp add: fread_u32s_def fread_over_append)
qed

text \<open>A format: the reader \<open>f\<close> gives back what \<open>enc\<close> wrote, into any old object.\<close>

locale file_format =
  fixes enc :: "'a \<Rightarrow> byte list" and f :: "'a \<Rightarrow> byte list \<Rightarrow> ('a \<times> byte list) res" and fits :: "'a \<Rightarrow> bool"
  assumes read_back: "fits x \<Longrightarrow> f old (enc x @ rest) = Inr (x, rest)"
begin

lemma fill_back:
  "length old = length xs \<Longrightarrow> \<forall>x\<in>set xs. fits x \<Longrightarrow>
    fill f old (concat (map enc xs) @ rest) = Inr (xs, rest)"
  by (induction old xs rule: list_induct2) (simp_all add: read_back)

end

definition meta_fits :: "string \<Rightarrow> bool" where
  "meta_fits m \<longleftrightarrow> length m < 2 ^ 32"

definition links_fit :: "nat list \<Rightarrow> bool" where
  "links_fit ls \<longleftrightarrow> length ls < 2 ^ 32 \<and> (\<forall>x\<in>set ls. x < 2 ^ 32)"

definition node_fits :: "nat list list \<Rightarrow> bool" where
  "node_fits levels \<longleftrightarrow> length levels < 2 ^ 32 \<and> (\<forall>ls\<in>set levels. links_fit ls)"

interpretation meta_format: file_format meta_bytes load_meta meta_fits
proof
  fix x old :: string and rest
  assume "meta_fits x"
  then show "load_meta old (meta_bytes x @ rest) = Inr (x, rest)"
    by (simp add: load_meta_def meta_bytes_def meta_fits_def Let_def u32_unat fread_over_append)
qed

interpretation links_format: file_format links_bytes load_links links_fit
proof
  fix x old rest
  assume fits: "links_fit x"
  then have len: "unat (u32 (length x)) = length x" by (simp add: links_fit_def u32_unat)
  then have "u32 (length x) = 0 \<longleftrightarrow> x = []" by (metis length_0_conv unat_0 unat_eq_zero)
  then show "load_links old (links_bytes x @ rest) = Inr (x, rest)"
    using fits len fread_u32s_append [of x "resize 0 (length x) old" rest]
    by (auto simp: load_links_def links_bytes_def Let_def links_fit_def resize_def)
qed

interpretation node_format: file_format node_bytes load_node node_fits
proof
  fix x old rest
  assume "node_fits x"
  then show "load_node old (node_bytes x @ rest) = Inr (x, rest)"
    using links_format.fill_back [of "resize [] (length x) old" x rest]
    by (simp add: load_node_def node_bytes_def node_fits_def u32_unat)
qed

section \<open>The tombstone words\<close>

lemma pack_tombstones_spec:
  assumes "nv \<le> length ts"
  shows "okR (pack_tombstones nv ts) (\<lambda>tbits. length tbits = (nv + 63) div 64
    \<and> (\<forall>i<nv. bit (tbits ! (i div 64)) (i mod 64) = ts ! i))"
proof -
  let ?W = "(nv + 63) div 64"
  let ?P = "\<lambda>ys tb. length tb = ?W
    \<and> (\<forall>i<nv. bit (tb ! (i div 64)) (i mod 64) = (i \<in> set ys \<and> ts ! i))"
  have word: "i div 64 < ?W" if "i < nv" for i using that by linarith
  have "okR (foldR (pack_tombstone ts) [0..<nv] (replicate ?W 0)) (?P [0..<nv])"
  proof (rule okR_foldR_prefix)
    show "?P [] (replicate ?W 0)" using word by simp
  next
    fix ys x zs and tb :: "64 word list"
    assume split: "[0..<nv] = ys @ x # zs" and P: "?P ys tb"
    have "x \<in> set [0..<nv]" by (simp add: split)
    then have x: "x < nv" "x < length ts" "x div 64 < length tb" using assms word P by auto
    have bits: "bit (or w (2 ^ (x mod 64)) :: 64 word) k = (bit w k \<or> k = x mod 64)"
      if "k < 64" for w k
      using that by (auto simp: bit_or_iff bit_exp_iff)
    have same: "i = x \<longleftrightarrow> i div 64 = x div 64 \<and> i mod 64 = x mod 64" for i
      by (metis div_mult_mod_eq)
    show "okR (pack_tombstone ts x tb) (?P (ys @ [x]))"
    proof (cases "ts ! x")
      case False
      then show ?thesis using x P by (auto simp: pack_tombstone_def)
    next
      case True
      let ?w = "or (tb ! (x div 64)) (push_bit (x mod 64) 1)"
      have "bit (tb[x div 64 := ?w] ! (i div 64)) (i mod 64) = (i \<in> set (ys @ [x]) \<and> ts ! i)"
        if "i < nv" for i
      proof (cases "i div 64 = x div 64")
        case True
        then show ?thesis
          using P that x \<open>ts ! x\<close> same [of i] by (auto simp: bits)
      next
        case False
        then show ?thesis using P that same [of i] by auto
      qed
      then show ?thesis using True x P by (simp add: pack_tombstone_def)
    qed
  qed
  then show ?thesis unfolding pack_tombstones_def by (rule okR_mono) simp
qed

lemma unpack_tombstones:
  assumes "length tbits = (nv + 63) div 64" and "length ts = nv"
    and "\<forall>i<nv. bit (tbits ! (i div 64)) (i mod 64) = ts ! i"
  shows "mapR (unpack_tombstone tbits) [0..<nv] = Inr ts"
  unfolding mapR_Inr_iff list_all2_conv_all_nth
proof (intro conjI allI impI)
  fix i
  assume "i < length [0..<nv]"
  then have i: "i < nv" by simp
  then have "i div 64 < length tbits" using assms(1) by linarith
  moreover have "(and (drop_bit (i mod 64) w) 1 \<noteq> 0) = bit w (i mod 64)" for w :: "64 word"
    by (simp add: and_one_eq odd_iff_mod_2_eq_one bit_iff_odd_drop_bit)
  ultimately show "unpack_tombstone tbits ([0..<nv] ! i) = Inr (ts ! i)"
    using assms(3) i by (simp add: unpack_tombstone_def nth_r_def)
qed (use assms(2) in simp)

section \<open>Saving and loading\<close>

text \<open>Sizes that the fields of the file hold.\<close>

definition storable :: "'s hnsw \<Rightarrow> bool" where
  "storable h \<longleftrightarrow> hnsw_sizes h \<and> h_dim h < 2 ^ 32 \<and> h_num_vectors h < 2 ^ 32
     \<and> 4 * (h_num_vectors h * h_dim h) < 2 ^ 63
     \<and> - (2 ^ 31) \<le> h_max_layer h \<and> h_max_layer h < 2 ^ 31 \<and> h_entry_point h < 2 ^ 32
     \<and> (\<forall>m\<in>set (h_metadata h). meta_fits m) \<and> (\<forall>g\<in>set (h_graph h). node_fits g)"

lemma wf_storable:
  assumes wf: "hnsw_wf h" and num: "h_num_vectors h < 2 ^ 32" and dim: "h_dim h < 2 ^ 32"
    and size: "4 * (h_num_vectors h * h_dim h) < 2 ^ 63" and meta: "\<forall>m\<in>set (h_metadata h). meta_fits m"
  shows "storable h"
proof -
  let ?n = "h_num_vectors h"
  have g: "graph_wf (cfg_M (h_cfg h)) (h_graph h)" "length (h_graph h) = ?n" and sizes: "hnsw_sizes h"
    and lv: "levels_wf h"
    using wf by (simp_all add: hnsw_wf_def hnsw_sizes_def)
  have "links_fit (h_graph h ! i ! l)" if "i < ?n" "l < length (h_graph h ! i)" for i l
  proof -
    let ?ls = "h_graph h ! i ! l"
    have i: "i < length (h_graph h)" using that g(2) by simp
    have "set ?ls \<subseteq> {..<?n}" using graph_wfD(3) [OF g(1) i that(2)] g(2) by auto
    moreover have "length ?ls = card (set ?ls)" using graph_wfD(1) [OF g(1) i that(2)] by (simp add: distinct_card)
    ultimately have "length ?ls \<le> ?n" by (metis card_lessThan card_mono finite_lessThan)
    then show ?thesis using num \<open>set ?ls \<subseteq> {..<?n}\<close> by (auto simp: links_fit_def)
  qed
  moreover have "length (h_graph h ! i) < 2 ^ 32" if "i < ?n" for i
    using lv that g(2) by (auto simp: levels_wf_def)
  ultimately have "\<forall>g\<in>set (h_graph h). node_fits g"
    using g(2) by (auto simp: node_fits_def in_set_conv_nth)
  moreover have "- (2 ^ 31) \<le> h_max_layer h \<and> h_max_layer h < 2 ^ 31 \<and> h_entry_point h < 2 ^ 32"
    using lv num g(2) by (cases "h_graph h = []") (auto simp: levels_wf_def)
  ultimately show ?thesis using sizes num dim size meta by (simp add: storable_def)
qed

lemma sint_of_int: "- (2 ^ 31) \<le> n \<Longrightarrow> n < 2 ^ 31 \<Longrightarrow> sint (word_of_int n :: 32 word) = n"
  by (simp add: sint_sbintrunc' signed_take_bit_int_eq_self)

text \<open>What a loaded index keeps of the index it is loaded into.\<close>

definition loaded_into :: "'s hnsw \<Rightarrow> 's hnsw \<Rightarrow> 's hnsw" where
  "loaded_into h0 h =
     h\<lparr>h_cfg := h_cfg h0, h_mL := h_mL h0, h_vec_accessor := h_vec_accessor h0\<rparr>"

lemma load_tombstones_back:
  assumes "length ts = nv" and "length tbits = (nv + 63) div 64"
    and "\<forall>i<nv. bit (tbits ! (i div 64)) (i mod 64) = ts ! i"
  shows "load_tombstones 2 nv old (u64s_bytes tbits @ rest) = Inr (ts, rest)"
  using fread_u64s_append [of tbits "replicate ((nv + 63) div 64) 0" rest]
    unpack_tombstones [OF assms(2,1,3)] assms(2)
  by (simp add: load_tombstones_def Let_def)

lemma index_bytes_back:
  assumes st: "storable h"
  shows "\<exists>body. index_bytes h = Inr (le32 ndb_magic @ body) \<and> load_body h0 body = Inr (loaded_into h0 h)"
proof -
  let ?n = "h_num_vectors h"
  have sizes: "length (h_id_map h) = ?n" "length (h_metadata h) = ?n" "length (h_tombstone h) = ?n"
    "length (h_graph h) = ?n" "length (h_raw_vectors h) = ?n * h_dim h"
    using st by (simp_all add: storable_def hnsw_sizes_def)
  have fits: "h_dim h < 2 ^ 32" "?n < 2 ^ 32" "4 * (?n * h_dim h) < 2 ^ 63"
    "- (2 ^ 31) \<le> h_max_layer h" "h_max_layer h < 2 ^ 31" "h_entry_point h < 2 ^ 32"
    "\<forall>m\<in>set (h_metadata h). meta_fits m" "\<forall>g\<in>set (h_graph h). node_fits g"
    using st by (simp_all add: storable_def)
  obtain tbits where tb: "pack_tombstones ?n (h_tombstone h) = Inr tbits" "length tbits = (?n + 63) div 64"
    "\<forall>i<?n. bit (tbits ! (i div 64)) (i mod 64) = h_tombstone h ! i"
    using pack_tombstones_spec [of ?n "h_tombstone h"] sizes by (auto simp: okR_iff)
  have nodes: "mapR (\<lambda>i. bindR (nth_r (h_graph h) i) (\<lambda>levels. Inr (node_bytes levels))) [0..<?n]
      = Inr (map node_bytes (h_graph h))"
    using sizes by (simp add: mapR_Inr_iff list_all2_conv_all_nth nth_r_def)
  let ?body = "le32 2 @ le32 (u32 (h_dim h)) @ le32 0 @ le64 (word_of_nat ?n)
      @ u64s_bytes (h_id_map h) @ f32s_bytes (h_raw_vectors h) @ concat (map meta_bytes (h_metadata h))
      @ le32 (word_of_int (h_max_layer h)) @ le32 (u32 (h_entry_point h))
      @ u64s_bytes tbits @ concat (map node_bytes (h_graph h))"
  have n64: "unat (word_of_nat ?n :: 64 word) = ?n" using fits(2) by (simp add: unat_of_nat)
  have raw: "resize_r 4 0 (?n * h_dim h mod 18446744073709551616) xs = Inr (resize 0 (?n * h_dim h) xs)"
    for xs :: "f32 list"
  proof -
    have "4 * X < 2 ^ 63 \<Longrightarrow> resize_r 4 0 (X mod 18446744073709551616) xs = Inr (resize 0 X xs)" for X
      by (simp add: resize_r_def)
    then show ?thesis using fits(3) .
  qed
  have arrays: "resize_r 8 0 ?n xs = Inr (resize 0 ?n xs)" "resize_r 32 [] ?n ms = Inr (resize [] ?n ms)"
    "resize_r 24 [] ?n g = Inr (resize [] ?n g)"
    for xs :: "64 word list" and ms :: "string list" and g :: "nat list list list"
    using fits(2) by (simp_all add: resize_r_def)
  have ids: "fread_u64s (resize 0 ?n xs) (u64s_bytes (h_id_map h) @ rest) = (h_id_map h, rest)" for xs rest
    using sizes by (simp add: fread_u64s_append)
  have vecs: "fread_f32s (resize 0 (?n * h_dim h) xs) (f32s_bytes (h_raw_vectors h) @ rest)
      = (h_raw_vectors h, rest)" for xs rest
    using sizes by (simp add: fread_f32s_append)
  have metas: "fill load_meta (resize [] ?n xs) (concat (map meta_bytes (h_metadata h)) @ rest)
      = Inr (h_metadata h, rest)" for xs rest
    using sizes fits(7) by (intro meta_format.fill_back) simp_all
  have graph: "fill load_node (resize [] ?n xs) (concat (map node_bytes (h_graph h))) = Inr (h_graph h, [])" for xs
    using node_format.fill_back [of "resize [] ?n xs" "h_graph h" "[]"] sizes fits(8) by simp
  have over: "fread_over (le32 w) (le32 v @ rest) = (le32 v, rest)" for w v rest
    by (simp add: fread_over_append)
  have "load_body h0 ?body = Inr (loaded_into h0 h)"
    by (simp add: load_body_def Let_def n64 u32_unat [OF fits(1)] u32_unat [OF fits(6)] raw arrays ids
        vecs metas over load_tombstones_back [OF sizes(3) tb(2,3)] graph sint_of_int [OF fits(4,5)]
        loaded_into_def)
  moreover have "index_bytes h = Inr (le32 ndb_magic @ ?body)"
    by (simp add: index_bytes_def tb(1) nodes)
  ultimately show ?thesis by blast
qed

lemma save_load:
  assumes "storable h" and "\<not> fs_refused fs path"
  shows "\<exists>fs'. hnsw_save path h fs = Inr fs' \<and> fs_refused fs' = fs_refused fs
    \<and> (\<forall>p. p \<noteq> path \<longrightarrow> fs_files fs' p = fs_files fs p)
    \<and> (\<forall>h0. hnsw_load path h0 fs' = Inr (loaded_into h0 h))"
proof -
  obtain body where body: "index_bytes h = Inr (le32 ndb_magic @ body)"
    using index_bytes_back [OF assms(1)] by blast
  have "load_body h0 body = Inr (loaded_into h0 h)" for h0
    using index_bytes_back [OF assms(1), of h0] body by auto
  then show ?thesis using assms(2) body
    by (simp add: hnsw_save_def fopen_wb_def hnsw_load_def fopen_rb_def)
qed

section \<open>Rebuilding from the live vectors\<close>

text \<open>Every draw gives a level.\<close>

definition draws_ok :: "(f32 \<Rightarrow> f32) \<Rightarrow> (nat \<Rightarrow> f32) \<Rightarrow> 's hnsw \<Rightarrow> bool" where
  "draws_ok logf draws h \<longleftrightarrow>
     (\<forall>i<h_num_vectors h. okR (random_layer logf (draws i)
        (f32_div f32_one (logf (f32_of_int (cfg_M (h_cfg h)))))) (\<lambda>level. 0 \<le> level))"

text \<open>The index \<open>f\<close> holds the vectors of the nodes \<open>L\<close> of \<open>h\<close>, all alive.\<close>

definition holds_nodes :: "'s hnsw \<Rightarrow> nat list \<Rightarrow> 's hnsw \<Rightarrow> bool" where
  "holds_nodes h L f \<longleftrightarrow>
     h_num_vectors f = length L \<and> h_id_map f = map (\<lambda>i. h_id_map h ! i) L
     \<and> h_metadata f = map (\<lambda>i. h_metadata h ! i) L \<and> h_tombstone f = replicate (length L) False
     \<and> stored_vectors f = map (own_vector h) L \<and> h_dim f = h_dim h \<and> h_cfg f = h_cfg h"

definition rebuilt :: "(f32 \<Rightarrow> f32) \<Rightarrow> 's hnsw \<Rightarrow> nat list \<Rightarrow> 's hnsw \<Rightarrow> bool" where
  "rebuilt logf h L f \<longleftrightarrow> hnsw_wf f \<and> holds_nodes h L f \<and> h_vec_accessor f = None
     \<and> h_mL f = f32_div f32_one (logf (f32_of_int (cfg_M (h_cfg h))))"

lemma rebuilt_new: "cfg_ok (h_cfg h) \<Longrightarrow> rebuilt logf h [] (hnsw_new logf (h_dim h) (h_cfg h))"
  by (simp add: rebuilt_def holds_nodes_def hnsw_wf_new)
    (simp add: hnsw_new_def stored_vectors_def)

lemma rebuilt_insert:
  assumes "rebuilt logf h L f" and ins: "inserted (h_id_map h ! i) vec (h_metadata h ! i) f f'"
    and "hnsw_wf f'" and vec: "h_dim h \<le> length vec" "take (h_dim h) vec = own_vector h i"
  shows "rebuilt logf h (L @ [i]) f'"
proof -
  have dim: "h_dim f = h_dim h" using assms(1) by (simp add: rebuilt_def holds_nodes_def)
  have "stored_vectors f' = stored_vectors f @ [take (h_dim f) vec]"
    using assms(1) vec(1) ins
    by (intro stored_inserted) (auto simp: rebuilt_def holds_nodes_def hnsw_wf_def)
  then show ?thesis
    using assms by (simp add: rebuilt_def holds_nodes_def inserted_def dim replicate_append_same)
qed

lemma reinsert_spec:
  assumes srt: "desc_sorter srt" and wf: "hnsw_wf h" and num: "h_num_vectors h < 2 ^ 32"
    and nn: "no_nan_scores (h_dim h) (stored_vectors h)" and draws: "draws_ok logf draws h"
    and i: "i < h_num_vectors h" and L: "set L \<subseteq> {..<i}" "distinct L"
    and f: "rebuilt logf h L f" and ctx: "visit_ok ctx"
  shows "okR (reinsert srt logf draws h i (f, ctx)) (\<lambda>(f', ctx').
    rebuilt logf h (if h_tombstone h ! i then L else L @ [i]) f' \<and> visit_ok ctx')"
proof -
  have sizes: "hnsw_sizes h" using wf by (simp add: hnsw_wf_def)
  have idx: "i < length (h_tombstone h)" "i < length (h_id_map h)" "i < length (h_metadata h)"
    using sizes i by (simp_all add: hnsw_sizes_def)
  let ?vec = "drop (i * h_dim h) (h_raw_vectors h)"
  have vec: "h_dim h \<le> length ?vec" "take (h_dim h) ?vec = own_vector h i"
    using sizes i mult_le_mono1 [of "Suc i" "h_num_vectors h" "h_dim h"]
    by (simp_all add: own_vector_def hnsw_sizes_def)
  show ?thesis
  proof (cases "h_tombstone h ! i")
    case True
    then show ?thesis using idx f ctx by (simp add: reinsert_def)
  next
    case False
    have fwf: "hnsw_wf f" and fL: "holds_nodes h L f" and own: "h_vec_accessor f = None"
      and mL: "h_mL f = f32_div f32_one (logf (f32_of_int (cfg_M (h_cfg h))))"
      using f by (simp_all add: rebuilt_def)
    have "length L \<le> card {..<i}" using L by (metis card_mono distinct_card finite_lessThan)
    then have fnum: "h_num_vectors f < 2 ^ 32" using fL i num by (simp add: holds_nodes_def)
    obtain level where level: "random_layer logf (draws i) (h_mL f) = Inr level" "0 \<le> level"
      using draws i by (auto simp: draws_ok_def okR_iff mL)
    have "{own_vector h i} \<union> own_vector h ` set L \<subseteq> set (stored_vectors h)"
      using L i by (auto simp: stored_vectors_def)
    then have "no_nan_scores (h_dim f) (take (h_dim f) ?vec # stored_vectors f)"
      using nn fL vec(2) by (auto simp: no_nan_scores_def holds_nodes_def)
    then have "okR (hnsw_insert srt logf (draws i) (h_id_map h ! i) ?vec (h_metadata h ! i) (f, ctx))
      (\<lambda>(f', ctx'). hnsw_wf f' \<and> inserted (h_id_map h ! i) ?vec (h_metadata h ! i) f f' \<and> visit_ok ctx')"
      using hnsw_insert_spec [OF srt fwf ctx fnum level, of True ?vec] vec(1) own fL
      by (simp add: holdsR_total holds_nodes_def)
    then have "okR (hnsw_insert srt logf (draws i) (h_id_map h ! i) ?vec (h_metadata h ! i) (f, ctx))
      (\<lambda>(f', ctx'). rebuilt logf h (L @ [i]) f' \<and> visit_ok ctx')"
      by (rule okR_mono) (use rebuilt_insert [OF f _ _ vec] in auto)
    then show ?thesis using False idx by (simp add: reinsert_def)
  qed
qed

lemma hnsw_rebuild_spec:
  fixes h :: "'s hnsw"
  assumes srt: "desc_sorter srt" and wf: "hnsw_wf h" and num: "h_num_vectors h < 2 ^ 32"
    and nn: "no_nan_scores (h_dim h) (stored_vectors h)" and draws: "draws_ok logf draws h"
    and ctx: "visit_ok ctx"
  shows "okR (hnsw_rebuild srt logf draws h ctx)
    (\<lambda>(f, ctx'). rebuilt logf h (live_nodes h) f \<and> visit_ok ctx')"
proof -
  let ?live = "\<lambda>ys. filter (\<lambda>i. \<not> h_tombstone h ! i) ys"
  let ?P = "\<lambda>ys (f, ctx'). rebuilt logf h (?live ys) f \<and> visit_ok ctx'"
  have "okR (foldR (reinsert srt logf draws h) [0..<h_num_vectors h]
      (hnsw_new logf (h_dim h) (h_cfg h), ctx)) (?P [0..<h_num_vectors h])"
  proof (rule okR_foldR_prefix)
    show "?P [] (hnsw_new logf (h_dim h) (h_cfg h), ctx)"
      using rebuilt_new [of h logf] wf ctx by (simp add: hnsw_wf_def)
  next
    fix ys i zs and s :: "'s hnsw \<times> 's visit_ctx"
    assume split: "[0..<h_num_vectors h] = ys @ i # zs" and P: "?P ys s"
    have "ys = [0..<i]" "i < h_num_vectors h"
      using upt_split [OF split] by simp_all
    moreover obtain f c where s: "s = (f, c)" by (cases s)
    moreover have "set (?live [0..<i]) \<subseteq> {..<i}" by auto
    ultimately show "okR (reinsert srt logf draws h i s) (?P (ys @ [i]))"
      using reinsert_spec [OF srt wf num nn draws, of i "?live ys" f c] P
      by (auto elim!: okR_mono split: if_splits)
  qed
  then show ?thesis by (simp add: hnsw_rebuild_def live_nodes_def)
qed

lemma live_nodes_ids:
  "hnsw_sizes h \<Longrightarrow> live_ids (hnsw_slots h) = map (\<lambda>i. h_id_map h ! i) (live_nodes h)"
proof -
  have "live_ids (zip ids ts) = map (\<lambda>i. ids ! i) (filter (\<lambda>i. \<not> ts ! i) [0..<length ids])"
    if "length ids = length ts" for ids :: "64 word list" and ts
  proof -
    have "zip ids ts = map (\<lambda>i. (ids ! i, ts ! i)) [0..<length ids]"
      by (rule nth_equalityI) (use that in simp_all)
    then show ?thesis by (simp add: live_ids_def filter_map comp_def)
  qed
  then show "hnsw_sizes h \<Longrightarrow> ?thesis"
    by (simp add: hnsw_slots_def live_nodes_def hnsw_sizes_def)
qed

section \<open>Properties\<close>

text \<open>C10: \<open>load\<close> reads back what \<open>save\<close> wrote: for a well-formed index within the widths of the
  format, saving succeeds, touches no other file, and loading the file into any index, whatever
  it held, gives all the vectors, ids, metadata, tombstones, links and the entry point again; the
  configuration and the accessor stay those of the index that loads.\<close>

theorem hnsw_save_load:
  assumes "hnsw_wf h" and "h_num_vectors h < 2 ^ 32" and "h_dim h < 2 ^ 32"
    and "4 * (h_num_vectors h * h_dim h) < 2 ^ 63" and "\<forall>m\<in>set (h_metadata h). meta_fits m"
    and "\<not> fs_refused fs path"
  shows "\<exists>fs'. hnsw_save path h fs = Inr fs' \<and> (\<forall>p. p \<noteq> path \<longrightarrow> fs_files fs' p = fs_files fs p)
    \<and> (\<forall>h0. hnsw_load path h0 fs' = Inr (loaded_into h0 h))"
  using save_load [OF wf_storable [OF assms(1-5)] assms(6)] by blast

lemma no_files_open [simp]: "\<not> fs_refused no_files path"
  by (simp add: no_files_def)

lemma hnsw_pair_metadata [simp]: "\<forall>m\<in>set (h_metadata hnsw_pair). meta_fits m"
  by (simp add: hnsw_pair_def meta_fits_def)

theorem hnsw_save_load_witness:
  "\<exists>fs'. hnsw_save ''i'' hnsw_pair no_files = Inr fs'
    \<and> hnsw_load ''i'' (hnsw_new log_low 3 cfg_small) fs'
      = Inr (hnsw_pair\<lparr>h_mL := f32_div f32_one (log_low (f32_of_int 2))\<rparr>)"
proof -
  have "loaded_into (hnsw_new log_low 3 cfg_small) hnsw_pair
      = hnsw_pair\<lparr>h_mL := f32_div f32_one (log_low (f32_of_int 2))\<rparr>"
    by (simp add: loaded_into_def hnsw_new_def) (simp add: hnsw_pair_def cfg_small_def)
  then show ?thesis
    using hnsw_save_load [OF hnsw_pair_wf, of no_files "''i''"] by auto
qed

text \<open>C11: \<open>compact\<close> leaves a file from which any index loads exactly the live vectors, in
  their order, with their ids and metadata and nothing deleted, in a well-formed graph built from
  scratch, and it empties the write-ahead log.  The index itself is unchanged.\<close>

theorem hnsw_compact_live:
  assumes "desc_sorter srt" and "hnsw_wf h" and "visit_ok ctx" and "h_num_vectors h < 2 ^ 32"
    and "h_dim h < 2 ^ 32" and "4 * (h_num_vectors h * h_dim h) < 2 ^ 63"
    and "\<forall>m\<in>set (h_metadata h). meta_fits m" and "no_nan_scores (h_dim h) (stored_vectors h)"
    and "draws_ok logf draws h" and "\<not> fs_refused fs index_path" and "\<not> fs_refused fs log_path"
    and "index_path \<noteq> log_path"
  shows "\<exists>ctx' fs' f. hnsw_compact srt logf draws index_path log_path h (ctx, fs) = (Inr (), ctx', fs')
    \<and> fs_files fs' log_path = Some [] \<and> (\<forall>h0. hnsw_load index_path h0 fs' = Inr (loaded_into h0 f))
    \<and> hnsw_wf f \<and> holds_nodes h (live_nodes h) f \<and> live_ids (hnsw_slots f) = live_ids (hnsw_slots h)"
proof -
  let ?L = "live_nodes h"
  have sizes: "hnsw_sizes h" using assms(2) by (simp add: hnsw_wf_def)
  obtain f ctx' where run: "hnsw_rebuild srt logf draws h ctx = Inr (f, ctx')" and f: "rebuilt logf h ?L f"
    using hnsw_rebuild_spec [OF assms(1,2,4,8,9,3)] by (auto simp: okR_iff)
  have wf: "hnsw_wf f" and holds: "holds_nodes h ?L f" using f by (simp_all add: rebuilt_def)
  have n: "h_num_vectors f \<le> h_num_vectors h"
    using holds length_filter_le [of _ "[0..<h_num_vectors h]"] by (auto simp: holds_nodes_def live_nodes_def)
  have dim: "h_dim f = h_dim h" using holds by (simp add: holds_nodes_def)
  have "4 * (h_num_vectors f * h_dim f) \<le> 4 * (h_num_vectors h * h_dim h)" using n dim by simp
  then have "4 * (h_num_vectors f * h_dim f) < 2 ^ 63" using assms(6) by (rule le_less_trans)
  moreover have "\<forall>m\<in>set (h_metadata f). meta_fits m"
    using holds assms(7) sizes by (auto simp: holds_nodes_def live_nodes_def hnsw_sizes_def)
  ultimately have "storable f" using wf n dim assms(4,5) by (intro wf_storable) simp_all
  then obtain fs1 where save: "hnsw_save index_path f fs = Inr fs1" "fs_refused fs1 = fs_refused fs"
      "\<forall>h0. hnsw_load index_path h0 fs1 = Inr (loaded_into h0 f)"
    using save_load [OF _ assms(10), of f] by blast
  define fs2 where "fs2 = fs1\<lparr>fs_files := (fs_files fs1)(log_path := Some [])\<rparr>"
  have "hnsw_compact srt logf draws index_path log_path h (ctx, fs) = (Inr (), ctx', fs2)"
    using assms(11) save(2)
    by (simp add: hnsw_compact_def run save(1) wal_open_def fopen_ab_def wal_checkpoint_def fopen_wb_def fs2_def)
  moreover have "hnsw_load index_path h0 fs2 = Inr (loaded_into h0 f)" for h0
    using save(2,3) assms(10,12) by (simp add: fs2_def hnsw_load_def fopen_rb_def)
  moreover have "live_ids (hnsw_slots f) = live_ids (hnsw_slots h)"
  proof -
    have "live_nodes f = [0..<length ?L]"
      using holds by (simp add: holds_nodes_def live_nodes_def filter_id_conv)
    then have "live_ids (hnsw_slots f) = map ((!) (h_id_map f)) [0..<length (h_id_map f)]"
      using live_nodes_ids [of f] wf holds by (simp add: hnsw_wf_def holds_nodes_def)
    then have "live_ids (hnsw_slots f) = map (\<lambda>i. h_id_map h ! i) ?L"
      using holds by (simp only: map_nth holds_nodes_def)
    then show ?thesis using live_nodes_ids [OF sizes] by simp
  qed
  ultimately show ?thesis using wf holds by (auto simp: fs2_def)
qed

text \<open>C36: \<open>load\<close> refuses a file with another magic number and leaves the index as it was, but
  it does not notice that a file ends early: on every cut of a saved index between the magic
  number and the end of the header it uses an uninitialised variable.\<close>

theorem hnsw_load_corrupt:
  assumes "\<not> fs_refused fs path" and "fs_files fs path = Some bs"
  shows "(4 \<le> length bs \<and> take 4 bs \<noteq> le32 ndb_magic \<longrightarrow>
      hnsw_load path h fs = Inl (Runtime_Error ''Bad magic''))
    \<and> (take 4 bs = le32 ndb_magic \<and> length bs < 24 \<longrightarrow> hnsw_load path h fs = Inl Undefined_Behaviour)"
proof (intro conjI impI)
  assume bs: "4 \<le> length bs \<and> take 4 bs \<noteq> le32 ndb_magic"
  let ?w = "u32_of_bytes (take 4 bs)"
  have "le32 ?w = take 4 bs" by (rule le32_of_bytes) (use bs in simp)
  then have "?w \<noteq> ndb_magic" using bs by auto
  then show "hnsw_load path h fs = Inl (Runtime_Error ''Bad magic'')"
    using assms bs by (simp add: hnsw_load_def fopen_rb_def read_local32_def read_u32_def read_bytes_def u32_of_bytes_def)
next
  assume bs: "take 4 bs = le32 ndb_magic \<and> length bs < 24"
  then have "bs = le32 ndb_magic @ drop 4 bs" by (metis append_take_drop_id)
  then obtain rest where rest: "bs = le32 ndb_magic @ rest" by blast
  then have "length rest < 20" using bs by simp
  then have "load_body h rest = Inl Undefined_Behaviour"
    by (auto simp: load_body_def read_local32_def read_local64_def read_u32_def read_u64_def read_bytes_def)
  then show "hnsw_load path h fs = Inl Undefined_Behaviour"
    using assms by (simp add: hnsw_load_def fopen_rb_def rest)
qed

theorem hnsw_load_corrupt_witness:
  "hnsw_load ''a'' hnsw_pair (no_files\<lparr>fs_files := [''a'' \<mapsto> [1, 2, 3, 4]]\<rparr>)
      = Inl (Runtime_Error ''Bad magic'')
    \<and> hnsw_load ''a'' hnsw_pair (no_files\<lparr>fs_files := [''a'' \<mapsto> le32 ndb_magic]\<rparr>)
      = Inl Undefined_Behaviour"
proof -
  have "le_nat (take 4 [1, 2, 3, 4]) \<noteq> le_nat (le32 ndb_magic)"
    by (simp add: le32_def le_nat_le_bytes ndb_magic_def)
  then have "take 4 [1, 2, 3, 4] \<noteq> le32 ndb_magic" by metis
  then have "hnsw_load ''a'' hnsw_pair (no_files\<lparr>fs_files := [''a'' \<mapsto> [1, 2, 3, 4]]\<rparr>)
      = Inl (Runtime_Error ''Bad magic'')"
    using hnsw_load_corrupt [of "no_files\<lparr>fs_files := [''a'' \<mapsto> [1, 2, 3, 4]]\<rparr>" "''a''" "[1, 2, 3, 4]"
        hnsw_pair] by (simp add: no_files_def)
  moreover have "hnsw_load ''a'' hnsw_pair (no_files\<lparr>fs_files := [''a'' \<mapsto> le32 ndb_magic]\<rparr>)
      = Inl Undefined_Behaviour"
    using hnsw_load_corrupt [of "no_files\<lparr>fs_files := [''a'' \<mapsto> le32 ndb_magic]\<rparr>" "''a''" "le32 ndb_magic"
        hnsw_pair] by (simp add: no_files_def)
  ultimately show ?thesis by blast
qed

lemma pair_draws: "draws_ok log_two (\<lambda>_. F32 0x3F000000) hnsw_pair"
  using level_two by (simp add: draws_ok_def cfg_small_def)

theorem hnsw_compact_live_witness:
  "\<exists>ctx' fs' f. hnsw_compact isort_desc log_two (\<lambda>_. F32 0x3F000000) ''i'' ''w''
      (hnsw_pair\<lparr>h_tombstone := [True, False]\<rparr>) (ctx_new, no_files) = (Inr (), ctx', fs')
    \<and> fs_files fs' ''w'' = Some [] \<and> hnsw_load ''i'' hnsw_pair fs' = Inr f
    \<and> h_id_map f = [8] \<and> h_num_vectors f = 1"
proof -
  let ?h = "hnsw_pair\<lparr>h_tombstone := [True, False]\<rparr>"
  have wf: "hnsw_wf ?h" by (simp add: hnsw_wf_marks)
  have live: "live_nodes ?h = [1]" by (simp add: live_nodes_def numeral_2_eq_2)
  have "no_nan_scores (h_dim ?h) (stored_vectors ?h)"
    using pair_no_nan by (simp add: stored_vectors_def no_nan_scores_def)
  moreover have "draws_ok log_two (\<lambda>_. F32 0x3F000000) ?h" using pair_draws by (simp add: draws_ok_def)
  ultimately show ?thesis
    using hnsw_compact_live [OF isort.whole.desc_sorter_axioms wf ctx_new_ok, of log_two
        "\<lambda>_. F32 0x3F000000" no_files "''i''" "''w''"]
    by (auto simp: live holds_nodes_def loaded_into_def)
qed

end
