(* ===== verification/Hnsw_Threads.thy ===== *)
theory Hnsw_Threads
  imports Hnsw_Properties
begin

text \<open>
  \<open>HNSWIndex\<close> under several threads (\<open>src/src/hnsw.cpp\<close>).  Insertions, searches and deletions
  hold \<open>index_mutex_\<close> only for sections of their code.  A thread is its place in the code with its
  local variables; a step is one section under the lock, with the local computation after it, or
  one read of the atomic counter.  The steps of different threads interleave in any way.
\<close>

section \<open>The search of a layer\<close>

text \<open>
  \<open>S_Tag\<close>: before the number of vectors is read; \<open>S_Score\<close>: before the entry point is scored;
  \<open>S_Visit nbs\<close>: in the loop, with the neighbours still to visit; \<open>S_Found\<close>: at the return.
\<close>

datatype 's search_pc =
    S_Tag "'s visit_ctx"
  | S_Score "'s visit_ctx"
  | S_Visit "nat list" "'s beam"
  | S_Found "scored list" "'s visit_ctx"

definition search_finish ::
    "(scored list \<Rightarrow> scored list) \<Rightarrow> scored list \<Rightarrow> 's visit_ctx \<Rightarrow> 's search_pc res" where
  "search_finish srt results ctx =
     bindR (std_sort srt (map (\<lambda>(neg, i). (- neg, i)) results)) (\<lambda>out. Inr (S_Found out ctx))"

fun search_step ::
    "(scored list \<Rightarrow> scored list) \<Rightarrow> 's hnsw \<Rightarrow> f32 list \<Rightarrow> nat \<Rightarrow> int \<Rightarrow> int \<Rightarrow> 's search_pc
      \<Rightarrow> 's search_pc res" where
  "search_step srt h query ep ef layer (S_Tag ctx) = Inr (S_Score (begin_visit (h_num_vectors h) ctx))"
| "search_step srt h query ep ef layer (S_Score ctx) =
     bindR (similarity_to h query ep ctx) (\<lambda>(ep_sim, ctx).
     bindR (mark_visited ep ctx) (\<lambda>ctx.
     Inr (S_Visit [] ([(- ep_sim, ep)], [(- ep_sim, ep)], ctx))))"
| "search_step srt h query ep ef layer (S_Visit (nb # nbs) b) =
     bindR (visit_neighbour h query ef nb b) (\<lambda>b. Inr (S_Visit nbs b))"
| "search_step srt h query ep ef layer (S_Visit [] b) =
     (case b of
        ([], results, ctx) \<Rightarrow> search_finish srt results ctx
      | ((neg_c_sim, c) # cands, results, ctx) \<Rightarrow>
          if - neg_c_sim < worst_of results \<and> ef \<le> int (length results) then search_finish srt results ctx
          else bindR (layer_links h layer c) (\<lambda>nbs. Inr (S_Visit nbs (cands, results, ctx))))"
| "search_step srt h query ep ef layer (S_Found out ctx) = Inr (S_Found out ctx)"

definition next_ep :: "nat \<Rightarrow> scored list \<Rightarrow> nat" where
  "next_ep ep candidates = (if candidates = [] then ep else snd (hd candidates))"

section \<open>Insertion\<close>

record insert_req =
  rq_draw :: f32
  rq_id :: "64 word"
  rq_vec :: "f32 list"
  rq_meta :: string

text \<open>
  The places of \<open>insert\<close>, with \<open>q\<close>, \<open>level\<close>, the layer \<open>lc\<close>, \<open>ep\<close> and the thread-local table:
  before the slot is taken, before the entry point is read, in the search of a layer above the
  level or below, linking back to the neighbours left, before the entry point is updated.
\<close>

datatype 's insert_pc =
    I_Start "'s visit_ctx"
  | I_Entry nat int "'s visit_ctx"
  | I_Descend nat int int nat "'s search_pc"
  | I_Connect nat int int nat "'s search_pc"
  | I_Back nat int int nat "nat list" "'s visit_ctx"
  | I_Final nat int "'s visit_ctx"
  | I_Done "'s visit_ctx"

text \<open>The next layer to work on.\<close>

definition enter_layer :: "nat \<Rightarrow> int \<Rightarrow> int \<Rightarrow> nat \<Rightarrow> 's visit_ctx \<Rightarrow> 's insert_pc" where
  "enter_layer q level lc ep ctx =
     (if level < lc then I_Descend q level lc ep (S_Tag ctx)
      else if 0 \<le> lc then I_Connect q level lc ep (S_Tag ctx)
      else I_Final q level ctx)"

fun insert_step ::
    "(scored list \<Rightarrow> scored list) \<Rightarrow> (f32 \<Rightarrow> f32) \<Rightarrow> insert_req \<Rightarrow> 's hnsw \<times> 's insert_pc
      \<Rightarrow> ('s hnsw \<times> 's insert_pc) res" where
  "insert_step srt logf rq (h, I_Start ctx) =
     bindR (random_layer logf (rq_draw rq) (h_mL h)) (\<lambda>level.
     let q = h_num_vectors h mod 2 ^ 32 in
     bindR (new_slot (rq_id rq) (rq_vec rq) (rq_meta rq) level h) (\<lambda>h.
     if q = 0 then Inr (h\<lparr>h_max_layer := level, h_entry_point := 0\<rparr>, I_Done ctx)
     else Inr (h, I_Entry q level ctx)))"
| "insert_step srt logf rq (h, I_Entry q level ctx) =
     Inr (h, enter_layer q level (h_max_layer h) (h_entry_point h) ctx)"
| "insert_step srt logf rq (h, I_Descend q level lc ep spc) =
     (case spc of
        S_Found out ctx \<Rightarrow> Inr (h, enter_layer q level (lc - 1) (next_ep ep out) ctx)
      | _ \<Rightarrow> bindR (search_step srt h (rq_vec rq) ep 1 lc spc) (\<lambda>spc.
            Inr (h, I_Descend q level lc ep spc)))"
| "insert_step srt logf rq (h, I_Connect q level lc ep spc) =
     (case spc of
        S_Found out ctx \<Rightarrow>
          bindR (select_neighbours srt out (cfg_M (h_cfg h))) (\<lambda>nbs.
          bindR (set_links q lc nbs h) (\<lambda>h.
          Inr (h, I_Back q level lc (next_ep ep out) nbs ctx)))
      | _ \<Rightarrow>
          let ef_c = max (cfg_ef_construction (h_cfg h)) (cfg_M (h_cfg h)) in
          bindR (search_step srt h (rq_vec rq) ep ef_c lc spc) (\<lambda>spc.
          Inr (h, I_Connect q level lc ep spc)))"
| "insert_step srt logf rq (h, I_Back q level lc ep [] ctx) =
     Inr (h, enter_layer q level (lc - 1) ep ctx)"
| "insert_step srt logf rq (h, I_Back q level lc ep (nb # nbs) ctx) =
     bindR (link_back srt q lc nb (h, ctx)) (\<lambda>(h, ctx).
     Inr (h, I_Back q level lc ep nbs ctx))"
| "insert_step srt logf rq (h, I_Final q level ctx) =
     Inr (if h_max_layer h < level then h\<lparr>h_max_layer := level, h_entry_point := q\<rparr> else h, I_Done ctx)"
| "insert_step srt logf rq (h, I_Done ctx) = Inr (h, I_Done ctx)"

section \<open>Search\<close>

datatype 's query_pc =
    Q_Start "'s visit_ctx"
  | Q_Entry nat "'s visit_ctx"
  | Q_Layer int nat "'s search_pc"
  | Q_Done "(f32 \<times> 64 word) list" "'s visit_ctx"

text \<open>The entry point, with the number of vectors that was read before.\<close>

definition search_entry_of :: "'s hnsw \<Rightarrow> nat \<Rightarrow> nat option res" where
  "search_entry_of h nv =
     bindR (nth_r (h_tombstone h) (h_entry_point h)) (\<lambda>dead.
     if dead then find_first (\<lambda>t. \<not> t) (h_tombstone h) (nv mod 2 ^ 32)
     else Inr (Some (h_entry_point h)))"

fun query_step ::
    "(scored list \<Rightarrow> scored list) \<Rightarrow> f32 list \<Rightarrow> int \<Rightarrow> 's hnsw \<Rightarrow> 's query_pc \<Rightarrow> 's query_pc res" where
  "query_step srt query k h (Q_Start ctx) =
     Inr (if h_num_vectors h = 0 then Q_Done [] ctx else Q_Entry (h_num_vectors h) ctx)"
| "query_step srt query k h (Q_Entry nv ctx) =
     bindR (search_entry_of h nv) (\<lambda>entry.
     case entry of
       None \<Rightarrow> Inr (Q_Done [] ctx)
     | Some ep \<Rightarrow> Inr (Q_Layer (max 0 (h_max_layer h)) ep (S_Tag ctx)))"
| "query_step srt query k h (Q_Layer lc ep spc) =
     (case spc of
        S_Found out ctx \<Rightarrow>
          if 0 < lc then Inr (Q_Layer (lc - 1) (next_ep ep out) (S_Tag ctx))
          else bindR (collect_live h k out []) (\<lambda>res. Inr (Q_Done res ctx))
      | _ \<Rightarrow> bindR (search_step srt h query ep (if 0 < lc then 1 else cfg_ef_search (h_cfg h)) lc spc)
          (\<lambda>spc. Inr (Q_Layer lc ep spc)))"
| "query_step srt query k h (Q_Done res ctx) = Inr (Q_Done res ctx)"

section \<open>Threads\<close>

datatype 's thread =
    Inserting insert_req "'s insert_pc"
  | Searching "f32 list" int "'s query_pc"
  | Deleting "64 word"
  | Deleted

fun thread_done :: "'s thread \<Rightarrow> bool" where
  "thread_done (Inserting rq (I_Done ctx)) = True"
| "thread_done (Searching query k (Q_Done res ctx)) = True"
| "thread_done Deleted = True"
| "thread_done _ = False"

fun thread_step ::
    "(scored list \<Rightarrow> scored list) \<Rightarrow> (f32 \<Rightarrow> f32) \<Rightarrow> 's hnsw \<times> 's thread \<Rightarrow> ('s hnsw \<times> 's thread) res" where
  "thread_step srt logf (h, Inserting rq pc) =
     bindR (insert_step srt logf rq (h, pc)) (\<lambda>(h, pc). Inr (h, Inserting rq pc))"
| "thread_step srt logf (h, Searching query k pc) =
     bindR (query_step srt query k h pc) (\<lambda>pc. Inr (h, Searching query k pc))"
| "thread_step srt logf (h, Deleting x) = bindR (hnsw_delete x h) (\<lambda>h. Inr (h, Deleted))"
| "thread_step srt logf (h, Deleted) = Inr (h, Deleted)"

type_synonym 's system = "'s hnsw \<times> 's thread list"

inductive sys_step ::
    "(scored list \<Rightarrow> scored list) \<Rightarrow> (f32 \<Rightarrow> f32) \<Rightarrow> 's system \<Rightarrow> 's system \<Rightarrow> bool"
  for srt logf where
  step: "i < length ts \<Longrightarrow> \<not> thread_done (ts ! i) \<Longrightarrow> thread_step srt logf (h, ts ! i) = Inr (h', t) \<Longrightarrow>
    sys_step srt logf (h, ts) (h', ts[i := t])"

inductive_cases sys_stepE: "sys_step srt logf s s'"

inductive sys_reach ::
    "(scored list \<Rightarrow> scored list) \<Rightarrow> (f32 \<Rightarrow> f32) \<Rightarrow> 's system \<Rightarrow> 's system \<Rightarrow> bool"
  for srt logf s where
  refl: "sys_reach srt logf s s"
| step: "sys_reach srt logf s s1 \<Longrightarrow> sys_step srt logf s1 s2 \<Longrightarrow> sys_reach srt logf s s2"

text \<open>Some thread's next step fails.\<close>

definition sys_fails :: "(scored list \<Rightarrow> scored list) \<Rightarrow> (f32 \<Rightarrow> f32) \<Rightarrow> 's system \<Rightarrow> err \<Rightarrow> bool" where
  "sys_fails srt logf = (\<lambda>(h, ts) e.
     list_ex (\<lambda>t. \<not> thread_done t \<and> thread_step srt logf (h, t) = Inl e) ts)"

end
