(* ===== verification/Hnsw_Progress.thy ===== *)
theory Hnsw_Progress
  imports Hnsw_Threads "HOL-Library.Multiset"
begin

text \<open>
  Every step of a thread brings it nearer to its end, whatever other threads do to the index in
  between: layers only go down, and the work of a layer search is bounded by the thread's own table
  of visited nodes.
\<close>

section \<open>What is left of a thread\<close>

type_synonym rank = "nat \<times> nat \<times> nat \<times> nat \<times> nat \<times> nat"

definition rank_less :: "(rank \<times> rank) set" where
  "rank_less = less_than <*lex*> less_than <*lex*> less_than <*lex*> less_than <*lex*> less_than <*lex*> less_than"

lemma wf_rank_less: "wf rank_less"
  by (simp add: rank_less_def wf_lex_prod)

text \<open>The places where a descent or a connection is under way.\<close>

fun pc_ok :: "'s insert_pc \<Rightarrow> bool" where
  "pc_ok (I_Descend q level lc ep spc) = (level < lc)"
| "pc_ok (I_Connect q level lc ep spc) = (0 \<le> lc \<and> lc \<le> level)"
| "pc_ok (I_Back q level lc ep nbs ctx) = (0 \<le> lc \<and> lc \<le> level)"
| "pc_ok _ = True"

lemma enter_layer_ok [simp]: "pc_ok (enter_layer q level lc ep ctx)"
  by (simp add: enter_layer_def)

fun search_rank :: "'s search_pc \<Rightarrow> nat \<times> nat \<times> nat" where
  "search_rank (S_Tag ctx) = (3, 0, 0)"
| "search_rank (S_Score ctx) = (2, 0, 0)"
| "search_rank (S_Visit nbs b) = (1, beam_work b, length nbs)"
| "search_rank (S_Found out ctx) = (0, 0, 0)"

fun insert_rank :: "'s insert_pc \<Rightarrow> rank" where
  "insert_rank (I_Start ctx) = (5, 0, 0, 0, 0, 0)"
| "insert_rank (I_Entry q level ctx) = (4, 0, 0, 0, 0, 0)"
| "insert_rank (I_Descend q level lc ep spc) = (3, nat (lc - level), 0, search_rank spc)"
| "insert_rank (I_Connect q level lc ep spc) = (2, nat (lc + 1), 1, search_rank spc)"
| "insert_rank (I_Back q level lc ep nbs ctx) = (2, nat (lc + 1), 0, 0, 0, length nbs)"
| "insert_rank (I_Final q level ctx) = (1, 0, 0, 0, 0, 0)"
| "insert_rank (I_Done ctx) = (0, 0, 0, 0, 0, 0)"

fun query_rank :: "'s query_pc \<Rightarrow> rank" where
  "query_rank (Q_Start ctx) = (3, 0, 0, 0, 0, 0)"
| "query_rank (Q_Entry nv ctx) = (2, 0, 0, 0, 0, 0)"
| "query_rank (Q_Layer lc ep spc) = (1, nat lc, 0, search_rank spc)"
| "query_rank (Q_Done res ctx) = (0, 0, 0, 0, 0, 0)"

fun thread_rank :: "'s thread \<Rightarrow> rank" where
  "thread_rank (Inserting rq pc) = insert_rank pc"
| "thread_rank (Searching query k pc) = query_rank pc"
| "thread_rank (Deleting x) = (1, 0, 0, 0, 0, 0)"
| "thread_rank Deleted = (0, 0, 0, 0, 0, 0)"

fun thread_pc_ok :: "'s thread \<Rightarrow> bool" where
  "thread_pc_ok (Inserting rq pc) = pc_ok pc"
| "thread_pc_ok _ = True"

section \<open>Steps make progress\<close>

definition search_less :: "((nat \<times> nat \<times> nat) \<times> (nat \<times> nat \<times> nat)) set" where
  "search_less = less_than <*lex*> less_than <*lex*> less_than"

lemma search_step_rank:
  assumes "search_step srt h query ep ef layer spc = Inr spc'" and "\<And>out ctx. spc \<noteq> S_Found out ctx"
  shows "(search_rank spc', search_rank spc) \<in> search_less"
  using assms
proof (induction srt h query ep ef layer spc rule: search_step.induct)
  case (3 srt h query ep ef layer nb nbs b)
  then obtain b' where "visit_neighbour h query ef nb b = Inr b'" "spc' = S_Visit nbs b'"
    by (auto simp: bindR_Inr_iff)
  moreover from this have "beam_work b' \<le> beam_work b"
    using visit_neighbour_work [of h query ef nb b] by (simp add: postR_iff)
  ultimately show ?case by (auto simp: search_less_def)
next
  case (4 srt h query ep ef layer b)
  obtain cands results ctx where b: "b = (cands, results, ctx)" by (cases b)
  show ?case
  proof (cases cands)
    case Nil
    then show ?thesis using 4(1) by (auto simp: b search_finish_def bindR_Inr_iff search_less_def)
  next
    case (Cons p rest)
    then show ?thesis
      using 4(1) by (cases p) (auto simp: b search_finish_def bindR_Inr_iff search_less_def beam_work_def split: if_splits)
  qed
qed (auto simp: bindR_Inr_iff search_less_def)

lemma search_rank_less:
  "(x, y) \<in> search_less \<Longrightarrow> ((a, b, c, x), (a, b, c, y)) \<in> rank_less"
  by (simp add: rank_less_def search_less_def)

lemma enter_layer_rank:
  "(insert_rank (enter_layer q level lc ep ctx), (4, n, m, s)) \<in> rank_less"
  "level < lc \<Longrightarrow> (insert_rank (enter_layer q level (lc - 1) ep ctx), (3, nat (lc - level), m, s)) \<in> rank_less"
  "0 \<le> lc \<Longrightarrow> lc \<le> level \<Longrightarrow> (insert_rank (enter_layer q level (lc - 1) ep ctx), (2, nat (lc + 1), m, s)) \<in> rank_less"
  by (auto simp: enter_layer_def rank_less_def)

lemma insert_step_rank:
  assumes "insert_step srt logf rq (h, pc) = Inr (h', pc')" and "pc_ok pc" and "\<And>ctx. pc \<noteq> I_Done ctx"
  shows "(insert_rank pc', insert_rank pc) \<in> rank_less \<and> pc_ok pc'"
proof (cases pc)
  case (I_Start ctx)
  then show ?thesis
    using assms(1) by (auto simp: Let_def bindR_Inr_iff rank_less_def split: if_splits)
next
  case (I_Entry q level ctx)
  then show ?thesis using assms(1) enter_layer_rank(1) by auto
next
  case (I_Descend q level lc ep spc)
  show ?thesis
  proof (cases "\<exists>out ctx. spc = S_Found out ctx")
    case True
    then show ?thesis using assms(1,2) enter_layer_rank(2) by (auto simp: I_Descend)
  next
    case False
    then obtain spc' where s: "search_step srt h (rq_vec rq) ep 1 lc spc = Inr spc'"
      and pc': "pc' = I_Descend q level lc ep spc'"
      using assms(1) by (cases spc) (auto simp: I_Descend bindR_Inr_iff simp del: search_step.simps)
    show ?thesis
      using search_rank_less [OF search_step_rank [OF s]] False assms(2) by (auto simp: I_Descend pc')
  qed
next
  case (I_Connect q level lc ep spc)
  show ?thesis
  proof (cases "\<exists>out ctx. spc = S_Found out ctx")
    case True
    then show ?thesis using assms(1,2) by (auto simp: I_Connect bindR_Inr_iff rank_less_def)
  next
    case False
    then obtain spc' where s: "search_step srt h (rq_vec rq) ep (max (cfg_ef_construction (h_cfg h)) (cfg_M (h_cfg h))) lc spc = Inr spc'"
      and pc': "pc' = I_Connect q level lc ep spc'"
      using assms(1) by (cases spc) (auto simp: I_Connect bindR_Inr_iff Let_def simp del: search_step.simps)
    show ?thesis
      using search_rank_less [OF search_step_rank [OF s]] False assms(2) by (auto simp: I_Connect pc')
  qed
next
  case (I_Back q level lc ep nbs ctx)
  then show ?thesis
    using assms(1,2) enter_layer_rank(3) by (cases nbs) (auto simp: bindR_Inr_iff rank_less_def)
next
  case (I_Final q level ctx)
  then show ?thesis using assms(1) by (auto simp: rank_less_def)
qed (use assms(3) in simp)

lemma query_step_rank:
  assumes "query_step srt query k h pc = Inr pc'" and "\<And>res ctx. pc \<noteq> Q_Done res ctx"
  shows "(query_rank pc', query_rank pc) \<in> rank_less"
proof (cases pc)
  case (Q_Start ctx)
  then show ?thesis using assms(1) by (auto simp: rank_less_def split: if_splits)
next
  case (Q_Entry nv ctx)
  then show ?thesis using assms(1) by (auto simp: bindR_Inr_iff rank_less_def split: option.splits)
next
  case (Q_Layer lc ep spc)
  show ?thesis
  proof (cases "\<exists>out ctx. spc = S_Found out ctx")
    case True
    then show ?thesis
      using assms(1) by (auto simp: Q_Layer bindR_Inr_iff rank_less_def split: if_splits)
  next
    case False
    then obtain ef spc' where s: "search_step srt h query ep ef lc spc = Inr spc'"
      and pc': "pc' = Q_Layer lc ep spc'"
      using assms(1) by (cases spc) (auto simp: Q_Layer bindR_Inr_iff simp del: search_step.simps)
    show ?thesis
      using search_rank_less [OF search_step_rank [OF s]] False by (auto simp: Q_Layer pc')
  qed
qed (use assms(2) in simp)

lemma thread_step_rank:
  assumes "thread_step srt logf (h, t) = Inr (h', t')" and "thread_pc_ok t" and "\<not> thread_done t"
  shows "(thread_rank t', thread_rank t) \<in> rank_less \<and> thread_pc_ok t'"
proof (cases t)
  case (Inserting rq pc)
  then show ?thesis
    using assms insert_step_rank [of srt logf rq h pc h'] by (cases pc) (auto simp: bindR_Inr_iff simp del: insert_step.simps)
next
  case (Searching query k pc)
  then show ?thesis
    using assms query_step_rank [of srt query k h pc] by (cases pc) (auto simp: bindR_Inr_iff simp del: query_step.simps)
qed (use assms in \<open>auto simp: bindR_Inr_iff rank_less_def\<close>)

section \<open>Schedules\<close>

definition sys_rank :: "'s system \<Rightarrow> rank multiset" where
  "sys_rank = (\<lambda>(h, ts). mset (map thread_rank ts))"

definition threads_ok :: "'s system \<Rightarrow> bool" where
  "threads_ok = (\<lambda>(h, ts). list_all thread_pc_ok ts)"

lemma sys_step_rank:
  assumes "sys_step srt logf s s'" and "threads_ok s"
  shows "(sys_rank s', sys_rank s) \<in> mult rank_less \<and> threads_ok s'"
proof -
  obtain i h ts h' t where s: "s = (h, ts)" "s' = (h', ts[i := t])" and i: "i < length ts"
    and run: "thread_step srt logf (h, ts ! i) = Inr (h', t)" "\<not> thread_done (ts ! i)"
    using assms(1) by (elim sys_stepE) auto
  have "thread_pc_ok (ts ! i)" using assms(2) i by (simp add: threads_ok_def s list_all_length)
  note less = thread_step_rank [OF run(1) this run(2)]
  let ?rest = "mset (map thread_rank ts) - {#thread_rank (ts ! i)#}"
  have "thread_rank (ts ! i) \<in># mset (map thread_rank ts)" using i by simp
  then have old: "sys_rank s = add_mset (thread_rank (ts ! i)) ?rest" by (simp add: sys_rank_def s)
  have new: "sys_rank s' = add_mset (thread_rank t) ?rest"
    using i mset_update [of i "map thread_rank ts" "thread_rank t"]
    by (simp add: sys_rank_def s map_update del: mset_map)
  have "(sys_rank s', sys_rank s) \<in> mult1 rank_less"
    by (rule mult1I [of _ "thread_rank (ts ! i)" ?rest _ "{#thread_rank t#}"])
      (use less old new in simp_all)
  moreover have "threads_ok s'"
    using assms(2) less i by (auto simp: threads_ok_def s list_all_length nth_list_update)
  ultimately show ?thesis by (simp add: mult_def)
qed

lemma no_infinite_run:
  assumes "threads_ok (run 0)"
  shows "\<exists>n. \<not> sys_step srt logf (run n) (run (Suc n))"
proof (rule ccontr)
  assume "\<not> ?thesis"
  then have all: "sys_step srt logf (run n) (run (Suc n))" for n by blast
  have ok: "threads_ok (run n)" for n
    by (induction n) (use assms all sys_step_rank in blast)+
  then have "\<exists>f. \<forall>n. (f (Suc n), f n) \<in> mult rank_less"
    using all sys_step_rank by (intro exI [of _ "\<lambda>n. sys_rank (run n)"]) blast
  then show False
    using wf_mult [OF wf_rank_less] unfolding wf_iff_no_infinite_down_chain by blast
qed

end
