(* ===== verification/Hnsw_Shared.thy ===== *)
theory Hnsw_Shared
  imports Hnsw_Progress
begin

text \<open>
  What holds under every interleaving: the invariant of the shared state, of the places of the
  threads and between them.  Slots are never removed and nodes keep their levels, so what a thread
  knows of a node stays true while others run.
\<close>

section \<open>The shared state\<close>

text \<open>Concurrent insertions keep the links within the degree bounds and on their layer.\<close>

definition links_wf :: "int \<Rightarrow> nat list list list \<Rightarrow> bool" where
  "links_wf M g \<longleftrightarrow>
     (\<forall>i<length g. \<forall>l<length (g ! i). int (length (g ! i ! l)) \<le> degree_bound M l
        \<and> (\<forall>j\<in>set (g ! i ! l). j < length g \<and> l < length (g ! j)))"

lemma links_wfI:
  assumes "\<And>i l. i < length g \<Longrightarrow> l < length (g ! i) \<Longrightarrow> int (length (g ! i ! l)) \<le> degree_bound M l
    \<and> (\<forall>j\<in>set (g ! i ! l). j < length g \<and> l < length (g ! j))"
  shows "links_wf M g"
  using assms unfolding links_wf_def by blast

lemma links_wfD:
  assumes "links_wf M g" and "i < length g" and "l < length (g ! i)"
  shows "int (length (g ! i ! l)) \<le> degree_bound M l"
    and "j \<in> set (g ! i ! l) \<Longrightarrow> j < length g \<and> l < length (g ! j)"
  using assms unfolding links_wf_def by blast+

lemma graph_links_wf: "graph_wf M g \<Longrightarrow> links_wf M g"
  unfolding graph_wf_def links_wf_def by blast

lemma links_wf_update:
  assumes wf: "links_wf M g" and i: "i < length g" "l < length (g ! i)"
    and "int (length ls) \<le> degree_bound M l" and "\<forall>j\<in>set ls. j < length g \<and> l < length (g ! j)"
  shows "links_wf M (g[i := (g ! i)[l := ls]])"
proof (rule links_wfI)
  let ?g = "g[i := (g ! i)[l := ls]]"
  fix k m
  assume "k < length ?g" "m < length (?g ! k)"
  then have km: "k < length g" "m < length (g ! k)" by (simp_all add: length_graph_update)
  show "int (length (?g ! k ! m)) \<le> degree_bound M m
    \<and> (\<forall>j\<in>set (?g ! k ! m). j < length ?g \<and> m < length (?g ! j))"
    unfolding nth_graph_update [OF i] length_graph_update length_list_update
    using links_wfD [OF wf km] assms(4,5) by auto
qed

lemma links_wf_snoc:
  assumes wf: "links_wf M g" and "1 \<le> M"
  shows "links_wf M (g @ [replicate n []])"
proof (rule links_wfI)
  let ?g = "g @ [replicate n []]"
  fix i l
  assume il: "i < length ?g" "l < length (?g ! i)"
  show "int (length (?g ! i ! l)) \<le> degree_bound M l
    \<and> (\<forall>j\<in>set (?g ! i ! l). j < length ?g \<and> l < length (?g ! j))"
  proof (cases "i < length g")
    case True
    then have "l < length (g ! i)" using il by (simp add: nth_append)
    from links_wfD [OF wf True this] show ?thesis
      using True by (auto simp: nth_append intro: less_SucI)
  next
    case False
    then have "?g ! i ! l = []" using il by (auto simp: nth_append less_Suc_eq)
    then show ?thesis using assms(2) by (simp add: degree_bound_def)
  qed
qed

text \<open>The vectors, those of the calls in progress included, when \<open>b\<close> asks for it.\<close>

definition vectors_ok :: "f32 list list \<Rightarrow> 's hnsw \<Rightarrow> bool" where
  "vectors_ok V h \<longleftrightarrow>
     h_vec_accessor h = None \<and> no_nan_scores (h_dim h) V \<and> set (stored_vectors h) \<subseteq> set V"

definition vector_ok :: "f32 list list \<Rightarrow> nat \<Rightarrow> f32 list \<Rightarrow> bool" where
  "vector_ok V n v \<longleftrightarrow> n \<le> length v \<and> take n v \<in> set V"

definition shared_ok :: "bool \<Rightarrow> f32 list list \<Rightarrow> 's hnsw \<Rightarrow> bool" where
  "shared_ok b V h \<longleftrightarrow>
     cfg_ok (h_cfg h) \<and> hnsw_sizes h \<and> links_wf (cfg_M (h_cfg h)) (h_graph h)
     \<and> (\<forall>i<h_num_vectors h. h_graph h ! i \<noteq> []) \<and> h_max_layer h < 2 ^ 31
     \<and> (h_num_vectors h = 0 \<longrightarrow> h_max_layer h = 0 \<and> h_entry_point h = 0)
     \<and> (h_num_vectors h \<noteq> 0 \<longrightarrow> h_entry_point h < h_num_vectors h
        \<and> int (length (h_graph h ! h_entry_point h)) = h_max_layer h + 1)
     \<and> (b \<longrightarrow> vectors_ok V h)"

lemma shared_okD:
  assumes "shared_ok b V h"
  shows "cfg_ok (h_cfg h)" and "hnsw_sizes h" and "links_wf (cfg_M (h_cfg h)) (h_graph h)"
    and "length (h_graph h) = h_num_vectors h" and "b \<Longrightarrow> vectors_ok V h"
  using assms by (simp_all add: shared_ok_def hnsw_sizes_def)

lemma vectors_score:
  assumes "vectors_ok V h" and "hnsw_sizes h" and "i < h_num_vectors h" and "vector_ok V (h_dim h) query"
  shows "own_readable h i" and "\<not> is_nan (node_score own_vector h query i)"
proof -
  show "own_readable h i" using own_readable_sizes [OF assms(2) _ assms(3)] assms(1) by (simp add: vectors_ok_def)
  have "own_vector h i \<in> set V" using assms(1,3) by (auto simp: vectors_ok_def stored_vectors_def)
  then show "\<not> is_nan (node_score own_vector h query i)"
    using assms(1,4) score_of_take1 [of "h_dim h" query]
    by (simp add: vectors_ok_def vector_ok_def no_nan_scores_def node_score_def) metis
qed

lemma vectors_proper: "vectors_ok V h \<Longrightarrow> hnsw_sizes h \<Longrightarrow> proper_vectors h"
  by (rule proper_vectors_stored) (auto simp: vectors_ok_def no_nan_scores_def)

text \<open>An update of a node's links.\<close>

lemma shared_relink:
  assumes "shared_ok b V h" and "i < h_num_vectors h" and "l < length (h_graph h ! i)"
    and "int (length ls) \<le> degree_bound (cfg_M (h_cfg h)) l"
    and "\<forall>j\<in>set ls. j < h_num_vectors h \<and> l < length (h_graph h ! j)"
  shows "shared_ok b V (h\<lparr>h_graph := (h_graph h)[i := (h_graph h ! i)[l := ls]]\<rparr>)"
proof -
  have "links_wf (cfg_M (h_cfg h)) ((h_graph h)[i := (h_graph h ! i)[l := ls]])"
    using assms shared_okD(3,4) [OF assms(1)] by (intro links_wf_update) auto
  moreover have "(h_graph h)[i := (h_graph h ! i)[l := ls]] ! j = [] \<longleftrightarrow> h_graph h ! j = []" for j
    using length_graph_update [of "h_graph h" i l ls j] by (metis length_0_conv)
  ultimately show ?thesis
    using assms(1) unfolding shared_ok_def
    by (simp add: hnsw_sizes_def length_graph_update vectors_ok_def stored_vectors_def)
qed

section \<open>The places of the threads\<close>

text \<open>A node that exists and, for insertions, has the layer.\<close>

definition node_on :: "bool \<Rightarrow> 's hnsw \<Rightarrow> int \<Rightarrow> nat \<Rightarrow> bool" where
  "node_on st h layer i \<longleftrightarrow>
     i < h_num_vectors h \<and> (st \<longrightarrow> layer < int (length (h_graph h ! i)))"

text \<open>
  The table of a thread has room for \<open>N\<close> nodes, or it is still empty and grows by 10000 more
  entries than there are vectors then.
\<close>

definition room :: "nat \<Rightarrow> 's visit_ctx \<Rightarrow> bool" where
  "room N ctx \<longleftrightarrow> N \<le> vis_size ctx \<or> (vis_size ctx = 0 \<and> N \<le> 10000)"

definition scored_ok :: "bool \<Rightarrow> bool \<Rightarrow> 's hnsw \<Rightarrow> int \<Rightarrow> scored list \<Rightarrow> bool" where
  "scored_ok b st h layer ps \<longleftrightarrow>
     (\<forall>p\<in>set ps. node_on st h layer (snd p) \<and> (b \<longrightarrow> \<not> is_nan (fst p)))"

fun search_pc_ok :: "bool \<Rightarrow> nat \<Rightarrow> bool \<Rightarrow> 's hnsw \<Rightarrow> int \<Rightarrow> 's search_pc \<Rightarrow> bool" where
  "search_pc_ok b N st h layer (S_Tag ctx) = (b \<longrightarrow> room N ctx)"
| "search_pc_ok b N st h layer (S_Score ctx) = (b \<longrightarrow> N \<le> vis_size ctx)"
| "search_pc_ok b N st h layer (S_Visit nbs (cands, results, ctx)) =
     ((b \<longrightarrow> N \<le> vis_size ctx) \<and> (\<forall>i\<in>set nbs. node_on st h layer i)
      \<and> scored_ok b st h layer cands \<and> scored_ok b st h layer results)"
| "search_pc_ok b N st h layer (S_Found out ctx) =
     ((b \<longrightarrow> N \<le> vis_size ctx) \<and> scored_ok b st h layer out)"

lemma scored_ok_keys: "scored_ok b st h layer ps \<Longrightarrow> b \<Longrightarrow> keys_ok ps"
  by (auto simp: scored_ok_def)

lemma scored_ok_subset: "scored_ok b st h layer ps \<Longrightarrow> set qs \<subseteq> set ps \<Longrightarrow> scored_ok b st h layer qs"
  by (auto simp: scored_ok_def)

lemma begin_visit_room:
  "room N ctx \<Longrightarrow> 0 < nv \<Longrightarrow> N \<le> vis_size (begin_visit nv ctx)"
  by (auto simp: room_def begin_visit_def Let_def)

lemma room_size: "N \<le> vis_size ctx \<Longrightarrow> room N ctx"
  by (simp add: room_def)

section \<open>A step of a layer search\<close>

lemma score_step:
  assumes sh: "shared_ok b V h" and vec: "b \<Longrightarrow> vector_ok V (h_dim h) query" and i: "i < h_num_vectors h"
  shows "holdsR b (similarity_to h query i ctx)
    (\<lambda>(sim, ctx'). vis_size ctx' = vis_size ctx \<and> (b \<longrightarrow> \<not> is_nan sim))"
proof -
  have "holdsR b (similarity_to h query i ctx) (\<lambda>(sim, ctx'). (\<exists>s. ctx' = ctx\<lparr>vis_env := s\<rparr> \<and> (b \<longrightarrow> True))
      \<and> (b \<longrightarrow> sim = node_score own_vector h query i))"
    using vectors_score(1) [OF shared_okD(5,2) [OF sh] i vec] sh vec
    by (intro own.similarity_to_score) (auto simp: vector_ok_def)
  then show ?thesis
    by (rule holdsR_mono) (use vectors_score(2) [OF shared_okD(5,2) [OF sh] i vec] sh in auto)
qed

lemma visit_step:
  assumes sh: "shared_ok b V h" and vec: "b \<Longrightarrow> vector_ok V (h_dim h) query" and N: "h_num_vectors h \<le> N"
    and ok: "search_pc_ok b N st h layer (S_Visit (nb # nbs) beam)"
  shows "holdsR b (visit_neighbour h query ef nb beam) (\<lambda>beam. search_pc_ok b N st h layer (S_Visit nbs beam))"
proof -
  obtain cands results ctx where beam: "beam = (cands, results, ctx)" by (cases beam)
  have nb: "node_on st h layer nb" and size: "b \<longrightarrow> nb < vis_size ctx"
    using ok N by (auto simp: beam node_on_def)
  have sim: "holdsR b (similarity_to h query nb c) (\<lambda>(sim, ctx'). vis_size ctx' = vis_size c \<and> (b \<longrightarrow> \<not> is_nan sim))" for c
    using nb by (intro score_step [OF sh vec]) (simp_all add: node_on_def)
  have kept: "holdsR b
      (if worst_of results < sim \<or> int (length results) < ef
       then bindR (pq_push min_first (- sim, nb) cands) (\<lambda>cands.
         bindR (pq_push max_first (- sim, nb) results) (\<lambda>results.
         Inr (cands, if ef < int (length results) then tl results else results, ctx')))
       else Inr (cands, results, ctx'))
      (\<lambda>beam. search_pc_ok b N st h layer (S_Visit nbs beam))"
    if s: "vis_size ctx' = vis_size ctx" "b \<longrightarrow> \<not> is_nan sim" for sim ctx'
  proof -
    have new: "scored_ok b st h layer ((- sim, nb) # qs)" if "scored_ok b st h layer qs" for qs
      using that s(2) nb by (simp add: scored_ok_def)
    have cands: "scored_ok b st h layer ((- sim, nb) # cands)"
      and results: "scored_ok b st h layer ((- sim, nb) # results)"
      using ok new by (simp_all add: beam)
    have "scored_ok b st h layer (pq_insert min_first (- sim, nb) cands)"
      by (rule scored_ok_subset [OF cands]) simp
    moreover have "scored_ok b st h layer
        (if ef < int (length (pq_insert max_first (- sim, nb) results))
         then tl (pq_insert max_first (- sim, nb) results) else pq_insert max_first (- sim, nb) results)"
      by (rule scored_ok_subset [OF results]) (auto dest: list.set_sel(2) [rotated])
    ultimately show ?thesis
      using ok s(1) scored_ok_keys [OF cands] scored_ok_keys [OF results] by (simp add: beam pq_push_def)
  qed
  have sc: "holdsR b (bindR (similarity_to h query nb c) (\<lambda>(sim, ctx').
      if worst_of results < sim \<or> int (length results) < ef
       then bindR (pq_push min_first (- sim, nb) cands) (\<lambda>cands.
         bindR (pq_push max_first (- sim, nb) results) (\<lambda>results.
         Inr (cands, if ef < int (length results) then tl results else results, ctx')))
       else Inr (cands, results, ctx'))) (\<lambda>beam. search_pc_ok b N st h layer (S_Visit nbs beam))"
    if "vis_size c = vis_size ctx" for c
    unfolding holdsR_bind
  proof (rule holdsR_mono [OF sim])
    fix r :: "f32 \<times> 'a visit_ctx"
    assume "case r of (sim, ctx') \<Rightarrow> vis_size ctx' = vis_size c \<and> (b \<longrightarrow> \<not> is_nan sim)"
    then show "holdsR b (case r of (sim, ctx') \<Rightarrow>
        if worst_of results < sim \<or> int (length results) < ef
        then bindR (pq_push min_first (- sim, nb) cands) (\<lambda>cands.
          bindR (pq_push max_first (- sim, nb) results) (\<lambda>results.
          Inr (cands, if ef < int (length results) then tl results else results, ctx')))
        else Inr (cands, results, ctx')) (\<lambda>beam. search_pc_ok b N st h layer (S_Visit nbs beam))"
      using kept [of "snd r" "fst r"] that unfolding split_beta by metis
  qed
  show ?thesis
    unfolding beam visit_neighbour_def prod.case
    using ok size sc [of "ctx\<lparr>vis_at := (vis_at ctx)(nb := vis_tag ctx)\<rparr>"]
    by (auto simp: beam is_visited_def mark_visited_def simp del: holdsR_bind)
qed

text \<open>The links that are read lead to nodes of the layer.\<close>

lemma layer_links_ok:
  assumes sh: "shared_ok b V h" and layer: "0 \<le> layer" and c: "node_on st h layer c"
  shows "okR (layer_links h layer c) (\<lambda>nbs. \<forall>i\<in>set nbs. node_on st h layer i)"
proof -
  have c': "c < length (h_graph h)" using c shared_okD(4) [OF sh] by (simp add: node_on_def)
  have "node_on st h layer j"
    if l: "layer < int (length (h_graph h ! c))" and j: "j \<in> set (h_graph h ! c ! nat layer)" for j
  proof -
    have "nat layer < length (h_graph h ! c)" using l layer by linarith
    then have "j < length (h_graph h) \<and> nat layer < length (h_graph h ! j)"
      using links_wfD(2) [OF shared_okD(3) [OF sh] c'] j by blast
    then show ?thesis using layer shared_okD(4) [OF sh] by (simp add: node_on_def) linarith
  qed
  moreover have "layer < int (length (h_graph h ! c)) \<Longrightarrow> nat layer < length (h_graph h ! c)"
    using layer by linarith
  ultimately show ?thesis
    using c' layer by (simp add: layer_links_def)
qed

lemma finish_step:
  assumes srt: "desc_sorter srt" and ok: "search_pc_ok b N st h layer (S_Visit nbs (cands, results, ctx))"
  shows "holdsR b (search_finish srt results ctx) (search_pc_ok b N st h layer)"
proof -
  let ?xs = "map (\<lambda>(neg, i). (- neg, i)) results"
  have xs: "scored_ok b st h layer ?xs" using ok by (auto simp: scored_ok_def)
  have "scored_ok b st h layer (srt ?xs)" if "keys_ok ?xs"
    by (rule scored_ok_subset [OF xs]) (simp only: desc_sorter.set_srt [OF srt that] order_refl)
  then show ?thesis
    using ok scored_ok_keys [OF xs] by (simp add: search_finish_def std_sort_def)
qed

lemma search_step_ok:
  assumes srt: "desc_sorter srt" and sh: "shared_ok b V h" and vec: "b \<Longrightarrow> vector_ok V (h_dim h) query"
    and N: "h_num_vectors h \<le> N" and layer: "0 \<le> layer" and ep: "node_on st h layer ep"
    and ok: "search_pc_ok b N st h layer spc"
  shows "holdsR b (search_step srt h query ep ef layer spc) (search_pc_ok b N st h layer)"
proof (cases spc)
  case (S_Tag ctx)
  then show ?thesis using ok ep begin_visit_room [of N ctx "h_num_vectors h"] by (simp add: node_on_def)
next
  case (S_Score ctx)
  have "holdsR b (similarity_to h query ep ctx) (\<lambda>(sim, ctx'). vis_size ctx' = vis_size ctx \<and> (b \<longrightarrow> \<not> is_nan sim))"
    using ep by (intro score_step [OF sh vec]) (simp_all add: node_on_def)
  then show ?thesis
    unfolding S_Score search_step.simps holdsR_bind
    by (rule holdsR_mono) (use ok ep N S_Score in \<open>auto simp: mark_visited_def scored_ok_def node_on_def\<close>)
next
  case (S_Visit nbs beam)
  obtain cands results ctx where beam: "beam = (cands, results, ctx)" by (cases beam)
  show ?thesis
  proof (cases nbs)
    case (Cons nb rest)
    then show ?thesis using visit_step [OF sh vec N, of st layer nb rest beam ef] ok S_Visit by simp
  next
    case Nil
    have fin: "holdsR b (search_finish srt results ctx) (search_pc_ok b N st h layer)"
      using ok S_Visit beam by (intro finish_step [OF srt]) blast
    show ?thesis
    proof (cases cands)
      case Nil
      then show ?thesis using fin \<open>nbs = []\<close> by (simp add: S_Visit beam)
    next
      case (Cons p rest)
      obtain neg c where p: "p = (neg, c)" by (cases p)
      have c: "node_on st h layer c" and rest: "scored_ok b st h layer rest"
        using ok by (auto simp: S_Visit beam Cons p scored_ok_def)
      obtain links where "layer_links h layer c = Inr links" "\<forall>i\<in>set links. node_on st h layer i"
        using layer_links_ok [OF sh layer c] by (auto simp: okR_iff)
      then show ?thesis using fin ok rest by (simp add: S_Visit beam Cons p \<open>nbs = []\<close>)
    qed
  qed
qed (use ok in simp)

lemma next_ep_on:
  "scored_ok b st h layer out \<Longrightarrow> node_on st h layer ep \<Longrightarrow> node_on st h layer (next_ep ep out)"
  by (simp add: next_ep_def scored_ok_def)

lemma node_on_lower: "node_on st h layer i \<Longrightarrow> layer' \<le> layer \<Longrightarrow> node_on st h layer' i"
  by (auto simp: node_on_def)

end
