(* ===== verification/Hnsw_Interleave.thy ===== *)
theory Hnsw_Interleave
  imports Hnsw_Shared
begin

text \<open>
  Insertions, searches and deletions of several threads, interleaved in any way: what every thread
  relies on at its place, that every step keeps it, and what follows for whole schedules.
\<close>

section \<open>What a thread relies on\<close>

text \<open>The slot \<open>q\<close> of an insertion in progress.\<close>

definition slot_ok :: "'s hnsw \<Rightarrow> nat \<Rightarrow> int \<Rightarrow> bool" where
  "slot_ok h q level \<longleftrightarrow>
     q < h_num_vectors h \<and> int (length (h_graph h ! q)) = level + 1 \<and> 0 \<le> level \<and> level < 2 ^ 31"

fun insert_pc_ok :: "bool \<Rightarrow> nat \<Rightarrow> 's hnsw \<Rightarrow> 's insert_pc \<Rightarrow> bool" where
  "insert_pc_ok b N h (I_Start ctx) = (b \<longrightarrow> room N ctx)"
| "insert_pc_ok b N h (I_Entry q level ctx) = (slot_ok h q level \<and> (b \<longrightarrow> room N ctx))"
| "insert_pc_ok b N h (I_Descend q level lc ep spc) =
     (slot_ok h q level \<and> level < lc \<and> node_on True h lc ep \<and> search_pc_ok b N True h lc spc)"
| "insert_pc_ok b N h (I_Connect q level lc ep spc) =
     (slot_ok h q level \<and> 0 \<le> lc \<and> lc \<le> level \<and> node_on True h lc ep \<and> search_pc_ok b N True h lc spc)"
| "insert_pc_ok b N h (I_Back q level lc ep nbs ctx) =
     (slot_ok h q level \<and> 0 \<le> lc \<and> lc \<le> level \<and> node_on True h lc ep
      \<and> (\<forall>i\<in>set nbs. node_on True h lc i) \<and> (b \<longrightarrow> room N ctx))"
| "insert_pc_ok b N h (I_Final q level ctx) = slot_ok h q level"
| "insert_pc_ok b N h (I_Done ctx) = True"

fun query_pc_ok :: "bool \<Rightarrow> nat \<Rightarrow> 's hnsw \<Rightarrow> 's query_pc \<Rightarrow> bool" where
  "query_pc_ok b N h (Q_Start ctx) = (b \<longrightarrow> room N ctx)"
| "query_pc_ok b N h (Q_Entry nv ctx) = (0 < nv \<and> nv \<le> h_num_vectors h \<and> (b \<longrightarrow> room N ctx))"
| "query_pc_ok b N h (Q_Layer lc ep spc) =
     (0 \<le> lc \<and> node_on False h lc ep \<and> search_pc_ok b N False h lc spc)"
| "query_pc_ok b N h (Q_Done res ctx) = True"

text \<open>A draw of the random generator gives a level.\<close>

definition draw_ok :: "(f32 \<Rightarrow> f32) \<Rightarrow> 's hnsw \<Rightarrow> f32 \<Rightarrow> bool" where
  "draw_ok logf h val \<longleftrightarrow> okR (random_layer logf val (h_mL h)) (\<lambda>level. 0 \<le> level)"

fun thread_ok ::
    "bool \<Rightarrow> nat \<Rightarrow> f32 list list \<Rightarrow> (f32 \<Rightarrow> f32) \<Rightarrow> 's hnsw \<Rightarrow> 's thread \<Rightarrow> bool" where
  "thread_ok b N V logf h (Inserting rq pc) =
     (draw_ok logf h (rq_draw rq) \<and> (b \<longrightarrow> vector_ok V (h_dim h) (rq_vec rq)) \<and> insert_pc_ok b N h pc)"
| "thread_ok b N V logf h (Searching query k pc) =
     ((b \<longrightarrow> vector_ok V (h_dim h) query) \<and> query_pc_ok b N h pc)"
| "thread_ok b N V logf h (Deleting x) = True"
| "thread_ok b N V logf h Deleted = True"

section \<open>Nodes stay\<close>

definition grown :: "'s hnsw \<Rightarrow> 's hnsw \<Rightarrow> bool" where
  "grown h h' \<longleftrightarrow>
     h_num_vectors h \<le> h_num_vectors h'
     \<and> (\<forall>i<h_num_vectors h. length (h_graph h' ! i) = length (h_graph h ! i))
     \<and> h_dim h' = h_dim h \<and> h_mL h' = h_mL h"

lemma grown_refl [simp]: "grown h h"
  by (simp add: grown_def)

lemma grown_node: "grown h h' \<Longrightarrow> node_on st h layer i \<Longrightarrow> node_on st h' layer i"
  by (auto simp: grown_def node_on_def)

lemma grown_scored: "grown h h' \<Longrightarrow> scored_ok b st h layer ps \<Longrightarrow> scored_ok b st h' layer ps"
  by (auto simp: scored_ok_def intro: grown_node)

lemma grown_search: "grown h h' \<Longrightarrow> search_pc_ok b N st h layer spc \<Longrightarrow> search_pc_ok b N st h' layer spc"
  by (induction b N st h layer spc rule: search_pc_ok.induct) (auto intro: grown_node grown_scored)

lemma grown_slot: "grown h h' \<Longrightarrow> slot_ok h q level \<Longrightarrow> slot_ok h' q level"
  by (auto simp: grown_def slot_ok_def)

lemma grown_insert: "grown h h' \<Longrightarrow> insert_pc_ok b N h pc \<Longrightarrow> insert_pc_ok b N h' pc"
  by (cases pc) (auto intro: grown_node grown_search grown_slot)

lemma grown_query: "grown h h' \<Longrightarrow> query_pc_ok b N h pc \<Longrightarrow> query_pc_ok b N h' pc"
  by (cases pc) (auto simp: grown_def intro: grown_node grown_search)

lemma grown_thread:
  assumes "grown h h'" and "thread_ok b N V logf h t"
  shows "thread_ok b N V logf h' t"
proof (cases t)
  case (Inserting rq pc)
  then show ?thesis using assms grown_insert [OF assms(1)] by (auto simp: grown_def draw_ok_def)
next
  case (Searching query k pc)
  then show ?thesis using assms grown_query [OF assms(1)] by (auto simp: grown_def)
qed simp_all

text \<open>A step that only changes links.\<close>

definition relinked :: "'s hnsw \<Rightarrow> 's hnsw \<Rightarrow> bool" where
  "relinked h h' \<longleftrightarrow>
     grown h h' \<and> h_num_vectors h' = h_num_vectors h \<and> h_id_map h' = h_id_map h
     \<and> h_max_layer h' = h_max_layer h"

lemma relinked_update [simp]:
  "relinked h (h\<lparr>h_graph := (h_graph h)[i := (h_graph h ! i)[l := ls]]\<rparr>)"
  by (simp add: relinked_def grown_def length_graph_update)

section \<open>Steps of an insertion\<close>

lemma enter_layer_insert_ok:
  assumes "slot_ok h q level" and "0 \<le> lc \<Longrightarrow> node_on True h lc ep" and "b \<longrightarrow> room N ctx"
  shows "insert_pc_ok b N h (enter_layer q level lc ep ctx)"
  using assms by (auto simp: enter_layer_def slot_ok_def)

lemma select_ok:
  assumes srt: "desc_sorter srt" and ok: "scored_ok b st h layer cands"
  shows "holdsR b (select_neighbours srt cands M)
    (\<lambda>nbs. (\<forall>i\<in>set nbs. node_on st h layer i) \<and> int (length nbs) \<le> max 0 M)"
proof -
  have "node_on st h layer i" if k: "keys_ok cands" and i: "i \<in> set (map snd (take (nat M) (srt cands)))" for i
  proof -
    have "set (take (nat M) (srt cands)) \<subseteq> set cands"
      using desc_sorter.set_srt [OF srt k] set_take_subset by metis
    then show ?thesis using i ok by (auto simp: scored_ok_def)
  qed
  then show ?thesis using scored_ok_keys [OF ok] by (auto simp: select_neighbours_def std_sort_def)
qed

text \<open>The insertion's own links.\<close>

lemma set_links_ok:
  assumes sh: "shared_ok b V h" and slot: "slot_ok h q level" and lc: "0 \<le> lc" "lc \<le> level"
    and nbs: "\<forall>i\<in>set nbs. node_on True h lc i" "int (length nbs) \<le> cfg_M (h_cfg h)"
  shows "okR (set_links q lc nbs h) (\<lambda>h'. shared_ok b V h' \<and> relinked h h')"
proof -
  let ?h = "h\<lparr>h_graph := (h_graph h)[q := (h_graph h ! q)[nat lc := nbs]]\<rparr>"
  have q: "q < h_num_vectors h" "nat lc < length (h_graph h ! q)"
    using slot lc by (auto simp: slot_ok_def nat_less_iff)
  have "int (length nbs) \<le> degree_bound (cfg_M (h_cfg h)) (nat lc)"
    using nbs(2) shared_okD(1) [OF sh] by (simp add: degree_bound_def cfg_ok_def)
  moreover have "\<forall>j\<in>set nbs. j < h_num_vectors h \<and> nat lc < length (h_graph h ! j)"
    using nbs(1) lc(1) by (auto simp: node_on_def nat_less_iff)
  ultimately have "shared_ok b V ?h" using shared_relink [OF sh q] by blast
  moreover have "set_links q lc nbs h = Inr ?h"
    using q shared_okD(4) [OF sh] by (simp add: set_links_def nth_r_def upd_r_def)
  ultimately show ?thesis by simp
qed

text \<open>One link back; the neighbour may have gained links since it was selected.\<close>

lemma link_back_ok:
  assumes srt: "desc_sorter srt" and sh: "shared_ok b V h" and slot: "slot_ok h q level"
    and lc: "0 \<le> lc" "lc \<le> level" and nb: "node_on True h lc nb"
  shows "holdsR b (link_back srt q lc nb (h, ctx)) 
    (\<lambda>(h', ctx'). shared_ok b V h' \<and> relinked h h' \<and> vis_size ctx' = vis_size ctx)"
proof -
  let ?g = "h_graph h" and ?M = "cfg_M (h_cfg h)" and ?l = "nat lc"
  let ?links = "?g ! nb ! ?l @ [q]" and ?d = "degree_bound ?M ?l"
  have len: "length ?g = h_num_vectors h" by (rule shared_okD(4) [OF sh])
  have nb': "nb < h_num_vectors h" "?l < length (?g ! nb)"
    using nb lc(1) by (auto simp: node_on_def nat_less_iff)
  have on: "\<forall>i\<in>set ?links. node_on True h lc i"
    using links_wfD(2) [OF shared_okD(3) [OF sh], of nb ?l] nb' len slot lc
    by (auto simp: node_on_def slot_ok_def nat_less_iff)
  have update: "shared_ok b V (h\<lparr>h_graph := ?g[nb := (?g ! nb)[?l := ls]]\<rparr>)"
    if "int (length ls) \<le> ?d" "\<forall>i\<in>set ls. node_on True h lc i" for ls
    using shared_relink [OF sh nb'] that lc(1) by (auto simp: node_on_def nat_less_iff)
  have Mmax: "max_links (h_cfg h) lc = Inr ?d"
    using mmax_degree_bound [OF shared_okD(1) [OF sh], of ?l] lc(1) by simp
  have body: "link_back srt q lc nb (h, ctx) =
    (if ?d < int (length ?links)
     then bindR (bindR (get_vec h nb (vis_env ctx)) (\<lambda>(nb_vec, s). foldR (score_link h nb_vec) ?links ([], s)))
       (\<lambda>(cands, s). bindR (select_neighbours srt cands ?d) (\<lambda>links.
         Inr (h\<lparr>h_graph := ?g[nb := (?g ! nb)[?l := links]]\<rparr>, ctx\<lparr>vis_env := s\<rparr>)))
     else Inr (h\<lparr>h_graph := ?g[nb := (?g ! nb)[?l := ?links]]\<rparr>, ctx))"
    using nb' len lc(1) Mmax
    by (auto simp: link_back_def nth_r_def Let_def bindR_assoc nat_less_iff intro!: bindR_cong)
  have scored: "holdsR b (bindR (get_vec h nb (vis_env ctx)) (\<lambda>(nb_vec, s). foldR (score_link h nb_vec) ?links ([], s)))
    (\<lambda>(cands, s'). map snd cands = ?links \<and> (b \<longrightarrow> (\<forall>p\<in>set cands. \<not> is_nan (fst p))))"
    using vectors_proper [OF shared_okD(5,2) [OF sh]] sh nb' on by (intro score_links_spec) (auto simp: node_on_def)
  show ?thesis
  proof (cases "?d < int (length ?links)")
    case False
    then show ?thesis using update [of ?links] on by (simp add: body)
  next
    case True
    have d: "0 \<le> ?d" using shared_okD(1) [OF sh] by (simp add: degree_bound_def cfg_ok_def)
    have rest: "holdsR b (bindR (select_neighbours srt cands ?d) (\<lambda>links.
        Inr (h\<lparr>h_graph := ?g[nb := (?g ! nb)[?l := links]]\<rparr>, ctx\<lparr>vis_env := s\<rparr>)))
      (\<lambda>(h', ctx'). shared_ok b V h' \<and> relinked h h' \<and> vis_size ctx' = vis_size ctx)"
      if c: "map snd cands = ?links \<and> (b \<longrightarrow> (\<forall>p\<in>set cands. \<not> is_nan (fst p)))" for cands s
    proof -
      have "snd ` set cands = set ?links" using c by (metis list.set_map)
      then have "scored_ok b True h lc cands" using c on by (auto simp: scored_ok_def)
      from select_ok [OF srt this, of ?d] show ?thesis
        unfolding holdsR_bind by (rule holdsR_mono) (use update d in auto)
    qed
    show ?thesis
      unfolding body if_P [OF True] holdsR_bind [of b "bindR _ _"]
      by (rule holdsR_mono [OF scored]) (use rest in \<open>auto simp del: holdsR_bind\<close>)
  qed
qed

text \<open>The slot an insertion holds, and the nodes above the highest layer.\<close>

fun slot_of :: "'s insert_pc \<Rightarrow> nat set" where
  "slot_of (I_Entry q level ctx) = {q}"
| "slot_of (I_Descend q level lc ep spc) = {q}"
| "slot_of (I_Connect q level lc ep spc) = {q}"
| "slot_of (I_Back q level lc ep nbs ctx) = {q}"
| "slot_of (I_Final q level ctx) = {q}"
| "slot_of _ = {}"

lemma slot_of_enter [simp]: "slot_of (enter_layer q level lc ep ctx) = {q}"
  by (simp add: enter_layer_def)

definition high_nodes :: "'s hnsw \<Rightarrow> nat set" where
  "high_nodes h = {i. i < h_num_vectors h \<and> h_max_layer h + 1 < int (length (h_graph h ! i))}"

fun at_start :: "'s insert_pc \<Rightarrow> bool" where
  "at_start (I_Start ctx) = True"
| "at_start _ = False"

lemma at_start_enter [simp]: "\<not> at_start (enter_layer q level lc ep ctx)"
  by (simp add: enter_layer_def)

text \<open>What a step of an insertion does to the rest of the system.\<close>

definition insert_effect :: "insert_req \<Rightarrow> 's hnsw \<Rightarrow> 's insert_pc \<Rightarrow> 's hnsw \<Rightarrow> 's insert_pc \<Rightarrow> bool" where
  "insert_effect rq h pc h' pc' \<longleftrightarrow>
     grown h h' \<and> \<not> at_start pc'
     \<and> h_num_vectors h' = h_num_vectors h + (if at_start pc then 1 else 0)
     \<and> h_id_map h' = h_id_map h @ (if at_start pc then [rq_id rq] else [])
     \<and> high_nodes h' \<subseteq> high_nodes h - slot_of pc \<union> slot_of pc'"

lemma relinked_effect:
  assumes "relinked h h'" and "slot_of pc \<subseteq> slot_of pc'" and "\<not> at_start pc" and "\<not> at_start pc'"
  shows "insert_effect rq h pc h' pc'"
proof -
  have "high_nodes h' = high_nodes h"
    using assms(1) by (auto simp: relinked_def grown_def high_nodes_def)
  then show ?thesis using assms by (auto simp: insert_effect_def relinked_def)
qed

lemma relinked_refl [simp]: "relinked h h"
  by (simp add: relinked_def)

lemma start_step:
  assumes sh: "shared_ok b V h" and vec: "b \<longrightarrow> vector_ok V (h_dim h) (rq_vec rq)"
    and draw: "draw_ok logf h (rq_draw rq)" and N: "h_num_vectors h < N" "N < 2 ^ 32"
    and room: "b \<longrightarrow> room N ctx"
  shows "holdsR b (insert_step srt logf rq (h, I_Start ctx)) (\<lambda>(h', pc').
    shared_ok b V h' \<and> insert_pc_ok b N h' pc' \<and> insert_effect rq h (I_Start ctx) h' pc')"
proof -
  obtain level where level: "random_layer logf (rq_draw rq) (h_mL h) = Inr level" "0 \<le> level"
    using draw by (auto simp: draw_ok_def okR_iff)
  let ?q = "h_num_vectors h"
  have q: "?q mod 2 ^ 32 = ?q" using N by simp
  have sizes: "hnsw_sizes h" and len: "length (h_graph h) = ?q" by (rule shared_okD [OF sh])+
  have slot: "holdsR b (new_slot (rq_id rq) (rq_vec rq) (rq_meta rq) level h) (\<lambda>h1.
      h_dim h \<le> length (rq_vec rq) \<and> inserted (rq_id rq) (rq_vec rq) (rq_meta rq) h h1
      \<and> hnsw_sizes h1 \<and> h_graph h1 = h_graph h @ [replicate (nat (level + 1)) []]
      \<and> h_max_layer h1 = h_max_layer h \<and> h_entry_point h1 = h_entry_point h)"
    using new_slot_spec [OF sizes level(2)] vec by (auto simp: vector_ok_def)
  have main: "holdsR b (if ?q = 0 then Inr (h1\<lparr>h_max_layer := level, h_entry_point := 0\<rparr>, I_Done ctx)
      else Inr (h1, I_Entry ?q level ctx)) (\<lambda>(h', pc').
    shared_ok b V h' \<and> insert_pc_ok b N h' pc' \<and> insert_effect rq h (I_Start ctx) h' pc')"
    if v: "h_dim h \<le> length (rq_vec rq)" and ins: "inserted (rq_id rq) (rq_vec rq) (rq_meta rq) h h1"
      and sizes1: "hnsw_sizes h1" and g: "h_graph h1 = h_graph h @ [replicate (nat (level + 1)) []]"
      and same: "h_max_layer h1 = h_max_layer h" "h_entry_point h1 = h_entry_point h" for h1
  proof -
    have h1: "h_num_vectors h1 = Suc ?q" "h_dim h1 = h_dim h" "h_cfg h1 = h_cfg h" "h_mL h1 = h_mL h"
      "h_vec_accessor h1 = h_vec_accessor h" "h_id_map h1 = h_id_map h @ [rq_id rq]"
      using ins by (simp_all add: inserted_def)
    have links: "links_wf (cfg_M (h_cfg h1)) (h_graph h1)"
      unfolding g h1 using shared_okD(1,3) [OF sh] by (intro links_wf_snoc) (auto simp: cfg_ok_def)
    have old: "h_graph h1 ! i = h_graph h ! i" if "i < ?q" for i
      using that len by (simp add: g nth_append)
    have new: "length (h_graph h1 ! ?q) = nat (level + 1)" using len by (simp add: g nth_append)
    have "h_graph h1 ! ?q \<noteq> []" using new level(2) by fastforce
    then have ne: "\<forall>i<Suc ?q. h_graph h1 ! i \<noteq> []"
      using sh old by (auto simp: shared_ok_def less_Suc_eq)
    have vs: "b \<longrightarrow> vectors_ok V h1"
      using shared_okD(5) [OF sh] vec stored_inserted [OF sizes ins v] h1 by (auto simp: vectors_ok_def vector_ok_def)
    have grown: "grown h h1" using old h1 by (simp add: grown_def)
    have lv: "level < 2 ^ 31" by (rule random_layer_int [OF level(1)])
    show ?thesis
    proof (cases "?q = 0")
      case True
      let ?h = "h1\<lparr>h_max_layer := level, h_entry_point := 0\<rparr>"
      have "shared_ok b V ?h"
        using sh sizes1 links ne vs lv new level(2) True h1(1)
        by (simp add: shared_ok_def h1 hnsw_sizes_def vectors_ok_def stored_vectors_def own_vector_def)
      moreover have "high_nodes ?h = {}" using new level(2) True h1(1) by (auto simp: high_nodes_def)
      ultimately show ?thesis using True h1 by (simp add: insert_effect_def grown_def)
    next
      case False
      have entry: "h_entry_point h < ?q" "int (length (h_graph h ! h_entry_point h)) = h_max_layer h + 1"
        using sh False by (simp_all add: shared_ok_def)
      have "shared_ok b V h1"
        using sh sizes1 links ne vs entry old by (simp add: shared_ok_def h1 same)
      moreover have "slot_ok h1 ?q level" using new level(2) lv h1(1) by (simp add: slot_ok_def)
      moreover have "high_nodes h1 \<subseteq> insert ?q (high_nodes h)"
        using old h1(1) same by (auto simp: high_nodes_def less_Suc_eq)
      ultimately show ?thesis using False room grown h1 by (simp add: insert_effect_def)
    qed
  qed
  show ?thesis
    unfolding insert_step.simps level(1) bindR_simps q Let_def holdsR_bind
    by (rule holdsR_mono [OF slot]) (use main in blast)
qed

lemma final_step:
  assumes sh: "shared_ok b V h" and slot: "slot_ok h q level"
  defines "h' \<equiv> (if h_max_layer h < level then h\<lparr>h_max_layer := level, h_entry_point := q\<rparr> else h)"
  shows "shared_ok b V h'" and "insert_effect rq h (I_Final q level ctx) h' (I_Done ctx)"
proof -
  show "shared_ok b V h'"
    using sh slot
    by (auto simp: h'_def shared_ok_def slot_ok_def hnsw_sizes_def vectors_ok_def stored_vectors_def own_vector_def)
  have "high_nodes h' \<subseteq> high_nodes h - {q}"
    using slot by (auto simp: h'_def high_nodes_def slot_ok_def)
  then show "insert_effect rq h (I_Final q level ctx) h' (I_Done ctx)"
    by (auto simp: insert_effect_def grown_def h'_def)
qed

lemma insert_step_ok:
  assumes srt: "desc_sorter srt" and sh: "shared_ok b V h" and vec: "b \<longrightarrow> vector_ok V (h_dim h) (rq_vec rq)"
    and draw: "draw_ok logf h (rq_draw rq)" and N: "h_num_vectors h + (if at_start pc then 1 else 0) \<le> N" "N < 2 ^ 32"
    and ok: "insert_pc_ok b N h pc" and pc: "\<And>ctx. pc \<noteq> I_Done ctx"
  shows "holdsR b (insert_step srt logf rq (h, pc)) (\<lambda>(h', pc').
    shared_ok b V h' \<and> insert_pc_ok b N h' pc' \<and> insert_effect rq h pc h' pc')"
proof -
  have N': "h_num_vectors h \<le> N" using N(1) by simp
  have stay: "insert_effect rq h pc h pc'" if "slot_of pc \<subseteq> slot_of pc'" "\<not> at_start pc" "\<not> at_start pc'" for pc'
    using relinked_effect [OF relinked_refl] that by blast
  have search: "holdsR b (search_step srt h (rq_vec rq) ep ef lc spc) (search_pc_ok b N True h lc)"
    if "0 \<le> lc" "node_on True h lc ep" "search_pc_ok b N True h lc spc" for ep ef lc spc
    using search_step_ok [OF srt sh _ N' that] vec by blast
  show ?thesis
  proof (cases pc)
    case (I_Start ctx)
    then show ?thesis using start_step [OF sh vec draw _ N(2)] N(1) ok by simp
  next
    case (I_Entry q level ctx)
    have "node_on True h (h_max_layer h) (h_entry_point h)"
      using sh ok by (auto simp: I_Entry shared_ok_def slot_ok_def node_on_def)
    then show ?thesis
      using ok sh stay by (simp add: I_Entry enter_layer_insert_ok)
  next
    case (I_Descend q level lc ep spc)
    have lc: "0 \<le> lc" using ok by (simp add: I_Descend slot_ok_def)
    show ?thesis
    proof (cases "\<exists>out ctx. spc = S_Found out ctx")
      case True
      then obtain out ctx where spc: "spc = S_Found out ctx" by blast
      have "node_on True h (lc - 1) (next_ep ep out)"
        by (rule node_on_lower [OF next_ep_on [of b True h lc]]) (use ok in \<open>simp_all add: I_Descend spc\<close>)
      then have "insert_pc_ok b N h (enter_layer q level (lc - 1) (next_ep ep out) ctx)"
        using ok by (intro enter_layer_insert_ok) (simp_all add: I_Descend spc room_size)
      then show ?thesis using sh stay by (simp add: I_Descend spc)
    next
      case False
      then have "insert_step srt logf rq (h, pc) = bindR (search_step srt h (rq_vec rq) ep 1 lc spc)
          (\<lambda>spc. Inr (h, I_Descend q level lc ep spc))"
        by (cases spc) (simp_all add: I_Descend del: search_step.simps)
      then show ?thesis
        using search [of lc ep spc 1] lc ok sh stay by (simp add: I_Descend)
    qed
  next
    case (I_Connect q level lc ep spc)
    show ?thesis
    proof (cases "\<exists>out ctx. spc = S_Found out ctx")
      case True
      then obtain out ctx where spc: "spc = S_Found out ctx" by blast
      have ep: "node_on True h lc (next_ep ep out)"
        by (rule next_ep_on [of b]) (use ok in \<open>simp_all add: I_Connect spc\<close>)
      have sel: "holdsR b (select_neighbours srt out (cfg_M (h_cfg h)))
        (\<lambda>nbs. (\<forall>i\<in>set nbs. node_on True h lc i) \<and> int (length nbs) \<le> max 0 (cfg_M (h_cfg h)))"
        by (rule select_ok [OF srt]) (use ok in \<open>simp add: I_Connect spc\<close>)
      have M: "max 0 (cfg_M (h_cfg h)) = cfg_M (h_cfg h)"
        using shared_okD(1) [OF sh] by (simp add: cfg_ok_def)
      have "holdsR b (bindR (set_links q lc nbs h) (\<lambda>h'. Inr (h', I_Back q level lc (next_ep ep out) nbs ctx)))
          (\<lambda>(h', pc'). shared_ok b V h' \<and> insert_pc_ok b N h' pc' \<and> insert_effect rq h pc h' pc')"
        if nbs: "\<forall>i\<in>set nbs. node_on True h lc i" "int (length nbs) \<le> cfg_M (h_cfg h)" for nbs
      proof -
        obtain h' where h': "set_links q lc nbs h = Inr h'" "shared_ok b V h'" "relinked h h'"
          using set_links_ok [OF sh _ _ _ nbs, of q level] ok by (auto simp: I_Connect okR_iff)
        then have "grown h h'" by (simp add: relinked_def)
        then have "insert_pc_ok b N h' (I_Back q level lc (next_ep ep out) nbs ctx)"
          using grown_slot grown_node ok ep nbs(1) by (fastforce simp: I_Connect spc room_size)
        then show ?thesis using h' relinked_effect [OF h'(3)] by (simp add: I_Connect)
      qed
      then show ?thesis
        using sel unfolding M by (auto simp: I_Connect spc elim!: holdsR_mono simp del: insert_pc_ok.simps)
    next
      case False
      then have "insert_step srt logf rq (h, pc) =
          bindR (search_step srt h (rq_vec rq) ep (max (cfg_ef_construction (h_cfg h)) (cfg_M (h_cfg h))) lc spc)
          (\<lambda>spc. Inr (h, I_Connect q level lc ep spc))"
        by (cases spc) (simp_all add: I_Connect Let_def del: search_step.simps)
      then show ?thesis
        using search [of lc ep spc "max (cfg_ef_construction (h_cfg h)) (cfg_M (h_cfg h))"] ok sh stay
        by (simp add: I_Connect)
    qed
  next
    case (I_Back q level lc ep nbs ctx)
    show ?thesis
    proof (cases nbs)
      case Nil
      have "insert_pc_ok b N h (enter_layer q level (lc - 1) ep ctx)"
        using ok by (intro enter_layer_insert_ok) (auto simp: I_Back intro: node_on_lower)
      then show ?thesis using sh stay by (simp add: I_Back Nil)
    next
      case (Cons nb rest)
      have "holdsR b (link_back srt q lc nb (h, ctx))
          (\<lambda>(h', ctx'). shared_ok b V h' \<and> relinked h h' \<and> vis_size ctx' = vis_size ctx)"
        using ok by (intro link_back_ok [OF srt sh, of q level]) (simp_all add: I_Back Cons)
      then show ?thesis
        unfolding I_Back Cons insert_step.simps holdsR_bind
      proof (rule holdsR_mono)
        fix r :: "'a hnsw \<times> 'a visit_ctx"
        assume r: "case r of (h', ctx') \<Rightarrow> shared_ok b V h' \<and> relinked h h' \<and> vis_size ctx' = vis_size ctx"
        obtain h' ctx' where r2: "r = (h', ctx')" by (cases r)
        have "grown h h'" using r r2 by (simp add: relinked_def)
        then have "insert_pc_ok b N h' (I_Back q level lc ep rest ctx')"
          using grown_slot grown_node ok r r2 by (fastforce simp: I_Back Cons room_def)
        then show "holdsR b (case r of (h', ctx) \<Rightarrow> Inr (h', I_Back q level lc ep rest ctx)) (\<lambda>(h', pc').
            shared_ok b V h' \<and> insert_pc_ok b N h' pc' \<and> insert_effect rq h (I_Back q level lc ep (nb # rest) ctx) h' pc')"
          using r r2 relinked_effect [of h h'] by simp
      qed
    qed
  next
    case (I_Final q level ctx)
    then show ?thesis using final_step [OF sh, of q level] ok by simp
  qed (use pc in simp)
qed

section \<open>Steps of a search\<close>

lemma search_entry_of_ok:
  assumes sh: "shared_ok b V h" and nv: "0 < nv" "nv \<le> h_num_vectors h"
  shows "okR (search_entry_of h nv) (\<lambda>e. \<forall>ep. e = Some ep \<longrightarrow> ep < h_num_vectors h)"
proof -
  have n: "length (h_tombstone h) = h_num_vectors h" using shared_okD(2) [OF sh] by (simp add: hnsw_sizes_def)
  have ep: "h_entry_point h < h_num_vectors h" using sh nv by (simp add: shared_ok_def)
  have "nv mod 2 ^ 32 \<le> h_num_vectors h" using nv(2) mod_less_eq_dividend order_trans by blast
  then obtain r where r: "find_first (\<lambda>t. \<not> t) (h_tombstone h) (nv mod 2 ^ 32) = Inr r"
    using find_first_defined [of "nv mod 2 ^ 32" "h_tombstone h"] n by auto
  show ?thesis
    using ep n r find_first_Some [of "\<lambda>t. \<not> t" "h_tombstone h" "nv mod 2 ^ 32"]
    by (auto simp: search_entry_of_def)
qed

lemma query_step_ok:
  assumes srt: "desc_sorter srt" and sh: "shared_ok b V h" and vec: "b \<longrightarrow> vector_ok V (h_dim h) query"
    and N: "h_num_vectors h \<le> N" and ok: "query_pc_ok b N h pc"
  shows "holdsR b (query_step srt query k h pc) (query_pc_ok b N h)"
proof (cases pc)
  case (Q_Entry nv ctx)
  obtain e where "search_entry_of h nv = Inr e" "\<forall>ep. e = Some ep \<longrightarrow> ep < h_num_vectors h"
    using search_entry_of_ok [OF sh] ok by (auto simp: Q_Entry okR_iff)
  then show ?thesis using ok by (cases e) (auto simp: Q_Entry node_on_def)
next
  case (Q_Layer lc ep spc)
  show ?thesis
  proof (cases "\<exists>out ctx. spc = S_Found out ctx")
    case True
    then obtain out ctx where spc: "spc = S_Found out ctx" by blast
    have out: "scored_ok b False h lc out" using ok by (simp add: Q_Layer spc)
    have "\<forall>p\<in>set out. snd p < length (h_tombstone h) \<and> snd p < length (h_id_map h)"
      using out shared_okD(2) [OF sh] by (auto simp: scored_ok_def node_on_def hnsw_sizes_def)
    moreover have "node_on False h (lc - 1) (next_ep ep out)"
      by (rule node_on_lower [OF next_ep_on [OF out]]) (use ok in \<open>simp_all add: Q_Layer\<close>)
    ultimately show ?thesis
      using ok by (simp add: Q_Layer spc collect_live_spec room_size)
  next
    case False
    then have "query_step srt query k h pc =
        bindR (search_step srt h query ep (if 0 < lc then 1 else cfg_ef_search (h_cfg h)) lc spc)
        (\<lambda>spc. Inr (Q_Layer lc ep spc))"
      by (cases spc) (simp_all add: Q_Layer del: search_step.simps)
    then show ?thesis
      using search_step_ok [OF srt sh _ N, of query lc False ep spc] vec ok by (simp add: Q_Layer)
  qed
qed (use ok in \<open>simp_all\<close>)

section \<open>Steps of the system\<close>

text \<open>The insertions that have no slot yet, and the slots of those under way.\<close>

fun waits :: "'s thread \<Rightarrow> insert_req multiset" where
  "waits (Inserting rq pc) = (if at_start pc then {#rq#} else {#})"
| "waits _ = {#}"

fun thread_slot :: "'s thread \<Rightarrow> nat set" where
  "thread_slot (Inserting rq pc) = slot_of pc"
| "thread_slot _ = {}"

definition waiting :: "'s thread list \<Rightarrow> insert_req multiset" where
  "waiting ts = sum_mset (image_mset waits (mset ts))"

definition thread_effect :: "'s hnsw \<Rightarrow> 's thread \<Rightarrow> 's hnsw \<Rightarrow> 's thread \<Rightarrow> bool" where
  "thread_effect h t h' t' \<longleftrightarrow>
     grown h h' \<and> h_num_vectors h' + size (waits t') = h_num_vectors h + size (waits t)
     \<and> mset (h_id_map h') + image_mset rq_id (waits t') = mset (h_id_map h) + image_mset rq_id (waits t)
     \<and> high_nodes h' \<subseteq> high_nodes h - thread_slot t \<union> thread_slot t'"

lemma thread_step_ok:
  assumes srt: "desc_sorter srt" and sh: "shared_ok b V h" and ok: "thread_ok b N V logf h t"
    and N: "h_num_vectors h + size (waits t) \<le> N" "N < 2 ^ 32" and t: "\<not> thread_done t"
  shows "holdsR b (thread_step srt logf (h, t)) (\<lambda>(h', t').
    shared_ok b V h' \<and> thread_ok b N V logf h' t' \<and> thread_effect h t h' t')"
proof (cases t)
  case (Inserting rq pc)
  have "h_num_vectors h + (if at_start pc then 1 else 0) \<le> N"
    using N(1) by (simp add: Inserting split: if_splits)
  then have "holdsR b (insert_step srt logf rq (h, pc)) (\<lambda>(h', pc').
      shared_ok b V h' \<and> insert_pc_ok b N h' pc' \<and> insert_effect rq h pc h' pc')"
    using t ok by (intro insert_step_ok [OF srt sh _ _ _ N(2)]) (auto simp: Inserting)
  then show ?thesis
    unfolding Inserting thread_step.simps holdsR_bind
  proof (rule holdsR_mono)
    fix r :: "'a hnsw \<times> 'a insert_pc"
    assume "case r of (h', pc') \<Rightarrow> shared_ok b V h' \<and> insert_pc_ok b N h' pc' \<and> insert_effect rq h pc h' pc'"
    moreover obtain h' pc' where r: "r = (h', pc')" by (cases r)
    ultimately have sh': "shared_ok b V h'" and ok': "insert_pc_ok b N h' pc'" and eff: "insert_effect rq h pc h' pc'"
      by simp_all
    have "thread_ok b N V logf h' (Inserting rq pc')"
      using ok ok' eff by (simp add: Inserting insert_effect_def grown_def draw_ok_def)
    moreover have "thread_effect h (Inserting rq pc) h' (Inserting rq pc')"
      using eff by (simp add: insert_effect_def thread_effect_def)
    ultimately show "holdsR b (case r of (h, pc) \<Rightarrow> Inr (h, Inserting rq pc)) (\<lambda>(h', t').
        shared_ok b V h' \<and> thread_ok b N V logf h' t' \<and> thread_effect h (Inserting rq pc) h' t')"
      using sh' r by simp
  qed
next
  case (Searching query k pc)
  have "holdsR b (query_step srt query k h pc) (query_pc_ok b N h)"
    using ok N(1) by (intro query_step_ok [OF srt sh]) (simp_all add: Searching)
  then show ?thesis
    unfolding Searching thread_step.simps holdsR_bind
    by (rule holdsR_mono) (use ok sh in \<open>simp add: Searching thread_effect_def\<close>)
next
  case (Deleting x)
  obtain ts where ts: "hnsw_delete x h = Inr (h\<lparr>h_tombstone := ts\<rparr>)" "length ts = h_num_vectors h"
    using hnsw_delete_defined [OF hnsw_sizes_slots [OF shared_okD(2) [OF sh]]] by blast
  have "shared_ok b V (h\<lparr>h_tombstone := ts\<rparr>)"
    using sh ts(2) by (simp add: shared_ok_def hnsw_sizes_def vectors_ok_def stored_vectors_def own_vector_def)
  then show ?thesis using ts(1) by (simp add: Deleting thread_effect_def grown_def high_nodes_def)
qed (use t in simp)

definition sys_ok :: "bool \<Rightarrow> nat \<Rightarrow> f32 list list \<Rightarrow> (f32 \<Rightarrow> f32) \<Rightarrow> 's system \<Rightarrow> bool" where
  "sys_ok b N V logf = (\<lambda>(h, ts).
     shared_ok b V h \<and> (\<forall>t\<in>set ts. thread_ok b N V logf h t)
     \<and> h_num_vectors h + size (waiting ts) \<le> N \<and> N < 2 ^ 32
     \<and> high_nodes h \<subseteq> (\<Union>t\<in>set ts. thread_slot t))"

lemma waiting_member: "t \<in> set ts \<Longrightarrow> size (waits t) \<le> size (waiting ts)"
  unfolding waiting_def using multi_member_split [of t "mset ts"] by auto

lemma waiting_update:
  assumes "i < length ts"
  obtains rest where "waiting ts = waits (ts ! i) + rest" and "waiting (ts[i := t]) = waits t + rest"
proof -
  let ?rest = "mset ts - {#ts ! i#}"
  have "mset ts = add_mset (ts ! i) ?rest" using assms by simp
  then have "waiting ts = waits (ts ! i) + sum_mset (image_mset waits ?rest)"
    by (metis waiting_def image_mset_add_mset sum_mset.add_mset)
  moreover have "waiting (ts[i := t]) = waits t + sum_mset (image_mset waits ?rest)"
    using assms by (simp add: waiting_def mset_update)
  ultimately show ?thesis by (rule that)
qed

lemma sys_no_failure:
  assumes srt: "desc_sorter srt" and ok: "sys_ok True N V logf s"
  shows "\<not> sys_fails srt logf s e"
proof -
  obtain h ts where s: "s = (h, ts)" by (cases s)
  have "thread_step srt logf (h, t) \<noteq> Inl e" if t: "t \<in> set ts" "\<not> thread_done t" for t
  proof -
    have "holdsR True (thread_step srt logf (h, t)) (\<lambda>(h', t').
        shared_ok True V h' \<and> thread_ok True N V logf h' t' \<and> thread_effect h t h' t')"
      using ok t waiting_member [OF t(1)] by (intro thread_step_ok [OF srt]) (auto simp: s sys_ok_def)
    then show ?thesis by auto
  qed
  then show ?thesis by (auto simp: s sys_fails_def list_ex_iff)
qed

lemma sys_step_ok:
  assumes srt: "desc_sorter srt" and ok: "sys_ok b N V logf s" and step: "sys_step srt logf s s'"
  shows "sys_ok b N V logf s'
    \<and> mset (h_id_map (fst s')) + image_mset rq_id (waiting (snd s'))
      = mset (h_id_map (fst s)) + image_mset rq_id (waiting (snd s))"
proof -
  obtain i h ts h' t where s: "s = (h, ts)" "s' = (h', ts[i := t])" and i: "i < length ts"
    and run: "thread_step srt logf (h, ts ! i) = Inr (h', t)" "\<not> thread_done (ts ! i)"
    using step by (elim sys_stepE) auto
  have mem: "ts ! i \<in> set ts" using i by simp
  have N: "h_num_vectors h + size (waiting ts) \<le> N" "N < 2 ^ 32" and sh: "shared_ok b V h"
    and ths: "\<forall>t\<in>set ts. thread_ok b N V logf h t" and high: "high_nodes h \<subseteq> (\<Union>t\<in>set ts. thread_slot t)"
    using ok by (simp_all add: s sys_ok_def)
  have "holdsR b (thread_step srt logf (h, ts ! i)) (\<lambda>(h', t').
      shared_ok b V h' \<and> thread_ok b N V logf h' t' \<and> thread_effect h (ts ! i) h' t')"
    using ths mem N waiting_member [OF mem] run(2) by (intro thread_step_ok [OF srt sh]) auto
  then have sh': "shared_ok b V h'" and t: "thread_ok b N V logf h' t" and eff: "thread_effect h (ts ! i) h' t"
    by (simp_all add: run(1))
  have grown: "grown h h'" using eff by (simp add: thread_effect_def)
  obtain rest where w: "waiting ts = waits (ts ! i) + rest" "waiting (ts[i := t]) = waits t + rest"
    by (rule waiting_update [OF i])
  have "\<forall>u\<in>set (ts[i := t]). thread_ok b N V logf h' u"
    using t ths grown_thread [OF grown] set_update_subset_insert [of ts i t] by blast
  moreover have "h_num_vectors h' + size (waiting (ts[i := t])) \<le> N"
    using N(1) eff by (simp add: w thread_effect_def)
  moreover have "high_nodes h' \<subseteq> (\<Union>u\<in>set (ts[i := t]). thread_slot u)"
  proof
    fix j
    assume "j \<in> high_nodes h'"
    then consider "j \<in> thread_slot t" | "j \<in> high_nodes h" "j \<notin> thread_slot (ts ! i)"
      using eff by (auto simp: thread_effect_def)
    then show "j \<in> (\<Union>u\<in>set (ts[i := t]). thread_slot u)"
    proof cases
      case 1
      then show ?thesis using i set_update_memI by fast
    next
      case 2
      then obtain u where "u \<in> set ts" "j \<in> thread_slot u" using high by blast
      then obtain k where k: "k < length ts" "j \<in> thread_slot (ts ! k)"
        by (auto simp: in_set_conv_nth)
      then have "k \<noteq> i" using 2(2) by auto
      then have "ts ! k \<in> set (ts[i := t])"
        using k(1) by (metis length_list_update nth_list_update_neq nth_mem)
      then show ?thesis using k(2) by blast
    qed
  qed
  ultimately show ?thesis
    using sh' N(2) eff by (simp add: s sys_ok_def w thread_effect_def add.assoc [symmetric])
qed

lemma sys_reach_ok:
  assumes srt: "desc_sorter srt" and reach: "sys_reach srt logf s s'" and ok: "sys_ok b N V logf s"
  shows "sys_ok b N V logf s'
    \<and> mset (h_id_map (fst s')) + image_mset rq_id (waiting (snd s'))
      = mset (h_id_map (fst s)) + image_mset rq_id (waiting (snd s))"
  using reach by induction (use ok sys_step_ok [OF srt] in fastforce)+

section \<open>Calls\<close>

text \<open>
  Threads at the start of a call.  With \<open>b\<close> the vectors are read where they exist, score a number
  with every other, and the thread's table has room.
\<close>

fun call_ok :: "bool \<Rightarrow> nat \<Rightarrow> f32 list list \<Rightarrow> (f32 \<Rightarrow> f32) \<Rightarrow> 's hnsw \<Rightarrow> 's thread \<Rightarrow> bool" where
  "call_ok b N V logf h (Inserting rq (I_Start ctx)) =
     (draw_ok logf h (rq_draw rq) \<and> (b \<longrightarrow> vector_ok V (h_dim h) (rq_vec rq) \<and> room N ctx))"
| "call_ok b N V logf h (Searching query k (Q_Start ctx)) =
     (b \<longrightarrow> vector_ok V (h_dim h) query \<and> room N ctx)"
| "call_ok b N V logf h (Deleting x) = True"
| "call_ok b N V logf h t = False"

lemma calls_ok:
  assumes wf: "hnsw_wf h" and vs: "b \<longrightarrow> vectors_ok V h" and calls: "\<forall>t\<in>set ts. call_ok b N V logf h t"
    and N: "h_num_vectors h + size (waiting ts) \<le> N" "N < 2 ^ 32"
  shows "sys_ok b N V logf (h, ts)" and "threads_ok (h, ts)"
proof -
  have len: "length (h_graph h) = h_num_vectors h" using wf by (simp add: hnsw_wf_def hnsw_sizes_def)
  have lv: "levels_wf h" using wf by (simp add: hnsw_wf_def)
  have "h_graph h ! i \<noteq> []" if "i < h_num_vectors h" for i
    using lv len that by (fastforce simp: levels_wf_def)
  then have "shared_ok b V h"
    using wf vs lv len by (auto simp: shared_ok_def hnsw_wf_def levels_wf_def intro: graph_links_wf)
  moreover have "high_nodes h = {}" using lv len by (fastforce simp: levels_wf_def high_nodes_def)
  moreover have one: "call_ok b N V logf h t \<Longrightarrow> thread_ok b N V logf h t \<and> thread_pc_ok t" for t
    by (induction b N V logf h t rule: call_ok.induct) auto
  ultimately show "sys_ok b N V logf (h, ts)" using calls N by (simp add: sys_ok_def)
  show "threads_ok (h, ts)" using calls one by (auto simp: threads_ok_def list_all_iff)
qed

lemma sys_ok_quiet:
  assumes "sys_ok b N V logf (h, ts)" and "list_all thread_done ts"
  shows "levels_wf h \<and> waiting ts = {#}"
proof -
  have quiet: "thread_done t \<Longrightarrow> thread_slot t = {} \<and> waits t = {#}" for t :: "'a thread"
    by (induction t rule: thread_done.induct) auto
  then have "high_nodes h = {}" using assms by (auto simp: sys_ok_def list_all_iff)
  then have "\<forall>i<h_num_vectors h. int (length (h_graph h ! i)) \<le> h_max_layer h + 1"
    by (auto simp: high_nodes_def)
  moreover have sh: "shared_ok b V h" using assms(1) by (simp add: sys_ok_def)
  moreover have "h_graph h = [] \<longleftrightarrow> h_num_vectors h = 0" using shared_okD(4) [OF sh] by auto
  ultimately have "levels_wf h"
    using shared_okD(4) [OF sh] by (auto simp: shared_ok_def levels_wf_def Suc_le_eq)
  moreover have "waiting ts = {#}" using assms(2) quiet by (auto simp: waiting_def list_all_iff)
  ultimately show ?thesis by blast
qed

section \<open>Properties\<close>

text \<open>C5: Whatever way the locked sections of any number of insertions, searches and deletions
  interleave, at every moment the arrays of the index have one entry per vector, no vector is lost
  or stored twice in them, every link leads to a node of its layer and the degree bounds hold; when
  all calls are done, the entry point is on the highest layer again.\<close>

theorem interleaving_invariant:
  assumes "desc_sorter srt" and "hnsw_wf h" and "\<forall>t\<in>set ts. call_ok False N V logf h t"
    and "h_num_vectors h + size (waiting ts) \<le> N" and "N < 2 ^ 32"
    and "sys_reach srt logf (h, ts) (h', ts')"
  shows "hnsw_sizes h' \<and> links_wf (cfg_M (h_cfg h')) (h_graph h')
    \<and> mset (h_id_map h') + image_mset rq_id (waiting ts') = mset (h_id_map h) + image_mset rq_id (waiting ts)
    \<and> (list_all thread_done ts' \<longrightarrow> levels_wf h' \<and> waiting ts' = {#})"
proof -
  have ok: "sys_ok False N V logf (h, ts)" using calls_ok(1) [OF assms(2) _ assms(3-5)] by simp
  note ok' = sys_reach_ok [OF assms(1,6) ok]
  have "shared_ok False V h'" using ok' by (simp add: sys_ok_def)
  then show ?thesis using ok' sys_ok_quiet [of False N V logf h' ts'] shared_okD(2,3) by auto
qed

definition pair_calls :: "unit thread list" where
  "pair_calls =
     [Inserting \<lparr>rq_draw = F32 0x3F000000, rq_id = 9, rq_vec = [f32_one], rq_meta = ''c''\<rparr> (I_Start ctx_new),
      Searching [f32_one] 2 (Q_Start ctx_new), Deleting 7]"

definition unit_vectors :: "f32 list list" where
  "unit_vectors = [[f32_one], [- f32_one]]"

lemma pair_calls_ok: "\<forall>t\<in>set pair_calls. call_ok b 3 unit_vectors log_low hnsw_pair t"
  using level_low
  by (simp add: pair_calls_def draw_ok_def vector_ok_def unit_vectors_def room_def ctx_new_def)

lemma pair_calls_waiting: "size (waiting pair_calls) = 1"
  by (simp add: waiting_def pair_calls_def)

lemma pair_vectors_ok: "vectors_ok unit_vectors hnsw_pair"
proof -
  have "stored_vectors hnsw_pair = unit_vectors"
    by (simp add: stored_vectors_def unit_vectors_def own_pair numeral_2_eq_2)
  then show ?thesis using pair_no_nan by (simp add: vectors_ok_def no_nan_scores_def)
qed

lemma pair_first_step:
  "sys_step isort_desc log_low (hnsw_pair, pair_calls)
    (hnsw_pair\<lparr>h_tombstone := [True, False]\<rparr>, pair_calls[2 := Deleted])"
  by (rule sys_step.step) (simp_all add: pair_calls_def pair_delete)

theorem interleaving_invariant_witness:
  "hnsw_sizes (hnsw_pair\<lparr>h_tombstone := [True, False]\<rparr>)
    \<and> sys_reach isort_desc log_low (hnsw_pair, pair_calls)
      (hnsw_pair\<lparr>h_tombstone := [True, False]\<rparr>, pair_calls[2 := Deleted])"
proof -
  note run = sys_reach.step [OF sys_reach.refl pair_first_step]
  from interleaving_invariant [OF isort.whole.desc_sorter_axioms hnsw_pair_wf pair_calls_ok _ _ run]
  show ?thesis using run by (simp add: pair_calls_waiting)
qed

text \<open>Calls whose tables have room for all nodes never fail.\<close>

lemma calls_never_fail:
  assumes "desc_sorter srt" and "hnsw_wf h" and "vectors_ok V h"
    and "\<forall>t\<in>set ts. call_ok True N V logf h t"
    and "h_num_vectors h + size (waiting ts) \<le> N" and "N < 2 ^ 32"
    and "sys_reach srt logf (h, ts) s"
  shows "\<not> sys_fails srt logf s e"
proof -
  have "sys_ok True N V logf (h, ts)" using calls_ok(1) [OF assms(2) _ assms(4-6)] assms(3) by simp
  then show ?thesis using sys_no_failure [OF assms(1)] sys_reach_ok [OF assms(1,7)] by blast
qed

text \<open>C6: Let the vectors of the index and of the calls be proper (long enough, no similarity between
  them that is a not-a-number), and let the table of visited marks of every thread have room for all
  \<open>N\<close> nodes there will be: \<open>N\<close> entries already, or none and \<open>N \<le> 10000\<close>, the margin with which a
  table grows.  Then under every interleaving no call fails: no out-of-range access, no comparison
  of not-a-numbers, no exception.  Every schedule is finite, and it can only stop when all calls
  have returned.  The room is needed: without it the read of \<open>visited_buf[nb]\<close> can leave the table,
  as theory \<open>Hnsw_Table\<close> shows.\<close>

theorem interleaving_safe:
  assumes "desc_sorter srt" and "hnsw_wf h" and "vectors_ok V h"
    and "\<forall>t\<in>set ts. call_ok True N V logf h t"
    and "h_num_vectors h + size (waiting ts) \<le> N" and "N < 2 ^ 32"
  shows "(\<forall>s e. sys_reach srt logf (h, ts) s \<longrightarrow> \<not> sys_fails srt logf s e)
    \<and> (\<forall>h' ts'. sys_reach srt logf (h, ts) (h', ts') \<longrightarrow>
        list_all thread_done ts' \<or> (\<exists>s. sys_step srt logf (h', ts') s))
    \<and> (\<forall>run. run 0 = (h, ts) \<longrightarrow> (\<exists>n. \<not> sys_step srt logf (run n) (run (Suc n))))"
proof (intro conjI allI impI)
  have ths: "threads_ok (h, ts)"
    using calls_ok(2) [OF assms(2) _ assms(4-6)] assms(3) by simp
  show fails: "\<not> sys_fails srt logf s e" if "sys_reach srt logf (h, ts) s" for s e
    by (rule calls_never_fail [OF assms that])
  show "\<exists>n. \<not> sys_step srt logf (run n) (run (Suc n))" if "run 0 = (h, ts)" for run
    using no_infinite_run [of run] ths that by simp
  show "list_all thread_done ts' \<or> (\<exists>s. sys_step srt logf (h', ts') s)"
    if reach: "sys_reach srt logf (h, ts) (h', ts')" for h' ts'
  proof (cases "list_all thread_done ts'")
    case False
    then obtain i where i: "i < length ts'" "\<not> thread_done (ts' ! i)" by (auto simp: list_all_length)
    have "thread_step srt logf (h', ts' ! i) \<noteq> Inl e" for e
      using fails [OF reach, of e] i by (auto simp: sys_fails_def list_ex_length)
    then obtain h2 t where "thread_step srt logf (h', ts' ! i) = Inr (h2, t)"
      by (cases "thread_step srt logf (h', ts' ! i)") auto
    then show ?thesis using sys_step.step [OF i] by blast
  qed simp
qed

theorem interleaving_safe_witness:
  "\<forall>e. \<not> sys_fails isort_desc log_low (hnsw_pair\<lparr>h_tombstone := [True, False]\<rparr>, pair_calls[2 := Deleted]) e"
proof -
  note run = sys_reach.step [OF sys_reach.refl pair_first_step]
  from interleaving_safe [OF isort.whole.desc_sorter_axioms hnsw_pair_wf pair_vectors_ok pair_calls_ok]
  show ?thesis using run by (simp add: pair_calls_waiting)
qed

end
