(* ===== verification/Hnsw_Alone.thy ===== *)
theory Hnsw_Alone
  imports Hnsw_Progress
begin

text \<open>
  A thread that runs without interference computes what \<open>hnsw_insert\<close> and \<open>hnsw_search\<close> compute:
  the operations as functions are the schedules without interleaving.
\<close>

section \<open>What is left to compute\<close>

fun search_rest ::
    "(scored list \<Rightarrow> scored list) \<Rightarrow> 's hnsw \<Rightarrow> f32 list \<Rightarrow> nat \<Rightarrow> int \<Rightarrow> int \<Rightarrow> 's search_pc
      \<Rightarrow> (scored list \<times> 's visit_ctx) res" where
  "search_rest srt h query ep ef layer (S_Tag ctx) = search_layer srt h query ep ef layer ctx"
| "search_rest srt h query ep ef layer (S_Score ctx) =
     bindR (similarity_to h query ep ctx) (\<lambda>(ep_sim, ctx).
     bindR (mark_visited ep ctx) (\<lambda>ctx.
     bindR (search_loop h query ef layer ([(- ep_sim, ep)], [(- ep_sim, ep)], ctx)) (\<lambda>(results, ctx).
     bindR (std_sort srt (map (\<lambda>(neg, i). (- neg, i)) results)) (\<lambda>out. Inr (out, ctx)))))"
| "search_rest srt h query ep ef layer (S_Visit nbs b) =
     bindR (foldR (visit_neighbour h query ef) nbs b) (\<lambda>b.
     bindR (search_loop h query ef layer b) (\<lambda>(results, ctx).
     bindR (std_sort srt (map (\<lambda>(neg, i). (- neg, i)) results)) (\<lambda>out. Inr (out, ctx))))"
| "search_rest srt h query ep ef layer (S_Found out ctx) = Inr (out, ctx)"

lemma bindR_case_prod: "bindR (case p of (x, y) \<Rightarrow> f x y) g = (case p of (x, y) \<Rightarrow> bindR (f x y) g)"
  by (cases p) simp

lemma search_rest_step:
  "bindR (search_step srt h query ep ef layer spc) (search_rest srt h query ep ef layer)
    = search_rest srt h query ep ef layer spc"
proof (cases spc)
  case (S_Visit nbs b)
  show ?thesis
  proof (cases nbs)
    case (Cons nb nbs')
    then show ?thesis by (simp add: S_Visit bindR_assoc)
  next
    case Nil
    obtain cands results ctx where b: "b = (cands, results, ctx)" by (cases b)
    show ?thesis
    proof (cases cands)
      case Nil
      then show ?thesis
        by (simp add: S_Visit \<open>nbs = []\<close> b search_loop.simps [of h query ef layer "([], results, ctx)"]
            search_finish_def bindR_assoc)
    next
      case (Cons p rest)
      obtain neg c where p: "p = (neg, c)" by (cases p)
      show ?thesis
        by (simp add: S_Visit \<open>nbs = []\<close> b Cons p search_loop.simps [of h query ef layer "((neg, c) # rest, results, ctx)"]
            search_finish_def bindR_assoc)
    qed
  qed
qed (simp_all add: search_layer_def Let_def bindR_assoc bindR_case_prod)

lemma search_rest_then:
  "bindR (search_step srt h query ep ef layer spc) (\<lambda>spc. bindR (search_rest srt h query ep ef layer spc) f)
    = bindR (search_rest srt h query ep ef layer spc) f"
  by (simp only: search_rest_step flip: bindR_assoc)

definition final_insert :: "nat \<Rightarrow> int \<Rightarrow> 's hnsw \<times> nat \<times> 's visit_ctx \<Rightarrow> ('s hnsw \<times> 's visit_ctx) res" where
  "final_insert q level = (\<lambda>(h, ep, ctx).
     Inr (if h_max_layer h < level then h\<lparr>h_max_layer := level, h_entry_point := q\<rparr> else h, ctx))"

text \<open>The layers from \<open>lc\<close> down, then the end.\<close>

definition layers_rest ::
    "(scored list \<Rightarrow> scored list) \<Rightarrow> f32 list \<Rightarrow> nat \<Rightarrow> int \<Rightarrow> int \<Rightarrow> 's hnsw \<Rightarrow> nat \<Rightarrow> 's visit_ctx
      \<Rightarrow> ('s hnsw \<times> 's visit_ctx) res" where
  "layers_rest srt vec q level lc h ep ctx =
     bindR (foldR (descend srt h vec) (rev [level + 1..lc]) (ep, ctx)) (\<lambda>(ep, ctx).
     bindR (foldR (connect_layer srt vec q) (rev [0..min level lc]) (h, ep, ctx)) (final_insert q level))"

definition back_rest ::
    "(scored list \<Rightarrow> scored list) \<Rightarrow> f32 list \<Rightarrow> nat \<Rightarrow> int \<Rightarrow> int \<Rightarrow> 's hnsw \<Rightarrow> nat \<Rightarrow> nat list
      \<Rightarrow> 's visit_ctx \<Rightarrow> ('s hnsw \<times> 's visit_ctx) res" where
  "back_rest srt vec q level lc h ep nbs ctx =
     bindR (foldR (link_back srt q lc) nbs (h, ctx)) (\<lambda>(h, ctx).
     layers_rest srt vec q level (lc - 1) h ep ctx)"

fun insert_rest ::
    "(scored list \<Rightarrow> scored list) \<Rightarrow> (f32 \<Rightarrow> f32) \<Rightarrow> insert_req \<Rightarrow> 's hnsw \<times> 's insert_pc
      \<Rightarrow> ('s hnsw \<times> 's visit_ctx) res" where
  "insert_rest srt logf rq (h, I_Start ctx) =
     hnsw_insert srt logf (rq_draw rq) (rq_id rq) (rq_vec rq) (rq_meta rq) (h, ctx)"
| "insert_rest srt logf rq (h, I_Entry q level ctx) =
     layers_rest srt (rq_vec rq) q level (h_max_layer h) h (h_entry_point h) ctx"
| "insert_rest srt logf rq (h, I_Descend q level lc ep spc) =
     bindR (search_rest srt h (rq_vec rq) ep 1 lc spc) (\<lambda>(out, ctx).
     layers_rest srt (rq_vec rq) q level (lc - 1) h (next_ep ep out) ctx)"
| "insert_rest srt logf rq (h, I_Connect q level lc ep spc) =
     bindR (search_rest srt h (rq_vec rq) ep (max (cfg_ef_construction (h_cfg h)) (cfg_M (h_cfg h))) lc spc)
       (\<lambda>(out, ctx).
     bindR (select_neighbours srt out (cfg_M (h_cfg h))) (\<lambda>nbs.
     bindR (set_links q lc nbs h) (\<lambda>h.
     back_rest srt (rq_vec rq) q level lc h (next_ep ep out) nbs ctx)))"
| "insert_rest srt logf rq (h, I_Back q level lc ep nbs ctx) =
     back_rest srt (rq_vec rq) q level lc h ep nbs ctx"
| "insert_rest srt logf rq (h, I_Final q level ctx) = final_insert q level (h, 0, ctx)"
| "insert_rest srt logf rq (h, I_Done ctx) = Inr (h, ctx)"

lemma rev_upto_downto: "a \<le> b \<Longrightarrow> rev [a..b] = b # rev [a..b - (1::int)]"
  by (simp add: upto_rec2)

lemma enter_layer_rest:
  "insert_rest srt logf rq (h, enter_layer q level lc ep ctx) = layers_rest srt (rq_vec rq) q level lc h ep ctx"
proof -
  consider "level < lc" | "lc \<le> level" "0 \<le> lc" | "lc \<le> level" "lc < 0" by linarith
  then show ?thesis
  proof cases
    case 1
    then have "rev [level + 1..lc] = lc # rev [level + 1..lc - 1]" "min level lc = level" "min level (lc - 1) = level"
      by (simp_all add: rev_upto_downto)
    then show ?thesis
      using 1 by (simp add: enter_layer_def layers_rest_def [abs_def] descend_def next_ep_def bindR_assoc bindR_case_prod)
  next
    case 2
    then have "rev [0..min level lc] = lc # rev [0..lc - 1]" "min level (lc - 1) = lc - 1"
      by (simp_all add: rev_upto_downto)
    then show ?thesis
      using 2 by (simp add: enter_layer_def layers_rest_def back_rest_def connect_layer_def next_ep_def Let_def
          bindR_assoc bindR_case_prod)
  next
    case 3
    then show ?thesis by (simp add: enter_layer_def layers_rest_def final_insert_def)
  qed
qed

lemma insert_rest_step:
  "bindR (insert_step srt logf rq (h, pc)) (insert_rest srt logf rq) = insert_rest srt logf rq (h, pc)"
proof (cases pc)
  case (I_Start ctx)
  then show ?thesis
    by (auto simp: hnsw_insert_def Let_def bindR_assoc layers_rest_def final_insert_def split_beta
        intro!: bindR_cong)
next
  case (I_Entry q level ctx)
  then show ?thesis by (simp add: enter_layer_rest)
next
  case (I_Descend q level lc ep spc)
  then show ?thesis
    by (cases spc) (simp_all add: enter_layer_rest bindR_assoc search_rest_then del: search_step.simps search_rest.simps(1-3))
next
  case (I_Connect q level lc ep spc)
  then show ?thesis
    by (cases spc) (simp_all add: Let_def bindR_assoc search_rest_then del: search_step.simps search_rest.simps(1-3))
next
  case (I_Back q level lc ep nbs ctx)
  then show ?thesis
    by (cases nbs) (simp_all add: enter_layer_rest back_rest_def bindR_assoc split_beta)
next
  case (I_Final q level ctx)
  then show ?thesis by (simp add: final_insert_def)
next
  case (I_Done ctx)
  then show ?thesis by simp
qed

text \<open>A query from layer \<open>lc\<close> down.\<close>

definition query_layers ::
    "(scored list \<Rightarrow> scored list) \<Rightarrow> f32 list \<Rightarrow> int \<Rightarrow> 's hnsw \<Rightarrow> int \<Rightarrow> nat \<Rightarrow> 's visit_ctx
      \<Rightarrow> ('s hnsw \<times> (f32 \<times> 64 word) list \<times> 's visit_ctx) res" where
  "query_layers srt query k h lc ep ctx =
     bindR (foldR (descend srt h query) (rev [1..lc]) (ep, ctx)) (\<lambda>(ep, ctx).
     bindR (search_layer srt h query ep (cfg_ef_search (h_cfg h)) 0 ctx) (\<lambda>(candidates, ctx).
     bindR (collect_live h k candidates []) (\<lambda>res. Inr (h, res, ctx))))"

fun query_rest ::
    "(scored list \<Rightarrow> scored list) \<Rightarrow> f32 list \<Rightarrow> int \<Rightarrow> 's hnsw \<times> 's query_pc
      \<Rightarrow> ('s hnsw \<times> (f32 \<times> 64 word) list \<times> 's visit_ctx) res" where
  "query_rest srt query k (h, Q_Start ctx) =
     bindR (hnsw_search srt h query k ctx) (\<lambda>(res, ctx). Inr (h, res, ctx))"
| "query_rest srt query k (h, Q_Entry nv ctx) =
     bindR (search_entry_of h nv) (\<lambda>entry.
     case entry of
       None \<Rightarrow> Inr (h, [], ctx)
     | Some ep \<Rightarrow> query_layers srt query k h (h_max_layer h) ep ctx)"
| "query_rest srt query k (h, Q_Layer lc ep spc) =
     bindR (search_rest srt h query ep (if 0 < lc then 1 else cfg_ef_search (h_cfg h)) lc spc) (\<lambda>(out, ctx).
     if 0 < lc then query_layers srt query k h (lc - 1) (next_ep ep out) ctx
     else bindR (collect_live h k out []) (\<lambda>res. Inr (h, res, ctx)))"
| "query_rest srt query k (h, Q_Done res ctx) = Inr (h, res, ctx)"

lemma query_layers_rest:
  "query_rest srt query k (h, Q_Layer (max 0 lc) ep (S_Tag ctx)) = query_layers srt query k h lc ep ctx"
proof (cases "0 < lc")
  case True
  then have "rev [1..lc] = lc # rev [1..lc - 1]" by (simp add: rev_upto_downto)
  then show ?thesis
    using True by (simp add: query_layers_def [abs_def] descend_def next_ep_def bindR_assoc bindR_case_prod)
qed (simp add: query_layers_def)

lemma query_rest_step:
  "bindR (query_step srt query k h pc) (\<lambda>pc. query_rest srt query k (h, pc)) = query_rest srt query k (h, pc)"
proof (cases pc)
  case (Q_Start ctx)
  then show ?thesis
    by (auto simp: hnsw_search_def search_entry_of_def search_entry_def query_layers_def bindR_assoc
        bindR_case_prod split: option.split intro!: bindR_cong)
next
  case (Q_Entry nv ctx)
  then show ?thesis
    by (auto simp: bindR_assoc query_layers_rest simp del: query_rest.simps(3) split: option.split intro!: bindR_cong)
next
  case (Q_Layer lc ep spc)
  show ?thesis
  proof (cases "\<exists>out ctx. spc = S_Found out ctx")
    case True
    then show ?thesis
      using query_layers_rest [of srt query k h "lc - 1"]
      by (auto simp: Q_Layer bindR_assoc simp del: query_rest.simps(3))
        (auto simp: max_def)
  next
    case False
    then show ?thesis
      by (cases spc) (simp_all add: Q_Layer bindR_assoc search_rest_then del: search_step.simps search_rest.simps(1-3))
  qed
qed simp

section \<open>A system of one thread\<close>

text \<open>A thread whose steps keep the value of \<open>rest\<close>, what is left to compute.\<close>

locale lone_thread =
  fixes srt :: "scored list \<Rightarrow> scored list" and logf :: "f32 \<Rightarrow> f32" and mk :: "'p \<Rightarrow> 's thread"
    and stp :: "'s hnsw \<times> 'p \<Rightarrow> ('s hnsw \<times> 'p) res" and rest :: "'s hnsw \<times> 'p \<Rightarrow> 'a res"
  assumes thread: "thread_step srt logf (h, mk pc) = bindR (stp (h, pc)) (\<lambda>(h, pc). Inr (h, mk pc))"
    and rest_step: "\<not> thread_done (mk pc) \<Longrightarrow> bindR (stp (h, pc)) rest = rest (h, pc)"
    and inj: "mk pc = mk pc' \<Longrightarrow> pc = pc'"
    and rest_done: "thread_done (mk pc) \<Longrightarrow> \<exists>x. rest (h, pc) = Inr x"
begin

lemma one_step:
  assumes "sys_step srt logf (h, [mk pc]) s"
  obtains h' pc' where "s = (h', [mk pc'])" and "stp (h, pc) = Inr (h', pc')" and "\<not> thread_done (mk pc)"
  using assms by (elim sys_stepE) (auto simp: thread bindR_Inr_iff)

lemma reach_rest:
  assumes "sys_reach srt logf (h, [mk pc]) s"
  shows "\<exists>h' pc'. s = (h', [mk pc']) \<and> rest (h', pc') = rest (h, pc)"
  using assms
proof induction
  case (step s1 s2)
  then obtain h1 pc1 where s1: "s1 = (h1, [mk pc1])" "rest (h1, pc1) = rest (h, pc)" by blast
  obtain h2 pc2 where s2: "s2 = (h2, [mk pc2])" "stp (h1, pc1) = Inr (h2, pc2)" "\<not> thread_done (mk pc1)"
    using step.hyps(2) unfolding s1(1) by (rule one_step)
  then have "rest (h2, pc2) = rest (h, pc)" using rest_step [of pc1 h1] s1(2) by simp
  then show ?case using s2(1) by blast
qed blast

lemma reach_same:
  assumes "sys_reach srt logf (h, [mk pc]) (h', [mk pc'])"
  shows "rest (h', pc') = rest (h, pc)"
proof -
  obtain pc2 where "mk pc' = mk pc2" "rest (h', pc2) = rest (h, pc)" using reach_rest [OF assms] by auto
  then show ?thesis using inj [of pc' pc2] by simp
qed

lemma runs_to_end:
  assumes "thread_pc_ok (mk pc)"
  shows "\<exists>h' pc'. sys_reach srt logf (h, [mk pc]) (h', [mk pc'])
    \<and> (thread_done (mk pc') \<or> (\<exists>e. stp (h', pc') = Inl e))"
proof -
  have "thread_pc_ok (mk pc) \<Longrightarrow> sys_reach srt logf s (h, [mk pc]) \<Longrightarrow> \<exists>h' pc'. sys_reach srt logf s (h', [mk pc'])
    \<and> (thread_done (mk pc') \<or> (\<exists>e. stp (h', pc') = Inl e))" for s
  proof (induction "thread_rank (mk pc)" arbitrary: h pc rule: wf_induct_rule [OF wf_rank_less])
    case 1
    show ?case
    proof (cases "thread_done (mk pc) \<or> (\<exists>e. stp (h, pc) = Inl e)")
      case True
      then show ?thesis using 1(3) by blast
    next
      case False
      then obtain h' pc' where step: "stp (h, pc) = Inr (h', pc')" by (cases "stp (h, pc)") auto
      then have run: "thread_step srt logf (h, mk pc) = Inr (h', mk pc')" by (simp add: thread)
      then have "sys_step srt logf (h, [mk pc]) (h', [mk pc'])"
        using sys_step.step [of 0 "[mk pc]" srt logf h h' "mk pc'"] False by simp
      then show ?thesis
        using 1 thread_step_rank [OF run 1(2)] False sys_reach.step by blast
    qed
  qed
  then show ?thesis using assms sys_reach.refl by blast
qed

lemma alone_returns:
  assumes "thread_pc_ok (mk pc)"
  shows "rest (h, pc) = Inr x \<longleftrightarrow>
    (\<exists>h' pc'. sys_reach srt logf (h, [mk pc]) (h', [mk pc']) \<and> thread_done (mk pc') \<and> rest (h', pc') = Inr x)"
proof
  assume x: "rest (h, pc) = Inr x"
  obtain h' pc' where r: "sys_reach srt logf (h, [mk pc]) (h', [mk pc'])"
    and fin: "thread_done (mk pc') \<or> (\<exists>e. stp (h', pc') = Inl e)"
    using runs_to_end [OF assms] by blast
  have pc': "rest (h', pc') = Inr x" using reach_same [OF r] x by simp
  have "thread_done (mk pc')" by (rule ccontr) (use fin rest_step [of pc' h'] pc' in auto)
  then show "\<exists>h' pc'. sys_reach srt logf (h, [mk pc]) (h', [mk pc']) \<and> thread_done (mk pc') \<and> rest (h', pc') = Inr x"
    using r pc' by auto
next
  assume "\<exists>h' pc'. sys_reach srt logf (h, [mk pc]) (h', [mk pc']) \<and> thread_done (mk pc') \<and> rest (h', pc') = Inr x"
  then obtain h' pc' where r: "sys_reach srt logf (h, [mk pc]) (h', [mk pc'])" and d: "thread_done (mk pc')"
    and x: "rest (h', pc') = Inr x" by blast
  show "rest (h, pc) = Inr x" using reach_same [OF r] x by simp
qed

lemma alone_fails:
  assumes "thread_pc_ok (mk pc)"
  shows "rest (h, pc) = Inl e \<longleftrightarrow> (\<exists>s. sys_reach srt logf (h, [mk pc]) s \<and> sys_fails srt logf s e)"
proof
  assume e: "rest (h, pc) = Inl e"
  obtain h' pc' where r: "sys_reach srt logf (h, [mk pc]) (h', [mk pc'])"
    and fin: "thread_done (mk pc') \<or> (\<exists>e. stp (h', pc') = Inl e)"
    using runs_to_end [OF assms] by blast
  have pc': "rest (h', pc') = Inl e" using reach_same [OF r] e by simp
  then have nd: "\<not> thread_done (mk pc')" using rest_done [of pc' h'] by auto
  then have "stp (h', pc') = Inl e" using fin rest_step [of pc' h'] pc' by auto
  then have "sys_fails srt logf (h', [mk pc']) e" using nd by (simp add: sys_fails_def thread)
  then show "\<exists>s. sys_reach srt logf (h, [mk pc]) s \<and> sys_fails srt logf s e" using r by blast
next
  assume "\<exists>s. sys_reach srt logf (h, [mk pc]) s \<and> sys_fails srt logf s e"
  then obtain s where r: "sys_reach srt logf (h, [mk pc]) s" and f: "sys_fails srt logf s e" by blast
  obtain h' pc' where s: "s = (h', [mk pc'])" "rest (h', pc') = rest (h, pc)" using reach_rest [OF r] by blast
  have nd: "\<not> thread_done (mk pc')" and "thread_step srt logf (h', mk pc') = Inl e"
    using f by (simp_all add: s sys_fails_def)
  then have "stp (h', pc') = Inl e" by (cases "stp (h', pc')") (auto simp: thread)
  then show "rest (h, pc) = Inl e" using rest_step [OF nd, of h'] s(2) by simp
qed

end

interpretation lone_insert: lone_thread srt logf "Inserting rq" "insert_step srt logf rq" "insert_rest srt logf rq"
  for srt logf rq
proof
  show "thread_step srt logf (h, Inserting rq pc)
      = bindR (insert_step srt logf rq (h, pc)) (\<lambda>(h, pc). Inr (h, Inserting rq pc))" for h pc
    by simp
  show "bindR (insert_step srt logf rq (h, pc)) (insert_rest srt logf rq) = insert_rest srt logf rq (h, pc)" for h pc
    by (rule insert_rest_step)
  show "\<exists>x. insert_rest srt logf rq (h, pc) = Inr x" if "thread_done (Inserting rq pc)" for h pc
    using that by (cases pc) auto
qed simp

interpretation lone_query: lone_thread srt logf "Searching query k"
    "\<lambda>(h, pc). bindR (query_step srt query k h pc) (\<lambda>pc. Inr (h, pc))" "query_rest srt query k"
  for srt logf query k
proof
  show "thread_step srt logf (h, Searching query k pc)
      = bindR (case (h, pc) of (h, pc) \<Rightarrow> bindR (query_step srt query k h pc) (\<lambda>pc. Inr (h, pc)))
          (\<lambda>(h, pc). Inr (h, Searching query k pc))" for h pc
    by (simp add: bindR_assoc)
  show "bindR (case (h, pc) of (h, pc) \<Rightarrow> bindR (query_step srt query k h pc) (\<lambda>pc. Inr (h, pc)))
      (query_rest srt query k) = query_rest srt query k (h, pc)" for h pc
    using query_rest_step [of srt query k h pc] by (simp add: bindR_assoc)
  show "\<exists>x. query_rest srt query k (h, pc) = Inr x" if "thread_done (Searching query k pc)" for h pc
    using that by (cases pc) auto
qed simp

section \<open>Properties\<close>

text \<open>Without interference the lock sections of an insertion add up to the function
  \<open>hnsw_insert\<close>, and those of a search to \<open>hnsw_search\<close>: a thread alone ends exactly in the state
  and with the result the function gives, and fails exactly with the function's error.\<close>

theorem thread_alone:
  "(sys_reach srt logf (h, [Inserting rq (I_Start ctx)]) (h', [Inserting rq (I_Done ctx')]) \<longleftrightarrow>
      hnsw_insert srt logf (rq_draw rq) (rq_id rq) (rq_vec rq) (rq_meta rq) (h, ctx) = Inr (h', ctx'))
   \<and> ((\<exists>s. sys_reach srt logf (h, [Inserting rq (I_Start ctx)]) s \<and> sys_fails srt logf s e) \<longleftrightarrow>
      hnsw_insert srt logf (rq_draw rq) (rq_id rq) (rq_vec rq) (rq_meta rq) (h, ctx) = Inl e)
   \<and> (sys_reach srt logf (h, [Searching query k (Q_Start ctx)]) (h, [Searching query k (Q_Done rs ctx')]) \<longleftrightarrow>
      hnsw_search srt h query k ctx = Inr (rs, ctx'))
   \<and> ((\<exists>s. sys_reach srt logf (h, [Searching query k (Q_Start ctx)]) s \<and> sys_fails srt logf s e) \<longleftrightarrow>
      hnsw_search srt h query k ctx = Inl e)"
proof (intro conjI)
  have "thread_done (Inserting rq pc) \<and> insert_rest srt logf rq (h2, pc) = Inr (h', ctx')
      \<longleftrightarrow> h2 = h' \<and> pc = I_Done ctx'" for h2 pc
    by (cases pc) auto
  then show "sys_reach srt logf (h, [Inserting rq (I_Start ctx)]) (h', [Inserting rq (I_Done ctx')]) \<longleftrightarrow>
      hnsw_insert srt logf (rq_draw rq) (rq_id rq) (rq_vec rq) (rq_meta rq) (h, ctx) = Inr (h', ctx')"
    using lone_insert.alone_returns [of rq "I_Start ctx" srt logf h "(h', ctx')"] by simp
  have "thread_done (Searching query k pc) \<and> query_rest srt query k (h2, pc) = Inr (h, rs, ctx')
      \<longleftrightarrow> h2 = h \<and> pc = Q_Done rs ctx'" for h2 pc
    by (cases pc) auto
  then show "sys_reach srt logf (h, [Searching query k (Q_Start ctx)]) (h, [Searching query k (Q_Done rs ctx')]) \<longleftrightarrow>
      hnsw_search srt h query k ctx = Inr (rs, ctx')"
    using lone_query.alone_returns [of query k "Q_Start ctx" srt h "(h, rs, ctx')" logf]
    by (auto simp: bindR_Inr_iff split_beta)
  show "(\<exists>s. sys_reach srt logf (h, [Inserting rq (I_Start ctx)]) s \<and> sys_fails srt logf s e) \<longleftrightarrow>
      hnsw_insert srt logf (rq_draw rq) (rq_id rq) (rq_vec rq) (rq_meta rq) (h, ctx) = Inl e"
    using lone_insert.alone_fails [of rq "I_Start ctx" srt logf h e] by simp
  show "(\<exists>s. sys_reach srt logf (h, [Searching query k (Q_Start ctx)]) s \<and> sys_fails srt logf s e) \<longleftrightarrow>
      hnsw_search srt h query k ctx = Inl e"
    using lone_query.alone_fails [of query k "Q_Start ctx" srt h e logf]
    by (cases "hnsw_search srt h query k ctx") (auto simp: split_beta)
qed

end
