(* ===== verification/Hnsw_Race.thy ===== *)
theory Hnsw_Race
  imports Hnsw_Alone
begin

text \<open>
  A schedule of two insertions after which one of the vectors cannot be found: the store
  \<open>graph_[q][lc] = neighbours\<close> drops the links that other threads have put there since the node
  became reachable on the layer above.
\<close>

section \<open>Running a schedule\<close>

fun run_schedule ::
    "(scored list \<Rightarrow> scored list) \<Rightarrow> (f32 \<Rightarrow> f32) \<Rightarrow> nat list \<Rightarrow> 's system \<Rightarrow> 's system res" where
  "run_schedule srt logf [] s = Inr s"
| "run_schedule srt logf (i # is) s =
     (if i < length (snd s) \<and> \<not> thread_done (snd s ! i)
      then bindR (thread_step srt logf (fst s, snd s ! i)) (\<lambda>(h, t).
        run_schedule srt logf is (h, (snd s)[i := t]))
      else Inl (Invalid_Argument ''schedule''))"

lemma run_schedule_reach:
  "run_schedule srt logf is s1 = Inr s2 \<Longrightarrow> sys_reach srt logf s s1 \<Longrightarrow> sys_reach srt logf s s2"
proof (induction srt logf "is" s1 rule: run_schedule.induct)
  case (2 srt logf i "is" s1)
  then obtain h t where run: "thread_step srt logf (fst s1, snd s1 ! i) = Inr (h, t)"
    and i: "i < length (snd s1)" "\<not> thread_done (snd s1 ! i)"
    and rest: "run_schedule srt logf is (h, (snd s1)[i := t]) = Inr s2"
    by (auto simp: bindR_Inr_iff split: if_splits)
  have "sys_step srt logf s1 (h, (snd s1)[i := t])"
    using sys_step.step [OF i run] by simp
  then have "sys_reach srt logf s (h, (snd s1)[i := t])" using 2(3) by (rule sys_reach.step [rotated])
  then show ?case using "2.IH" i run rest by auto
qed simp

section \<open>The schedule\<close>

definition log_race :: "f32 \<Rightarrow> f32" where
  "log_race x = (if x = F32 0x3E800000 then - f32_one else F32 0xBE800000)"

text \<open>The index with \<open>n\<close> of three vectors and the links \<open>g\<close>; the first has the layers 0 and 1.\<close>

definition race_index :: "nat \<Rightarrow> nat list list list \<Rightarrow> unit hnsw" where
  "race_index n g =
     \<lparr>h_dim = 1, h_cfg = \<lparr>cfg_M = 2, cfg_ef_construction = 2, cfg_ef_search = 4\<rparr>,
      h_mL = F32 0x3FB8AA3B, h_num_vectors = n, h_max_layer = 1, h_entry_point = 0, h_graph = g,
      h_raw_vectors = take n [- f32_one, f32_one, f32_one], h_id_map = take n [7, 8, 9],
      h_metadata = take n [''a'', ''b'', ''c''], h_tombstone = replicate n False, h_vec_accessor = None\<rparr>"

definition race_a :: insert_req where
  "race_a = \<lparr>rq_draw = F32 0x3E800000, rq_id = 8, rq_vec = [f32_one], rq_meta = ''b''\<rparr>"

definition race_b :: insert_req where
  "race_b = \<lparr>rq_draw = F32 0x3F000000, rq_id = 9, rq_vec = [f32_one], rq_meta = ''c''\<rparr>"

lemma race_req [simp]:
  "rq_draw race_a = F32 0x3E800000" "rq_id race_a = 8" "rq_vec race_a = [f32_one]" "rq_meta race_a = ''b''"
  "rq_draw race_b = F32 0x3F000000" "rq_id race_b = 9" "rq_vec race_b = [f32_one]" "rq_meta race_b = ''c''"
  by (simp_all add: race_a_def race_b_def)

lemma race_levels:
  "random_layer log_race (F32 0x3E800000) (F32 0x3FB8AA3B) = Inr 1"
  "random_layer log_race (F32 0x3F000000) (F32 0x3FB8AA3B) = Inr 0"
  by code_simp+

lemma one_compare: "\<not> f32_one < - f32_one" "\<not> f32_one < f32_one" "\<not> - f32_one < - f32_one" "- (- f32_one) = f32_one"
  by (unfold f32_one_def) (code_simp+)

lemma cosine_first:
  "cosine_similarity_avx2 a (y # y' # ys) (Suc 0) = cosine_similarity_avx2 a [y] (Suc 0)"
  "cosine_similarity_avx2 (y # y' # ys) b (Suc 0) = cosine_similarity_avx2 [y] b (Suc 0)"
  using cosine_similarity_take [of "Suc 0" "y # y' # ys"]
  by (simp_all add: cosine_similarity_avx2_sym [of _ b] cosine_similarity_avx2_sym [of "y # y' # ys" b])

lemma two_mod: "Suc (Suc 0) mod Suc (Suc 0) ^ 32 = Suc (Suc 0)"
proof -
  have "(2::nat) mod 2 ^ 32 = 2" by simp
  then show ?thesis by (simp only: numeral_2_eq_2)
qed

text \<open>What evaluates the steps of the example.\<close>

lemmas race_simps = Let_def begin_visit_def ctx_new_def similarity_to_def get_vec_def
  cosine_one_one cosine_one_minus cosine_minus_one cosine_minus_minus unit_similarities(10-13) cosine_first
  f32_one_facts one_compare is_visited_def mark_visited_def visit_neighbour_def pq_push_def keys_ok_def
  min_first_def max_first_def pair_less_def search_finish_def std_sort_def worst_of_def layer_links_def
  nth_r_def upd_r_def slice_r_def guardR_def enter_layer_def next_ep_def select_neighbours_def set_links_def
  link_back_def max_links_def int_r_def resize_def new_slot_def race_levels search_entry_of_def
  numeral_2_eq_2 numeral_3_eq_3 two_mod race_index_def

text \<open>
  The first insertion connects its node on layer 1 and stops before layer 0.  The second comes down
  to that node and links to it, and only to it, on layer 0.  Then the first goes on.
\<close>

lemma race_first:
  "run_schedule isort_desc log_race [0, 0, 0, 0, 0, 0, 0, 0, 0]
     (race_index 1 [[[], []]], [Inserting race_a (I_Start ctx_new), t])
   = Inr (race_index 2 [[[], [1]], [[], [0]]],
       [Inserting race_a (I_Connect 1 1 0 0 (S_Tag (ctx_new\<lparr>vis_size := 10002, vis_at := (\<lambda>i. 0)(0 := 1), vis_tag := 1\<rparr>))), t])"
  by (simp add: race_simps)

lemma race_second:
  "run_schedule isort_desc log_race [1, 1, 1, 1, 1, 1, 1, 1, 1, 1, 1, 1, 1, 1, 1, 1, 1, 1]
     (race_index 2 [[[], [1]], [[], [0]]], [t, Inserting race_b (I_Start ctx_new)])
   = Inr (race_index 3 [[[], [1]], [[2], [0]], [[1]]],
       [t, Inserting race_b (I_Done (ctx_new\<lparr>vis_size := 10003, vis_at := (\<lambda>i. 0)(0 := 1, 1 := 2), vis_tag := 2\<rparr>))])"
  by (simp add: race_simps)

lemma race_third:
  "run_schedule isort_desc log_race [0, 0, 0, 0, 0, 0, 0, 0]
     (race_index 3 [[[], [1]], [[2], [0]], [[1]]],
      [Inserting race_a (I_Connect 1 1 0 0 (S_Tag (ctx_new\<lparr>vis_size := 10002, vis_at := (\<lambda>i. 0)(0 := 1), vis_tag := 1\<rparr>))), t])
   = Inr (race_index 3 [[[1], [1]], [[0], [0]], [[1]]],
       [Inserting race_a (I_Done (ctx_new\<lparr>vis_size := 10002, vis_at := (\<lambda>i. 0)(0 := 2), vis_tag := 2\<rparr>)), t])"
  by (simp add: race_simps)

text \<open>Searches and insertions that run alone.\<close>

lemma search_by_schedule:
  assumes "run_schedule srt logf is (h, [Searching query k (Q_Start ctx)]) = Inr (h', [Searching query k (Q_Done rs ctx')])"
  shows "hnsw_search srt h query k ctx = Inr (rs, ctx')"
proof -
  have "sys_reach srt logf (h, [Searching query k (Q_Start ctx)]) (h', [Searching query k (Q_Done rs ctx')])"
    using run_schedule_reach [OF assms sys_reach.refl] .
  from lone_query.reach_same [OF this, symmetric] show ?thesis by (auto simp: bindR_Inr_iff split_beta)
qed

lemma insert_by_schedule:
  assumes "run_schedule srt logf is (h, [Inserting rq (I_Start ctx)]) = Inr (h', [Inserting rq (I_Done ctx')])"
  shows "hnsw_insert srt logf (rq_draw rq) (rq_id rq) (rq_vec rq) (rq_meta rq) (h, ctx) = Inr (h', ctx')"
proof -
  have "sys_reach srt logf (h, [Inserting rq (I_Start ctx)]) (h', [Inserting rq (I_Done ctx')])"
    using run_schedule_reach [OF assms sys_reach.refl] .
  from lone_insert.reach_same [OF this] show ?thesis by simp
qed

lemma race_search:
  "run_schedule isort_desc log_race [0, 0, 0, 0, 0, 0, 0, 0, 0, 0, 0, 0, 0, 0, 0, 0, 0, 0]
     (race_index 3 [[[1], [1]], [[0], [0]], [[1]]], [Searching [f32_one] 3 (Q_Start ctx_new)])
   = Inr (race_index 3 [[[1], [1]], [[0], [0]], [[1]]],
       [Searching [f32_one] 3 (Q_Done [(f32_one, 8), (- f32_one, 7)]
         (ctx_new\<lparr>vis_size := 10003, vis_at := (\<lambda>i. 0)(1 := 2, 0 := 2), vis_tag := 2\<rparr>))])"
  by (simp add: race_simps)

lemma alone_first:
  "run_schedule isort_desc log_race [0, 0, 0, 0, 0, 0, 0, 0, 0, 0, 0, 0, 0, 0, 0, 0, 0]
     (race_index 1 [[[], []]], [Inserting race_a (I_Start ctx_new)])
   = Inr (race_index 2 [[[1], [1]], [[0], [0]]],
       [Inserting race_a (I_Done (ctx_new\<lparr>vis_size := 10002, vis_at := (\<lambda>i. 0)(0 := 2), vis_tag := 2\<rparr>))])"
  by (simp add: race_simps)

lemma alone_second:
  "run_schedule isort_desc log_race [0, 0, 0, 0, 0, 0, 0, 0, 0, 0, 0, 0, 0, 0, 0, 0, 0, 0, 0, 0, 0, 0]
     (race_index 2 [[[1], [1]], [[0], [0]]], [Inserting race_b (I_Start ctx_new)])
   = Inr (race_index 3 [[[1, 2], [1]], [[0, 2], [0]], [[1, 0]]],
       [Inserting race_b (I_Done (ctx_new\<lparr>vis_size := 10003, vis_at := (\<lambda>i. 0)(1 := 2, 0 := 2), vis_tag := 2\<rparr>))])"
  by (simp add: race_simps)

lemma alone_search:
  "run_schedule isort_desc log_race [0, 0, 0, 0, 0, 0, 0, 0, 0, 0, 0, 0, 0, 0, 0, 0, 0, 0, 0, 0, 0, 0, 0]
     (race_index 3 [[[1, 2], [1]], [[0, 2], [0]], [[1, 0]]], [Searching [f32_one] 3 (Q_Start ctx_new)])
   = Inr (race_index 3 [[[1, 2], [1]], [[0, 2], [0]], [[1, 0]]],
       [Searching [f32_one] 3 (Q_Done [(f32_one, 8), (f32_one, 9), (- f32_one, 7)]
         (ctx_new\<lparr>vis_size := 10003, vis_at := (\<lambda>i. 0)(1 := 2, 0 := 2, 2 := 2), vis_tag := 2\<rparr>))])"
  by (simp add: race_simps)

lemma run_schedule_append:
  "run_schedule srt logf (is @ js) s = bindR (run_schedule srt logf is s) (run_schedule srt logf js)"
  by (induction srt logf "is" s rule: run_schedule.induct) (auto simp: bindR_assoc split_beta intro!: bindR_cong)

section \<open>Properties\<close>

text \<open>C7: Two concurrent insertions can lose a vector: there is an interleaving after which both
  calls have returned, all three vectors are stored and live, and a search with \<open>k = 3\<close> and the
  vector itself as query does not find it.  The same insertions one after the other give an index
  in which the same search finds all three.\<close>

theorem concurrent_insert_lost:
  "hnsw_wf (race_index 1 [[[], []]])
   \<and> (\<exists>h' ta tb ctx'.
      sys_reach isort_desc log_race
        (race_index 1 [[[], []]], [Inserting race_a (I_Start ctx_new), Inserting race_b (I_Start ctx_new)])
        (h', [Inserting race_a (I_Done ta), Inserting race_b (I_Done tb)])
      \<and> h_id_map h' = [7, 8, 9] \<and> h_tombstone h' = [False, False, False] \<and> own_vector h' 2 = [f32_one]
      \<and> hnsw_search isort_desc h' [f32_one] 3 ctx_new = Inr ([(f32_one, 8), (- f32_one, 7)], ctx'))
   \<and> (\<exists>h1 c1 h2 c2 ctx'.
      hnsw_insert isort_desc log_race (F32 0x3E800000) 8 [f32_one] ''b'' (race_index 1 [[[], []]], ctx_new) = Inr (h1, c1)
      \<and> hnsw_insert isort_desc log_race (F32 0x3F000000) 9 [f32_one] ''c'' (h1, ctx_new) = Inr (h2, c2)
      \<and> hnsw_search isort_desc h2 [f32_one] 3 ctx_new
        = Inr ([(f32_one, 8), (f32_one, 9), (- f32_one, 7)], ctx'))"
  (is "?wf \<and> ?lost \<and> ?found")
proof (intro conjI)
  show ?wf
    by (simp add: hnsw_wf_def cfg_ok_def hnsw_sizes_def graph_wf_def levels_wf_def race_index_def degree_bound_def
        all_upt_2)
  let ?h = "race_index 3 [[[1], [1]], [[0], [0]], [[1]]]"
  have "h_id_map ?h = [7, 8, 9]" "h_tombstone ?h = [False, False, False]" "own_vector ?h 2 = [f32_one]"
    by (simp_all add: race_index_def own_vector_def numeral_3_eq_3)
  moreover note search_by_schedule [OF race_search]
  moreover have "\<exists>is ta tb. run_schedule isort_desc log_race is
      (race_index 1 [[[], []]], [Inserting race_a (I_Start ctx_new), Inserting race_b (I_Start ctx_new)])
    = Inr (?h, [Inserting race_a (I_Done ta), Inserting race_b (I_Done tb)])"
    by (intro exI, subst run_schedule_append, subst race_first, subst bindR_simps, subst run_schedule_append,
        subst race_second, subst bindR_simps) (rule race_third)
  ultimately show ?lost using run_schedule_reach [OF _ sys_reach.refl] by blast
  show ?found
    using insert_by_schedule [OF alone_first] insert_by_schedule [OF alone_second] search_by_schedule [OF alone_search]
    unfolding race_req by blast
qed

end
