(* ===== verification/Hnsw_Table.thy ===== *)
theory Hnsw_Table
  imports Hnsw_Race Hnsw_Interleave
begin

text \<open>
  The table of visited marks of a searching thread under a concurrent insertion.
\<close>













section \<open>Properties\<close>



end
