(* ===== verification/Hnsw_Access.thy ===== *)
theory Hnsw_Access
  imports Hnsw_Properties
begin

text \<open>
  The accessors of an index by slot (\<open>src/include/hnsw.hpp\<close>): they take no lock and check no
  range, so a slot that is not in use is undefined behaviour.
\<close>

definition hnsw_dim :: "'s hnsw \<Rightarrow> nat" where
  "hnsw_dim h = h_dim h"

text \<open>The floats in memory from the pointer on.\<close>

definition raw_vec :: "'s hnsw \<Rightarrow> nat \<Rightarrow> f32 list" where
  "raw_vec h internal_id = drop (internal_id * h_dim h) (h_raw_vectors h)"

definition external_id :: "'s hnsw \<Rightarrow> nat \<Rightarrow> 64 word res" where
  "external_id h internal_id = nth_r (h_id_map h) internal_id"

definition metadata :: "'s hnsw \<Rightarrow> nat \<Rightarrow> string res" where
  "metadata h internal_id = nth_r (h_metadata h) internal_id"

text \<open>What an index shows of a slot.\<close>

definition slot_view :: "'s hnsw \<Rightarrow> nat \<Rightarrow> f32 list \<times> 64 word res \<times> string res" where
  "slot_view h j = (take (hnsw_dim h) (raw_vec h j), external_id h j, metadata h j)"

text \<open>An insertion that returns takes the next slot, the accessors give back there exactly the
  floats, the id and the metadata inserted, and every earlier slot shows what it showed before.\<close>

theorem hnsw_insert_read_back:
  assumes "desc_sorter srt" and "hnsw_wf h" and "visit_ok ctx" and "h_num_vectors h < 2 ^ 32"
    and "random_layer logf val (h_mL h) = Inr level" and "0 \<le> level" and "h_dim h \<le> length vec"
    and "hnsw_insert srt logf val i vec meta (h, ctx) = Inr (h', ctx')"
  shows "hnsw_size h' = Suc (hnsw_size h)
    \<and> slot_view h' (hnsw_size h) = (take (hnsw_dim h) vec, Inr i, Inr meta)
    \<and> (\<forall>j<hnsw_size h. slot_view h' j = slot_view h j)"
proof -
  have ins: "inserted i vec meta h h'" and sizes: "hnsw_sizes h"
    using hnsw_insert_spec [OF assms(1-6), of False vec i meta] assms(2,8) by (simp_all add: hnsw_wf_def)
  have own: "slot_view h j = (own_vector h j, nth_r (h_id_map h) j, nth_r (h_metadata h) j)" for h :: "'a hnsw" and j
    by (simp add: slot_view_def hnsw_dim_def raw_vec_def own_vector_def external_id_def metadata_def)
  have len: "length (h_id_map h) = h_num_vectors h" "length (h_metadata h) = h_num_vectors h"
    using sizes by (simp_all add: hnsw_sizes_def)
  then show ?thesis
    using inserted_own_vector [OF sizes ins assms(7)] ins
    by (auto simp: own hnsw_size_def hnsw_dim_def inserted_def nth_r_def nth_append)
qed

theorem hnsw_insert_read_back_witness:
  "\<exists>h' ctx'. hnsw_insert isort_desc log_low (F32 0x3F000000) 9 [f32_one] ''c'' (hnsw_pair, ctx_new) = Inr (h', ctx')
    \<and> slot_view h' 2 = ([f32_one], Inr 9, Inr ''c'') \<and> slot_view h' 1 = slot_view hnsw_pair 1"
proof -
  obtain h' ctx' where run: "hnsw_insert isort_desc log_low (F32 0x3F000000) 9 [f32_one] ''c''
      (hnsw_pair, ctx_new) = Inr (h', ctx')"
    using pair_insert_runs by blast
  have "hnsw_size hnsw_pair = 2" "hnsw_dim hnsw_pair = 1" by (simp_all add: hnsw_size_def hnsw_dim_def)
  then show ?thesis
    using hnsw_insert_read_back [OF pair_insert_args _ _ run] run by auto
qed

end
