(* ===== verification/Metadata_Filter.thy ===== *)
theory Metadata_Filter
  imports Binary32
begin

text \<open>
  The metadata filter (\<open>src/include/filter.hpp\<close>, \<open>src/src/filter.cpp\<close>).  The JSON values
  are those of the library nlohmann::json, which is not part of the sources: the functions of
  the library that the filter calls are a record of operations on a type \<open>'j\<close> of JSON values
  and an argument of every definition.  \<open>dump\<close> may throw (on invalid UTF-8).
\<close>

section \<open>The JSON library\<close>

record 'j json_lib =
  js_is_number :: "'j \<Rightarrow> bool"
  js_double :: "'j \<Rightarrow> fval"
  js_is_string :: "'j \<Rightarrow> bool"
  js_string :: "'j \<Rightarrow> string"
  js_is_array :: "'j \<Rightarrow> bool"
  js_elems :: "'j \<Rightarrow> 'j list"
  js_is_object :: "'j \<Rightarrow> bool"
  js_items :: "'j \<Rightarrow> (string \<times> 'j) list"
  js_find :: "'j \<Rightarrow> string \<Rightarrow> 'j option"
  js_dump :: "'j \<Rightarrow> string res"
  js_parse :: "string \<Rightarrow> 'j option"

section \<open>Comparing values\<close>

text \<open>\<open>operator<\<close> of \<open>std::string\<close>: characters compare as unsigned bytes.\<close>

fun str_less :: "string \<Rightarrow> string \<Rightarrow> bool" where
  "str_less xs [] = False"
| "str_less [] (y # ys) = True"
| "str_less (x # xs) (y # ys) =
     ((of_char x :: nat) < of_char y \<or> (x = y \<and> str_less xs ys))"

definition json_compare :: "'j json_lib \<Rightarrow> 'j \<Rightarrow> 'j \<Rightarrow> int res" where
  "json_compare js field_val filter_val =
     (if js_is_number js field_val \<and> js_is_number js filter_val
      then
        (let a = js_double js field_val; b = js_double js filter_val
         in Inr (if fv_lt a b then - 1 else if fv_lt b a then 1 else 0))
      else if js_is_string js field_val \<and> js_is_string js filter_val
      then
        (let a = js_string js field_val; b = js_string js filter_val
         in Inr (if str_less a b then - 1 else if str_less b a then 1 else 0))
      else
        bindR (js_dump js field_val) (\<lambda>a.
        bindR (js_dump js filter_val) (\<lambda>b.
        Inr (if a = b then 0 else - 1))))"

section \<open>Operators\<close>

datatype filter_op = EQ | NE | GT | GTE | LT | LTE | IN | NIN

record 'j field_filter =
  ff_op :: filter_op
  ff_value :: "'j"

text \<open>The loop of \<open>$in\<close> and \<open>$nin\<close>: does some element compare equal?\<close>

fun any_equal :: "'j json_lib \<Rightarrow> 'j \<Rightarrow> 'j list \<Rightarrow> bool res" where
  "any_equal js field_val [] = Inr False"
| "any_equal js field_val (e # es) =
     bindR (json_compare js field_val e) (\<lambda>c. if c = 0 then Inr True else any_equal js field_val es)"

definition apply_op :: "'j json_lib \<Rightarrow> 'j \<Rightarrow> filter_op \<Rightarrow> 'j \<Rightarrow> bool res" where
  "apply_op js field_val op filter_val =
     (let compare = (\<lambda>test. bindR (json_compare js field_val filter_val) (\<lambda>c. Inr (test c))) in
      case op of
        EQ \<Rightarrow> compare (\<lambda>c. c = 0)
      | NE \<Rightarrow> compare (\<lambda>c. c \<noteq> 0)
      | GT \<Rightarrow> compare (\<lambda>c. 0 < c)
      | GTE \<Rightarrow> compare (\<lambda>c. 0 \<le> c)
      | LT \<Rightarrow> compare (\<lambda>c. c < 0)
      | LTE \<Rightarrow> compare (\<lambda>c. c \<le> 0)
      | IN \<Rightarrow>
          if \<not> js_is_array js filter_val then Inr False
          else any_equal js field_val (js_elems js filter_val)
      | NIN \<Rightarrow>
          if \<not> js_is_array js filter_val then Inr True
          else bindR (any_equal js field_val (js_elems js filter_val)) (\<lambda>b. Inr (\<not> b)))"

section \<open>Where clauses\<close>

text \<open>
  \<open>WhereClause\<close>: an unordered map, kept as the list of its entries in the order in which a
  loop visits them, with one entry per field.
\<close>

type_synonym 'j where_clause = "(string \<times> 'j field_filter list) list"

definition op_map :: "string \<Rightarrow> filter_op option" where
  "op_map = map_of
     [(''$eq'', EQ), (''$ne'', NE), (''$gt'', GT), (''$gte'', GTE),
      (''$lt'', LT), (''$lte'', LTE), (''$in'', IN), (''$nin'', NIN)]"

text \<open>\<open>result[field] = filters\<close>.\<close>

fun where_set :: "string \<Rightarrow> 'j field_filter list \<Rightarrow> 'j where_clause \<Rightarrow> 'j where_clause" where
  "where_set field filters [] = [(field, filters)]"
| "where_set field filters ((f, fs) # w) =
     (if f = field then (f, filters) # w else (f, fs) # where_set field filters w)"

text \<open>One entry of an operator object, and the filters of one field.\<close>

definition parse_op :: "string \<times> 'j \<Rightarrow> 'j field_filter res" where
  "parse_op = (\<lambda>(op_key, val).
     case op_map op_key of
       None \<Rightarrow> Inl (Invalid_Argument (''Unknown filter operator: '' @ op_key))
     | Some op \<Rightarrow> Inr \<lparr>ff_op = op, ff_value = val\<rparr>)"

definition parse_spec :: "'j json_lib \<Rightarrow> 'j \<Rightarrow> 'j field_filter list res" where
  "parse_spec js spec =
     (if js_is_object js spec then mapR parse_op (js_items js spec)
      else Inr [\<lparr>ff_op = EQ, ff_value = spec\<rparr>])"

definition parse_where :: "'j json_lib \<Rightarrow> 'j \<Rightarrow> 'j where_clause res" where
  "parse_where js where_json =
     (if \<not> js_is_object js where_json then Inr []
      else
        foldR (\<lambda>(field, spec) result.
            bindR (parse_spec js spec) (\<lambda>filters. Inr (where_set field filters result)))
          (js_items js where_json) [])"

section \<open>Evaluation\<close>

text \<open>The two nested loops: every filter of every field has to hold.\<close>

fun match_all :: "'j json_lib \<Rightarrow> 'j \<Rightarrow> 'j field_filter list \<Rightarrow> bool res" where
  "match_all js field_val [] = Inr True"
| "match_all js field_val (ff # ffs) =
     bindR (apply_op js field_val (ff_op ff) (ff_value ff)) (\<lambda>b.
       if \<not> b then Inr False else match_all js field_val ffs)"

fun match_fields :: "'j json_lib \<Rightarrow> 'j \<Rightarrow> 'j where_clause \<Rightarrow> bool res" where
  "match_fields js meta [] = Inr True"
| "match_fields js meta ((field, filters) # w) =
     (case js_find js meta field of
        None \<Rightarrow> Inr False
      | Some field_val \<Rightarrow>
          bindR (match_all js field_val filters) (\<lambda>b.
            if \<not> b then Inr False else match_fields js meta w))"

definition evaluate_filter :: "'j json_lib \<Rightarrow> string \<Rightarrow> 'j where_clause \<Rightarrow> bool res" where
  "evaluate_filter js metadata_json w =
     (if w = [] then Inr True
      else
        case js_parse js metadata_json of
          None \<Rightarrow> Inr False
        | Some meta \<Rightarrow> if \<not> js_is_object js meta then Inr False else match_fields js meta w)"

section \<open>What the operators mean\<close>

text \<open>The sign of a comparison, and whether an operator holds; a comparison that throws has no sign,
  and the value given to it here is never used.\<close>

definition cmp :: "'j json_lib \<Rightarrow> 'j \<Rightarrow> 'j \<Rightarrow> int" where
  "cmp js a b = (case json_compare js a b of Inl _ \<Rightarrow> 0 | Inr c \<Rightarrow> c)"

definition op_holds :: "'j json_lib \<Rightarrow> 'j \<Rightarrow> filter_op \<Rightarrow> 'j \<Rightarrow> bool" where
  "op_holds js v op w =
     (case op of
        EQ \<Rightarrow> cmp js v w = 0 | NE \<Rightarrow> cmp js v w \<noteq> 0
      | GT \<Rightarrow> 0 < cmp js v w | GTE \<Rightarrow> 0 \<le> cmp js v w
      | LT \<Rightarrow> cmp js v w < 0 | LTE \<Rightarrow> cmp js v w \<le> 0
      | IN \<Rightarrow> js_is_array js w \<and> (\<exists>e\<in>set (js_elems js w). cmp js v e = 0)
      | NIN \<Rightarrow> \<not> (js_is_array js w \<and> (\<exists>e\<in>set (js_elems js w). cmp js v e = 0)))"

lemma json_compare_cmp: "json_compare js a b = Inr c \<Longrightarrow> cmp js a b = c"
  by (simp add: cmp_def)

lemma any_equal_cmp: "any_equal js v es = Inr b \<Longrightarrow> b \<longleftrightarrow> (\<exists>e\<in>set es. cmp js v e = 0)"
  by (induction es) (auto simp: bindR_Inr_iff dest!: json_compare_cmp split: if_splits)

lemma apply_op_holds: "apply_op js v op w = Inr b \<Longrightarrow> b \<longleftrightarrow> op_holds js v op w"
  by (cases op) (auto simp: apply_op_def op_holds_def bindR_Inr_iff split: if_splits
    dest!: json_compare_cmp any_equal_cmp)

lemma match_all_holds:
  "match_all js v ffs = Inr b \<Longrightarrow> b \<longleftrightarrow> (\<forall>ff\<in>set ffs. op_holds js v (ff_op ff) (ff_value ff))"
  by (induction ffs) (auto simp: bindR_Inr_iff dest!: apply_op_holds split: if_splits)

definition field_matches :: "'j json_lib \<Rightarrow> 'j \<Rightarrow> string \<times> 'j field_filter list \<Rightarrow> bool" where
  "field_matches js meta = (\<lambda>(field, filters).
     case js_find js meta field of
       None \<Rightarrow> False
     | Some v \<Rightarrow> \<forall>ff\<in>set filters. op_holds js v (ff_op ff) (ff_value ff))"

lemma match_fields_holds:
  "match_fields js meta w = Inr b \<Longrightarrow> b \<longleftrightarrow> (\<forall>f\<in>set w. field_matches js meta f)"
proof (induction w)
  case (Cons f w)
  then show ?case
    by (cases f; cases "js_find js meta (fst f)")
      (auto simp: bindR_Inr_iff field_matches_def dest!: match_all_holds split: if_splits)
qed simp

text \<open>The documents a where clause accepts.\<close>

definition filter_accepts :: "'j json_lib \<Rightarrow> string \<Rightarrow> 'j where_clause \<Rightarrow> bool" where
  "filter_accepts js m w \<longleftrightarrow>
     w = [] \<or> (\<exists>meta. js_parse js m = Some meta \<and> js_is_object js meta
                 \<and> (\<forall>f\<in>set w. field_matches js meta f))"

lemma evaluate_filter_accepts: "evaluate_filter js m w = Inr b \<Longrightarrow> b \<longleftrightarrow> filter_accepts js m w"
  by (auto simp: evaluate_filter_def filter_accepts_def dest!: match_fields_holds
      split: option.splits if_splits)

section \<open>When an evaluation returns\<close>

text \<open>Two values can be compared when both are numbers, or both strings, or both can be printed.\<close>

definition prints :: "'j json_lib \<Rightarrow> 'j \<Rightarrow> bool" where
  "prints js j = (case js_dump js j of Inl _ \<Rightarrow> False | Inr _ \<Rightarrow> True)"

definition comparable :: "'j json_lib \<Rightarrow> 'j \<Rightarrow> 'j \<Rightarrow> bool" where
  "comparable js a b \<longleftrightarrow> js_is_number js a \<and> js_is_number js b \<or> js_is_string js a \<and> js_is_string js b
     \<or> prints js a \<and> prints js b"

text \<open>The values a filter compares a field with, and the clauses whose comparisons all return.\<close>

definition filter_values :: "'j json_lib \<Rightarrow> 'j field_filter \<Rightarrow> 'j list" where
  "filter_values js ff =
     (if ff_op ff \<in> {IN, NIN}
      then (if js_is_array js (ff_value ff) then js_elems js (ff_value ff) else [])
      else [ff_value ff])"

definition field_runs :: "'j json_lib \<Rightarrow> 'j \<Rightarrow> string \<times> 'j field_filter list \<Rightarrow> bool" where
  "field_runs js meta = (\<lambda>(field, filters).
     case js_find js meta field of
       None \<Rightarrow> True
     | Some v \<Rightarrow> list_all (\<lambda>ff. list_all (comparable js v) (filter_values js ff)) filters)"

definition clause_runs :: "'j json_lib \<Rightarrow> string \<Rightarrow> 'j where_clause \<Rightarrow> bool" where
  "clause_runs js m w =
     (case js_parse js m of None \<Rightarrow> True | Some meta \<Rightarrow> list_all (field_runs js meta) w)"

lemma json_compare_runs: "(\<exists>c. json_compare js a b = Inr c) \<longleftrightarrow> comparable js a b"
  by (auto simp: json_compare_def comparable_def prints_def Let_def split: sum.splits)

lemma any_equal_runs: "list_all (comparable js v) es \<Longrightarrow> \<exists>b. any_equal js v es = Inr b"
  by (induction es) (auto simp flip: json_compare_runs)

lemma apply_op_runs:
  assumes "list_all (comparable js v) (filter_values js ff)"
  shows "\<exists>b. apply_op js v (ff_op ff) (ff_value ff) = Inr b"
proof (cases "ff_op ff \<in> {IN, NIN}")
  case True
  then show ?thesis
    using assms any_equal_runs [of js v "js_elems js (ff_value ff)"]
    by (auto simp: apply_op_def filter_values_def bindR_Inr_iff)
next
  case False
  then obtain c where "json_compare js v (ff_value ff) = Inr c"
    using assms by (auto simp: filter_values_def simp flip: json_compare_runs)
  then show ?thesis using False by (cases "ff_op ff") (auto simp: apply_op_def)
qed

lemma match_all_runs:
  "list_all (\<lambda>ff. list_all (comparable js v) (filter_values js ff)) ffs \<Longrightarrow> \<exists>b. match_all js v ffs = Inr b"
  by (induction ffs) (auto dest!: apply_op_runs)

lemma match_fields_runs: "list_all (field_runs js meta) w \<Longrightarrow> okR (match_fields js meta w) (\<lambda>_. True)"
proof (induction w)
  case (Cons f w)
  then show ?case
    by (cases f; cases "js_find js meta (fst f)") (auto simp: field_runs_def dest!: match_all_runs)
qed simp

lemma evaluate_filter_runs:
  assumes "clause_runs js m w"
  shows "evaluate_filter js m w = Inr (filter_accepts js m w)"
proof -
  have "okR (evaluate_filter js m w) (\<lambda>_. True)"
    using assms match_fields_runs by (auto simp: clause_runs_def evaluate_filter_def split: option.splits)
  then show ?thesis using evaluate_filter_accepts by (auto simp: okR_iff)
qed

section \<open>A small library\<close>

text \<open>Numbers, strings, arrays and objects, to instantiate the properties.  A string that is not
  ASCII cannot be printed.\<close>

datatype jval = JInt int | JStr string | JArr "jval list" | JObj "(string \<times> jval) list"

definition ascii :: "string \<Rightarrow> bool" where
  "ascii s = list_all (\<lambda>c. (of_char c :: nat) < 128) s"

fun jprint :: "jval \<Rightarrow> string res" where
  "jprint (JInt n) = Inr ''number''"
| "jprint (JStr s) = (if ascii s then Inr (''string'' @ s) else Inl (Runtime_Error ''type_error.316''))"
| "jprint (JArr js) = Inr ''array''"
| "jprint (JObj kvs) = Inr ''object''"

definition jlib :: "jval json_lib" where
  "jlib = \<lparr>js_is_number = (\<lambda>j. case j of JInt _ \<Rightarrow> True | _ \<Rightarrow> False),
     js_double = (\<lambda>j. case j of JInt n \<Rightarrow> FFin (n < 0) \<bar>n\<bar> 0 | _ \<Rightarrow> FNan),
     js_is_string = (\<lambda>j. case j of JStr _ \<Rightarrow> True | _ \<Rightarrow> False),
     js_string = (\<lambda>j. case j of JStr s \<Rightarrow> s | _ \<Rightarrow> []),
     js_is_array = (\<lambda>j. case j of JArr _ \<Rightarrow> True | _ \<Rightarrow> False),
     js_elems = (\<lambda>j. case j of JArr js \<Rightarrow> js | _ \<Rightarrow> []),
     js_is_object = (\<lambda>j. case j of JObj _ \<Rightarrow> True | _ \<Rightarrow> False),
     js_items = (\<lambda>j. case j of JObj kvs \<Rightarrow> kvs | _ \<Rightarrow> []),
     js_find = (\<lambda>j k. case j of JObj kvs \<Rightarrow> map_of kvs k | _ \<Rightarrow> None),
     js_dump = jprint,
     js_parse = (\<lambda>s. if s = ''doc'' then Some (JObj [(''year'', JInt 2021), (''tag'', JStr ''a'')])
                     else None)\<rparr>"

section \<open>Properties\<close>

text \<open>C32: A where clause is a conjunction: metadata passes when the clause is empty or the metadata
  parses to an object that has every field of the clause and whose value for the field satisfies
  every operator given for it.  An evaluation that returns gives exactly this answer, whatever the
  order in which the unordered map of the clause is visited.  It may throw, because values of
  different kinds are compared by printing them and a value that is no valid UTF-8 cannot be
  printed, and whether it comes to that can depend on the order; when every comparison of the clause is
  between two numbers, two strings or two values that print, it returns in every order.\<close>

theorem evaluate_filter_conjunction:
  assumes "set w = set w'"
  shows "(case evaluate_filter js m w of Inl _ \<Rightarrow> \<not> clause_runs js m w | Inr b \<Rightarrow> b = filter_accepts js m w)
    \<and> (case evaluate_filter js m w' of Inl _ \<Rightarrow> \<not> clause_runs js m w | Inr b \<Rightarrow> b = filter_accepts js m w)"
proof -
  have "w = [] \<longleftrightarrow> w' = []" using assms by (metis set_empty)
  then have same: "filter_accepts js m w = filter_accepts js m w'" "clause_runs js m w = clause_runs js m w'"
    by (simp_all only: filter_accepts_def clause_runs_def list_all_iff assms)
  have returns: "case evaluate_filter js m v of Inl _ \<Rightarrow> \<not> clause_runs js m v | Inr b \<Rightarrow> b = filter_accepts js m v"
    for v
    using evaluate_filter_runs [of js m v] evaluate_filter_accepts [of js m v]
    by (cases "evaluate_filter js m v") auto
  show ?thesis using returns [of w] returns [of w'] unfolding same by (rule conjI)
qed

theorem evaluate_filter_conjunction_witness:
  "evaluate_filter jlib ''doc'' [(''tag'', [\<lparr>ff_op = EQ, ff_value = JStr ''a''\<rparr>]),
      (''year'', [\<lparr>ff_op = GT, ff_value = JInt 2020\<rparr>])] = Inr True
    \<and> evaluate_filter jlib ''doc'' [(''year'', [\<lparr>ff_op = GT, ff_value = JInt 2020\<rparr>]),
      (''tag'', [\<lparr>ff_op = EQ, ff_value = JStr ''a''\<rparr>])] = Inr True"
proof -
  let ?t = "(''tag'', [\<lparr>ff_op = EQ, ff_value = JStr ''a''\<rparr>])"
  let ?y = "(''year'', [\<lparr>ff_op = GT, ff_value = JInt 2020\<rparr>])"
  have "clause_runs jlib ''doc'' [?t, ?y]" by code_simp
  moreover have "filter_accepts jlib ''doc'' [?t, ?y]"
    by (simp add: filter_accepts_def field_matches_def op_holds_def cmp_def json_compare_def sgn_int_def jlib_def)
  ultimately show ?thesis
    using evaluate_filter_conjunction [of "[?t, ?y]" "[?y, ?t]" jlib "''doc''"]
    by (auto simp: insert_commute split: sum.splits)
qed

text \<open>An instance of the dependence on the order: a string that is not UTF-8, compared with a number,
  makes the evaluation throw when it comes first and is not looked at when it comes second.\<close>

lemma evaluate_filter_order:
  "evaluate_filter jlib ''doc'' [(''year'', [\<lparr>ff_op = EQ, ff_value = JStr [CHR 0xFF]\<rparr>]),
      (''tag'', [\<lparr>ff_op = EQ, ff_value = JStr ''b''\<rparr>])] = Inl (Runtime_Error ''type_error.316'')
    \<and> evaluate_filter jlib ''doc'' [(''tag'', [\<lparr>ff_op = EQ, ff_value = JStr ''b''\<rparr>]),
      (''year'', [\<lparr>ff_op = EQ, ff_value = JStr [CHR 0xFF]\<rparr>])] = Inr False"
  by code_simp

text \<open>The real number a finite double stands for.\<close>

fun fv_real :: "fval \<Rightarrow> real" where
  "fv_real (FFin s m e) = of_int (sgn_int s m) * 2 powi e"
| "fv_real _ = 0"

definition fv_finite :: "fval \<Rightarrow> bool" where
  "fv_finite v = (case v of FFin _ _ _ \<Rightarrow> True | _ \<Rightarrow> False)"

lemma fv_lt_real:
  assumes "fv_finite a" and "fv_finite b"
  shows "fv_lt a b \<longleftrightarrow> fv_real a < fv_real b"
proof -
  obtain s1 m1 e1 s2 m2 e2 where ab: "a = FFin s1 m1 e1" "b = FFin s2 m2 e2"
    using assms by (auto simp: fv_finite_def split: fval.splits)
  let ?e = "min e1 e2"
  have scaled: "of_int (sgn_int s (m * 2 ^ nat (k - ?e))) * 2 powi ?e = fv_real (FFin s m k)"
    if "?e \<le> k" for s m k
  proof -
    have "(2::real) ^ nat (k - ?e) * 2 powi ?e = 2 powi k"
      using that power_int_add [of "2::real" "k - ?e" ?e] by (simp add: power_int_def)
    moreover have "of_int (sgn_int s (m * 2 ^ nat (k - ?e))) = of_int (sgn_int s m) * (2::real) ^ nat (k - ?e)"
      by (simp add: sgn_int_def)
    ultimately show ?thesis by (simp add: mult.assoc)
  qed
  have "fv_lt a b \<longleftrightarrow> (of_int (sgn_int s1 (m1 * 2 ^ nat (e1 - ?e))) :: real)
      < of_int (sgn_int s2 (m2 * 2 ^ nat (e2 - ?e)))"
    by (simp only: ab fv_lt.simps Let_def of_int_less_iff)
  also have "\<dots> \<longleftrightarrow> of_int (sgn_int s1 (m1 * 2 ^ nat (e1 - ?e))) * (2::real) powi ?e
      < of_int (sgn_int s2 (m2 * 2 ^ nat (e2 - ?e))) * 2 powi ?e"
    by (simp add: zero_less_power_int)
  finally show ?thesis using scaled [of e1 s1 m1] scaled [of e2 s2 m2] by (simp only: ab min.cobounded1 min.cobounded2)
qed

lemma cmp_numbers:
  assumes "js_is_number js v" and "js_is_number js w"
    and "fv_finite (js_double js v)" and "fv_finite (js_double js w)"
  shows "json_compare js v w = Inr (if fv_real (js_double js v) < fv_real (js_double js w) then - 1
    else if fv_real (js_double js w) < fv_real (js_double js v) then 1 else 0)"
  using assms by (simp add: json_compare_def fv_lt_real)

text \<open>C33: A range filter on numbers is the range: for finite numbers, \<open>$gte\<close> with \<open>$lte\<close>
  accepts exactly the values between the bounds, and \<open>$gt\<close> with \<open>$lt\<close> those strictly
  between, as real numbers.\<close>

theorem filter_range:
  assumes "js_is_number js v" and "js_is_number js lo" and "js_is_number js hi"
    and "fv_finite (js_double js v)" and "fv_finite (js_double js lo)" and "fv_finite (js_double js hi)"
  shows "match_all js v [\<lparr>ff_op = GTE, ff_value = lo\<rparr>, \<lparr>ff_op = LTE, ff_value = hi\<rparr>]
      = Inr (fv_real (js_double js lo) \<le> fv_real (js_double js v)
           \<and> fv_real (js_double js v) \<le> fv_real (js_double js hi))
    \<and> match_all js v [\<lparr>ff_op = GT, ff_value = lo\<rparr>, \<lparr>ff_op = LT, ff_value = hi\<rparr>]
      = Inr (fv_real (js_double js lo) < fv_real (js_double js v)
           \<and> fv_real (js_double js v) < fv_real (js_double js hi))"
  using cmp_numbers [OF assms(1,2,4,5)] cmp_numbers [OF assms(1,3,4,6)]
  by (simp add: apply_op_def)

theorem filter_range_witness:
  "match_all jlib (JInt 2021) [\<lparr>ff_op = GTE, ff_value = JInt 2020\<rparr>, \<lparr>ff_op = LTE, ff_value = JInt 2024\<rparr>]
    = Inr True"
  using filter_range [of jlib "JInt 2021" "JInt 2020" "JInt 2024"]
  by (simp add: jlib_def fv_finite_def sgn_int_def)

text \<open>Values of different kinds are not compared as strings, as the comment in the code has
  it: they are equal when they print the same and otherwise the field counts as smaller.  So
  \<open>$lte\<close> accepts every value of another kind, \<open>$lt\<close> every one that prints differently, and
  \<open>$gt\<close> none.\<close>

theorem filter_mixed_kinds:
  assumes "\<not> (js_is_number js v \<and> js_is_number js w)" and "\<not> (js_is_string js v \<and> js_is_string js w)"
    and "js_dump js v = Inr s" and "js_dump js w = Inr t"
  shows "apply_op js v LTE w = Inr True \<and> apply_op js v GT w = Inr False
    \<and> apply_op js v LT w = Inr (s \<noteq> t) \<and> apply_op js v GTE w = Inr (s = t)
    \<and> apply_op js v EQ w = Inr (s = t) \<and> apply_op js v NE w = Inr (s \<noteq> t)"
  using assms by (auto simp: apply_op_def json_compare_def)

theorem filter_mixed_kinds_witness:
  "apply_op jlib (JStr ''zzz'') LTE (JInt 5) = Inr True
    \<and> apply_op jlib (JStr ''zzz'') GT (JInt 5) = Inr False"
  using filter_mixed_kinds [of jlib "JStr ''zzz''" "JInt 5" "''stringzzz''" "''number''"]
  by (simp add: jlib_def ascii_def)

text \<open>The filters a specification stands for.\<close>

definition known_ops :: "'j json_lib \<Rightarrow> 'j \<Rightarrow> bool" where
  "known_ops js spec \<longleftrightarrow> js_is_object js spec \<longrightarrow> (\<forall>kv\<in>set (js_items js spec). op_map (fst kv) \<noteq> None)"

definition filters_of :: "'j json_lib \<Rightarrow> 'j \<Rightarrow> 'j field_filter list" where
  "filters_of js spec =
     (if js_is_object js spec
      then map (\<lambda>kv. \<lparr>ff_op = the (op_map (fst kv)), ff_value = snd kv\<rparr>) (js_items js spec)
      else [\<lparr>ff_op = EQ, ff_value = spec\<rparr>])"

definition unknown_op :: "'a res \<Rightarrow> bool" where
  "unknown_op r \<longleftrightarrow> (\<exists>k. r = Inl (Invalid_Argument (''Unknown filter operator: '' @ k)) \<and> op_map k = None)"

lemma parse_spec_known:
  "if known_ops js spec then parse_spec js spec = Inr (filters_of js spec)
   else unknown_op (parse_spec js spec)"
proof -
  have "if \<forall>kv\<in>set kvs. op_map (fst kv) \<noteq> None
    then mapR parse_op kvs = Inr (map (\<lambda>kv. \<lparr>ff_op = the (op_map (fst kv)), ff_value = snd kv\<rparr>) kvs)
    else unknown_op (mapR parse_op kvs)" for kvs :: "(string \<times> 'a) list"
  proof (induction kvs)
    case (Cons kv kvs)
    then show ?case
      by (cases kv; cases "op_map (fst kv)")
        (auto simp: parse_op_def unknown_op_def split: if_splits)
  qed simp
  from this [of "js_items js spec"] show ?thesis
    by (auto simp: parse_spec_def known_ops_def filters_of_def)
qed

lemma where_set_new: "field \<notin> fst ` set w \<Longrightarrow> where_set field filters w = w @ [(field, filters)]"
  by (induction field filters w rule: where_set.induct) auto

lemma parse_where_fold:
  fixes items :: "(string \<times> 'j) list"
  assumes "distinct (map fst items)" and "fst ` set items \<inter> fst ` set acc = {}"
  shows "if \<forall>fs\<in>set items. known_ops js (snd fs)
    then foldR (\<lambda>(field, spec) result.
            bindR (parse_spec js spec) (\<lambda>filters. Inr (where_set field filters result))) items acc
      = Inr (acc @ map (\<lambda>fs. (fst fs, filters_of js (snd fs))) items)
    else unknown_op (foldR (\<lambda>(field, spec) result.
            bindR (parse_spec js spec) (\<lambda>filters. Inr (where_set field filters result))) items acc)"
  using assms
proof (induction items arbitrary: acc)
  case (Cons fs items)
  obtain field spec where fs: "fs = (field, spec)" by (cases fs)
  have new: "where_set field filters acc = acc @ [(field, filters)]" for filters
    using Cons.prems(2) by (intro where_set_new) (auto simp: fs)
  show ?case
  proof (cases "known_ops js spec")
    case True
    then show ?thesis
      using Cons.IH [of "acc @ [(field, filters_of js spec)]"] Cons.prems parse_spec_known [of js spec]
      by (auto simp: fs new)
  next
    case False
    then show ?thesis using parse_spec_known [of js spec] by (auto simp: fs unknown_op_def)
  qed
qed simp

text \<open>\<open>parse_where\<close> reads an object whose keys are distinct, as JSON objects have them: a
  bare value is an equality, an operator object gives its operators in order, and an operator that
  is not one of the eight makes the whole clause invalid with an error that names one.\<close>

theorem parse_where_operators:
  assumes "js_is_object js j" and "distinct (map fst (js_items js j))"
  shows "if \<forall>fs\<in>set (js_items js j). known_ops js (snd fs)
    then parse_where js j = Inr (map (\<lambda>fs. (fst fs, filters_of js (snd fs))) (js_items js j))
    else \<exists>k. parse_where js j = Inl (Invalid_Argument (''Unknown filter operator: '' @ k))
      \<and> op_map k = None"
proof -
  have "parse_where js j = foldR (\<lambda>(field, spec) result.
      bindR (parse_spec js spec) (\<lambda>filters. Inr (where_set field filters result))) (js_items js j) []"
    using assms(1) by (simp add: parse_where_def)
  moreover have "fst ` set (js_items js j) \<inter> fst ` set [] = {}" by simp
  ultimately show ?thesis
    using parse_where_fold [OF assms(2), of "[]" js] by (simp only: unknown_op_def append_Nil)
qed

theorem parse_where_operators_witness:
  "parse_where jlib (JObj [(''year'', JObj [(''$gte'', JInt 2020)]), (''tag'', JStr ''a'')])
    = Inr [(''year'', [\<lparr>ff_op = GTE, ff_value = JInt 2020\<rparr>]), (''tag'', [\<lparr>ff_op = EQ, ff_value = JStr ''a''\<rparr>])]
   \<and> (\<exists>k. parse_where jlib (JObj [(''x'', JObj [(''$fuzzy'', JInt 1)])])
      = Inl (Invalid_Argument (''Unknown filter operator: '' @ k)))"
  using parse_where_operators [of jlib "JObj [(''year'', JObj [(''$gte'', JInt 2020)]), (''tag'', JStr ''a'')]"]
    parse_where_operators [of jlib "JObj [(''x'', JObj [(''$fuzzy'', JInt 1)])]"]
  by (auto simp: jlib_def known_ops_def filters_of_def op_map_def)

end
