(* ===== verification/Hnsw_Env.thy ===== *)
theory Hnsw_Env
  imports Hnsw_Search
begin

text \<open>
  An index with a vector accessor changes the state behind the accessor only by calling it.
  The locale states that for an invariant of that state: whatever the accessor keeps, every
  operation of the index keeps.
\<close>

locale accessor_invariant =
  fixes acc :: "'s accessor" and P :: "'s \<Rightarrow> bool"
  assumes acc_keeps: "P s \<Longrightarrow> acc i s = Inr (ptr, s') \<Longrightarrow> P s'"

context accessor_invariant
begin

lemma get_vec_keeps:
  "h_vec_accessor h = Some acc \<Longrightarrow> P s \<Longrightarrow> postR (get_vec h i s) (\<lambda>(_, s'). P s')"
  using acc_keeps by (auto simp: get_vec_def noexcept_r_def postR_iff split: sum.splits)

lemma similarity_to_keeps:
  assumes "h_vec_accessor h = Some acc" and "P (vis_env ctx)"
  shows "postR (similarity_to h query i ctx) (\<lambda>(_, ctx'). P (vis_env ctx'))"
proof -
  have "P (vis_env ctx')" if run: "similarity_to h query i ctx = Inr (sim, ctx')" for sim ctx'
  proof -
    obtain ptr s where "get_vec h i (vis_env ctx) = Inr (ptr, s)" and "ctx' = ctx\<lparr>vis_env := s\<rparr>"
      using run by (auto simp: similarity_to_def bindR_Inr_iff)
    then show ?thesis using get_vec_keeps [OF assms, of i] by simp
  qed
  then show ?thesis by (auto simp: postR_iff)
qed

lemma visit_neighbour_keeps:
  assumes "h_vec_accessor h = Some acc" and "case b of (_, _, ctx) \<Rightarrow> P (vis_env ctx)"
  shows "postR (visit_neighbour h query ef nb b) (\<lambda>(_, _, ctx). P (vis_env ctx))"
proof -
  obtain cands results ctx where b: "b = (cands, results, ctx)" by (cases b)
  have "P (vis_env ctx')" if run: "visit_neighbour h query ef nb b = Inr (c', r', ctx')" for c' r' ctx'
  proof (cases "vis_at ctx nb = vis_tag ctx")
    case True
    then show ?thesis using run assms(2)
      by (auto simp: b visit_neighbour_def is_visited_def bindR_Inr_iff split: if_splits)
  next
    case False
    let ?ctx = "ctx\<lparr>vis_at := (vis_at ctx)(nb := vis_tag ctx)\<rparr>"
    have "\<exists>sim. similarity_to h query nb ?ctx = Inr (sim, ctx')"
      using run False
      by (auto simp: b visit_neighbour_def is_visited_def mark_visited_def bindR_Inr_iff split: if_splits)
    then show ?thesis using similarity_to_keeps [OF assms(1), of ?ctx query nb] assms(2) b by auto
  qed
  then show ?thesis by (auto simp: postR_iff)
qed

lemma search_loop_keeps:
  assumes "h_vec_accessor h = Some acc" and "case b of (_, _, ctx) \<Rightarrow> P (vis_env ctx)"
  shows "postR (search_loop h query ef layer b) (\<lambda>(_, ctx). P (vis_env ctx))"
  using assms(2)
proof (induction "beam_work b" arbitrary: b rule: less_induct)
  case less
  obtain cands results ctx where b: "b = (cands, results, ctx)" by (cases b)
  show ?case
  proof (cases cands)
    case Nil
    then show ?thesis using less.prems b by (simp add: search_loop.simps)
  next
    case (Cons p rest)
    obtain neg c where p: "p = (neg, c)" by (cases p)
    have "postR (search_loop h query ef layer b') (\<lambda>(_, ctx). P (vis_env ctx))"
      if run: "foldR (visit_neighbour h query ef) nbs (rest, results, ctx) = Inr b'" for nbs b'
    proof (rule less.hyps)
      show "beam_work b' < beam_work b"
        using visit_neighbours_work [OF run] by (simp add: beam_work_def b Cons)
      have "postR (foldR (visit_neighbour h query ef) nbs (rest, results, ctx)) (\<lambda>(_, _, ctx). P (vis_env ctx))"
        using less.prems b by (intro postR_foldR visit_neighbour_keeps [OF assms(1)]) auto
      then show "case b' of (_, _, ctx) \<Rightarrow> P (vis_env ctx)" using run by simp
    qed
    then show ?thesis
      using less.prems b Cons p by (subst search_loop.simps) (auto simp: postR_iff bindR_Inr_iff)
  qed
qed

lemma search_layer_keeps:
  assumes "h_vec_accessor h = Some acc" and "P (vis_env ctx)"
  shows "postR (search_layer srt h query ep ef layer ctx) (\<lambda>(_, ctx'). P (vis_env ctx'))"
proof -
  have "P (vis_env (begin_visit (h_num_vectors h) ctx))"
    using assms(2) by (simp add: begin_visit_def Let_def)
  then have sim: "postR (similarity_to h query ep (begin_visit (h_num_vectors h) ctx)) (\<lambda>(_, c). P (vis_env c))"
    by (rule similarity_to_keeps [OF assms(1)])
  have loop: "P (vis_env ctx')" if "search_loop h query ef layer (cs, rs, c\<lparr>vis_at := m\<rparr>) = Inr (r', ctx')"
      and "P (vis_env c)" for cs rs c m r' ctx'
    using search_loop_keeps [OF assms(1), of "(cs, rs, c\<lparr>vis_at := m\<rparr>)" query ef layer] that by simp
  show ?thesis
    unfolding postR_iff
  proof (intro allI impI)
    fix r
    assume "search_layer srt h query ep ef layer ctx = Inr r"
    then show "case r of (_, ctx') \<Rightarrow> P (vis_env ctx')"
      using sim loop by (fastforce simp: search_layer_def Let_def bindR_Inr_iff mark_visited_def split: if_splits)
  qed
qed

lemma descend_keeps:
  assumes "h_vec_accessor h = Some acc" and "case s of (_, ctx) \<Rightarrow> P (vis_env ctx)"
  shows "postR (descend srt h query lc s) (\<lambda>(_, ctx). P (vis_env ctx))"
proof -
  obtain ep ctx where s: "s = (ep, ctx)" by (cases s)
  show ?thesis
    using search_layer_keeps [OF assms(1), of ctx srt query ep 1 lc] assms(2)
    by (auto simp: s descend_def elim!: postR_mono)
qed

lemma search_keeps:
  assumes "h_vec_accessor h = Some acc" and "P (vis_env ctx)"
  shows "postR (hnsw_search srt h query k ctx) (\<lambda>(_, ctx'). P (vis_env ctx'))"
proof -
  have down: "postR (foldR (descend srt h query) (rev [1..h_max_layer h]) (ep, ctx)) (\<lambda>(_, ctx). P (vis_env ctx))" for ep
    using assms(2) by (intro postR_foldR descend_keeps [OF assms(1)]) auto
  have "P (vis_env ctx')" if run: "hnsw_search srt h query k ctx = Inr (rs, ctx')" for rs ctx'
  proof (cases "ctx' = ctx")
    case False
    then obtain ep e c cands where
      "foldR (descend srt h query) (rev [1..h_max_layer h]) (ep, ctx) = Inr (e, c)"
      "search_layer srt h query e (cfg_ef_search (h_cfg h)) 0 c = Inr (cands, ctx')"
      using run by (auto simp: hnsw_search_def bindR_Inr_iff split: if_splits option.splits)
    then show ?thesis
      using down [of ep] search_layer_keeps [OF assms(1), of c srt query e "cfg_ef_search (h_cfg h)" 0] by simp
  qed (use assms(2) in simp)
  then show ?thesis by (auto simp: postR_iff)
qed

lemma score_link_keeps:
  assumes "h_vec_accessor h = Some acc" and "case s of (_, e) \<Rightarrow> P e"
  shows "postR (score_link h nb_vec x s) (\<lambda>(_, e). P e)"
proof -
  obtain cands e where s: "s = (cands, e)" by (cases s)
  show ?thesis
    using get_vec_keeps [OF assms(1), of e x] assms(2)
    by (auto simp: s score_link_def postR_iff bindR_Inr_iff)
qed

lemma link_back_keeps:
  assumes "case s of (h, ctx) \<Rightarrow> h_vec_accessor h = Some acc \<and> P (vis_env ctx)"
  shows "postR (link_back srt q lc nb s) (\<lambda>(h, ctx). h_vec_accessor h = Some acc \<and> P (vis_env ctx))"
proof -
  obtain h ctx where s: "s = (h, ctx)" by (cases s)
  have acc: "h_vec_accessor h = Some acc" and env: "P (vis_env ctx)" using assms s by simp_all
  have scored: "P e'" if "get_vec h nb (vis_env ctx) = Inr (ptr, e)"
      "foldR (score_link h ptr) links ([], e) = Inr (cands, e')" for ptr e links cands e'
  proof -
    have "P e" using get_vec_keeps [OF acc env, of nb] that(1) by simp
    then have "postR (foldR (score_link h ptr) links ([], e)) (\<lambda>(_, e). P e)"
      by (intro postR_foldR score_link_keeps [OF acc]) auto
    then show ?thesis using that(2) by simp
  qed
  show ?thesis
    unfolding s link_back_def prod.case Let_def
    by (intro postR_bind_any)
      (auto simp: postR_iff bindR_Inr_iff acc env elim: scored)
qed

lemma connect_layer_keeps:
  assumes "case s of (h, ep, ctx) \<Rightarrow> h_vec_accessor h = Some acc \<and> P (vis_env ctx)"
  shows "postR (connect_layer srt vec q lc s) (\<lambda>(h, ep, ctx). h_vec_accessor h = Some acc \<and> P (vis_env ctx))"
proof -
  obtain h ep ctx where s: "s = (h, ep, ctx)" by (cases s)
  have acc: "h_vec_accessor h = Some acc" and env: "P (vis_env ctx)" using assms s by simp_all
  show ?thesis
    unfolding postR_iff
  proof (intro allI impI)
    fix r
    assume "connect_layer srt vec q lc s = Inr r"
    then obtain cands c nbs h1 h2 c2 where
      layer: "search_layer srt h vec ep (max (cfg_ef_construction (h_cfg h)) (cfg_M (h_cfg h))) lc ctx = Inr (cands, c)"
      and links: "set_links q lc nbs h = Inr h1"
      and linked: "foldR (link_back srt q lc) nbs (h1, c) = Inr (h2, c2)"
      and r: "fst r = h2" "snd (snd r) = c2"
      by (auto simp: s connect_layer_def Let_def bindR_Inr_iff)
    have "P (vis_env c)" using search_layer_keeps [OF acc env] layer by (fastforce simp: postR_iff)
    moreover have "h_vec_accessor h1 = Some acc" using links acc by (auto simp: set_links_def bindR_Inr_iff)
    ultimately have "postR (foldR (link_back srt q lc) nbs (h1, c)) (\<lambda>(h, ctx). h_vec_accessor h = Some acc \<and> P (vis_env ctx))"
      by (intro postR_foldR link_back_keeps) auto
    then show "case r of (h, ep, ctx) \<Rightarrow> h_vec_accessor h = Some acc \<and> P (vis_env ctx)"
      using linked r by (cases r) auto
  qed
qed

lemma insert_keeps:
  assumes "h_vec_accessor h = Some acc" and "P (vis_env ctx)"
  shows "postR (hnsw_insert srt logf val i vec meta (h, ctx)) (\<lambda>(_, ctx'). P (vis_env ctx'))"
  unfolding postR_iff
proof (intro allI impI)
  fix r
  assume run: "hnsw_insert srt logf val i vec meta (h, ctx) = Inr r"
  obtain level h1 where "random_layer logf val (h_mL h) = Inr level"
    and slot: "new_slot i vec meta level h = Inr h1"
    using run by (auto simp: hnsw_insert_def Let_def bindR_Inr_iff)
  note level = this(1)
  have acc: "h_vec_accessor h1 = Some acc" using slot assms(1) by (auto simp: new_slot_def bindR_Inr_iff)
  show "case r of (_, ctx') \<Rightarrow> P (vis_env ctx')"
  proof (cases "h_num_vectors h mod 2 ^ 32 = 0")
    case True
    then show ?thesis using run level slot assms(2) by (auto simp: hnsw_insert_def)
  next
    case False
    let ?q = "h_num_vectors h mod 2 ^ 32" and ?cur = "h_max_layer h1"
    obtain ep c h2 ep2 c2 where
      down: "foldR (descend srt h1 vec) (rev [level + 1..?cur]) (h_entry_point h1, ctx) = Inr (ep, c)"
      and up: "foldR (connect_layer srt vec ?q) (rev [0..min level ?cur]) (h1, ep, c) = Inr (h2, ep2, c2)"
      and r: "snd r = c2"
      using run level slot False by (auto simp: hnsw_insert_def Let_def bindR_Inr_iff)
    have "postR (foldR (descend srt h1 vec) (rev [level + 1..?cur]) (h_entry_point h1, ctx)) (\<lambda>(_, c). P (vis_env c))"
      using assms(2) by (intro postR_foldR descend_keeps [OF acc]) auto
    then have "P (vis_env c)" using down by simp
    then have "postR (foldR (connect_layer srt vec ?q) (rev [0..min level ?cur]) (h1, ep, c))
        (\<lambda>(h, ep, ctx). h_vec_accessor h = Some acc \<and> P (vis_env ctx))"
      using acc by (intro postR_foldR connect_layer_keeps) auto
    then show ?thesis using up r by (cases r) auto
  qed
qed

end

end
