(* ===== verification/Paged_Store.thy ===== *)
theory Paged_Store
  imports Byte_Codec
begin

text \<open>
  \<open>PagedVectorStore\<close> (\<open>src/include/paged_index.hpp\<close>, \<open>src/src/paged_index.cpp\<close>, the branch
  for POSIX): vectors in a file of 4096-byte pages, an 8-byte header and then as many whole
  vectors as fit, and a cache of mapped pages with least-recently-used eviction.

  Mappings are objects of the address space with an identity, so that a pointer into a page is
  dead once its mapping is unmapped or freed, even when the page is mapped again.  System calls
  other than \<open>open\<close> succeed; a map of a page shows the file, which no other process changes.
\<close>

section \<open>State\<close>

definition page_size :: nat where
  "page_size = 4096"

text \<open>What a mapping holds: a page of the file at an offset, or a zeroed heap block.\<close>

datatype page_memory = File_Page nat | Zero_Block

record paged_store =
  ps_path :: string
  ps_dim :: nat
  ps_per_page :: nat
  ps_max_cached :: nat
  ps_n_vectors :: nat
  ps_lru :: "nat list"
  ps_cache :: "(nat \<times> nat) list"
  ps_maps :: "nat \<Rightarrow> page_memory option"
  ps_next_map :: nat

text \<open>
  \<open>ps_lru\<close> lists page ids, most recently used first; \<open>ps_cache\<close> gives the mapping of a cached
  page; \<open>ps_maps\<close> are the live mappings and \<open>ps_next_map\<close> is a fresh address.
\<close>

type_synonym paged_env = "paged_store \<times> filesys"

definition file_content :: "filesys \<Rightarrow> string \<Rightarrow> byte list" where
  "file_content fs path = (case fs_files fs path of None \<Rightarrow> [] | Some c \<Rightarrow> c)"

section \<open>Opening\<close>

text \<open>The division by the size of a vector; \<open>dim * sizeof(float)\<close> is a \<open>size_t\<close>.\<close>

definition vectors_per_page :: "nat \<Rightarrow> nat res" where
  "vectors_per_page n =
     (let usable = page_size - 8; bytes = n * 4 mod 2 ^ 64 in
      bindR (guardR (bytes \<noteq> 0) Undefined_Behaviour) (\<lambda>_.
      bindR (guardR (usable div bytes \<noteq> 0)
        (Invalid_Argument ''PagedVectorStore: dim too large for 4KB pages'')) (\<lambda>_.
      Inr (usable div bytes))))"

definition open_rdwr_creat :: "filesys \<Rightarrow> string \<Rightarrow> filesys option" where
  "open_rdwr_creat fs path =
     (if fs_refused fs path then None
      else Some (fs\<lparr>fs_files := (fs_files fs)(path \<mapsto> file_content fs path)\<rparr>))"

definition pages_on_disk :: "filesys \<Rightarrow> string \<Rightarrow> nat" where
  "pages_on_disk fs path = length (file_content fs path) div page_size"

definition paged_open :: "string \<Rightarrow> nat \<Rightarrow> nat \<Rightarrow> filesys \<Rightarrow> paged_env res" where
  "paged_open path n cache_bytes fs =
     bindR (vectors_per_page n) (\<lambda>per_page.
     case open_rdwr_creat fs path of
       None \<Rightarrow> Inl (Runtime_Error (''PagedVectorStore: cannot open '' @ path))
     | Some fs \<Rightarrow>
         Inr (\<lparr>ps_path = path, ps_dim = n, ps_per_page = per_page,
               ps_max_cached = max 1 (cache_bytes div page_size),
               ps_n_vectors = pages_on_disk fs path * per_page, ps_lru = [], ps_cache = [],
               ps_maps = Map.empty, ps_next_map = 0\<rparr>, fs))"

definition paged_count :: "paged_store \<Rightarrow> nat" where
  "paged_count st = ps_n_vectors st"

section \<open>Mappings\<close>

text \<open>\<open>mmap\<close> or \<open>calloc\<close>: a mapping at a fresh address.\<close>

definition map_new :: "page_memory \<Rightarrow> paged_store \<Rightarrow> nat \<times> paged_store" where
  "map_new m st = (ps_next_map st,
     st\<lparr>ps_maps := (ps_maps st)(ps_next_map st \<mapsto> m), ps_next_map := Suc (ps_next_map st)\<rparr>)"

text \<open>
  \<open>munmap(mapping, mapped_len)\<close>: the length of a heap block is recorded as 0, with which the
  call fails and the block stays.
\<close>

definition unmap :: "nat \<Rightarrow> paged_store \<Rightarrow> paged_store" where
  "unmap a st =
     (case ps_maps st a of
        Some (File_Page _) \<Rightarrow> st\<lparr>ps_maps := (ps_maps st)(a := None)\<rparr>
      | _ \<Rightarrow> st)"

text \<open>\<open>munmap\<close> for a file page, \<open>free\<close> for a heap block.\<close>

definition release :: "nat \<Rightarrow> paged_store \<Rightarrow> paged_store" where
  "release a st = st\<lparr>ps_maps := (ps_maps st)(a := None)\<rparr>"

definition cache_erase :: "nat \<Rightarrow> (nat \<times> nat) list \<Rightarrow> (nat \<times> nat) list" where
  "cache_erase p c = filter (\<lambda>e. fst e \<noteq> p) c"

section \<open>Push\<close>

text \<open>Writing at an offset: a gap before it is filled with zeros.\<close>

definition splice :: "nat \<Rightarrow> byte list \<Rightarrow> byte list \<Rightarrow> byte list" where
  "splice off bs c = take off c @ replicate (off - length c) 0 @ bs @ drop (off + length bs) c"

definition pwrite :: "string \<Rightarrow> byte list \<Rightarrow> nat \<Rightarrow> filesys \<Rightarrow> filesys" where
  "pwrite path bs off fs =
     fs\<lparr>fs_files := (fs_files fs)(path \<mapsto> splice off bs (file_content fs path))\<rparr>"

text \<open>Where a slot lies: its page, its place in the page, and the offset of its vector.\<close>

definition slot_page :: "paged_store \<Rightarrow> nat \<Rightarrow> nat" where
  "slot_page st slot = slot div ps_per_page st"

definition slot_in_page :: "paged_store \<Rightarrow> nat \<Rightarrow> nat" where
  "slot_in_page st slot = slot mod ps_per_page st"

definition vec_offset_in_page :: "paged_store \<Rightarrow> nat \<Rightarrow> nat" where
  "vec_offset_in_page st slot = 8 + slot_in_page st slot * ps_dim st * 4"

definition push_write :: "paged_store \<Rightarrow> nat \<Rightarrow> f32 list \<Rightarrow> filesys \<Rightarrow> filesys" where
  "push_write st slot v fs =
     (let page_offset = slot_page st slot * page_size;
          fs = pwrite (ps_path st) (f32s_bytes v) (page_offset + vec_offset_in_page st slot) fs
      in if slot_in_page st slot = 0
         then pwrite (ps_path st) (le32 (u32 (slot_page st slot))) page_offset fs
         else fs)"

definition push_invalidate :: "nat \<Rightarrow> paged_store \<Rightarrow> paged_store" where
  "push_invalidate p st =
     (case map_of (ps_cache st) p of
        None \<Rightarrow> st
      | Some a \<Rightarrow>
          (unmap a st)\<lparr>ps_lru := remove1 p (ps_lru st), ps_cache := cache_erase p (ps_cache st)\<rparr>)"

definition paged_push :: "f32 list \<Rightarrow> paged_env \<Rightarrow> (nat \<times> paged_env) res" where
  "paged_push vec = (\<lambda>(st, fs).
     let slot = ps_n_vectors st mod 2 ^ 32;
         st = st\<lparr>ps_n_vectors := Suc (ps_n_vectors st)\<rparr> in
     bindR (slice_r vec 0 (ps_dim st)) (\<lambda>v.
     Inr (slot, push_invalidate (slot_page st slot) st, push_write st slot v fs)))"

section \<open>Get\<close>

definition evict_lru :: "paged_store \<Rightarrow> paged_store" where
  "evict_lru st =
     (if ps_lru st = [] then st
      else
        let evict_id = last (ps_lru st);
            st = st\<lparr>ps_lru := butlast (ps_lru st)\<rparr> in
        case map_of (ps_cache st) evict_id of
          None \<Rightarrow> st
        | Some a \<Rightarrow> (release a st)\<lparr>ps_cache := cache_erase evict_id (ps_cache st)\<rparr>)"

text \<open>A page that the file does not hold completely counts as not existing yet.\<close>

definition page_complete :: "filesys \<Rightarrow> string \<Rightarrow> nat \<Rightarrow> bool" where
  "page_complete fs path p = (p * page_size + page_size \<le> length (file_content fs path))"

definition load_page :: "nat \<Rightarrow> paged_env \<Rightarrow> paged_store" where
  "load_page p = (\<lambda>(st, fs).
     let st = (if ps_max_cached st \<le> length (ps_cache st) then evict_lru st else st);
         mem = (if page_complete fs (ps_path st) p then File_Page (p * page_size) else Zero_Block) in
     case map_new mem st of (a, st) \<Rightarrow>
       st\<lparr>ps_lru := p # ps_lru st, ps_cache := (p, a) # ps_cache st\<rparr>)"

text \<open>Making a page the most recently used one.\<close>

definition touch_page :: "nat \<Rightarrow> paged_env \<Rightarrow> paged_store" where
  "touch_page p = (\<lambda>(st, fs).
     case map_of (ps_cache st) p of
       None \<Rightarrow> load_page p (st, fs)
     | Some a \<Rightarrow> st\<lparr>ps_lru := p # remove1 p (ps_lru st)\<rparr>)"

text \<open>
  Reading through a pointer to the byte \<open>pos\<close> of the mapping at \<open>a\<close>: the floats up to the end
  of the page.  A dead mapping, or a file that has become too short, is undefined behaviour.
\<close>

definition page_floats :: "nat \<Rightarrow> nat \<Rightarrow> paged_env \<Rightarrow> f32 list res" where
  "page_floats a pos = (\<lambda>(st, fs).
     let n = (page_size - pos) div 4 in
     case ps_maps st a of
       None \<Rightarrow> Inl Undefined_Behaviour
     | Some Zero_Block \<Rightarrow> Inr (replicate n 0)
     | Some (File_Page off) \<Rightarrow>
         bindR (slice_r (file_content fs (ps_path st)) (off + pos) (4 * n)) (\<lambda>bs.
         Inr (f32s_of_bytes n bs)))"

definition paged_get ::
    "nat \<Rightarrow> paged_env \<Rightarrow> ((paged_env \<Rightarrow> f32 list res) \<times> paged_env) res" where
  "paged_get slot = (\<lambda>(st, fs).
     let p = slot_page st slot;
         st' = touch_page p (st, fs) in
     case map_of (ps_cache st') p of
       None \<Rightarrow> Inl Undefined_Behaviour
     | Some a \<Rightarrow> Inr (page_floats a (vec_offset_in_page st slot), (st', fs)))"

section \<open>Closing\<close>

text \<open>The destructor unmaps the cached pages, with the same call for heap blocks.\<close>

definition paged_close :: "paged_store \<Rightarrow> paged_store" where
  "paged_close st = fold (\<lambda>e st. unmap (snd e) st) (ps_cache st) st"

section \<open>The file\<close>

lemma length_splice [simp]: "length (splice off bs c) = max (length c) (off + length bs)"
  by (auto simp: splice_def)

lemma slice_splice_same: "take (length bs) (drop off (splice off bs c)) = bs"
  by (simp add: splice_def)

lemma slice_splice_other:
  assumes "k + n \<le> length c" and "k + n \<le> off \<or> off + length bs \<le> k"
  shows "take n (drop k (splice off bs c)) = take n (drop k c)"
proof (rule nth_equalityI)
  show "length (take n (drop k (splice off bs c))) = length (take n (drop k c))"
    using assms(1) by simp
next
  fix i
  assume "i < length (take n (drop k (splice off bs c)))"
  then have i: "i < n" by simp
  have "splice off bs c ! (k + i) = c ! (k + i)"
    using assms i by (auto simp: splice_def nth_append)
  then show "take n (drop k (splice off bs c)) ! i = take n (drop k c) ! i"
    using i assms(1) by simp
qed

lemma file_content_pwrite [simp]:
  "file_content (pwrite path bs off fs) path = splice off bs (file_content fs path)"
  by (simp add: pwrite_def file_content_def)

text \<open>The layout: at least one vector per page, and the page holds them.\<close>

definition layout_ok :: "paged_store \<Rightarrow> bool" where
  "layout_ok st \<longleftrightarrow> 0 < ps_per_page st \<and> 0 < ps_dim st \<and> 8 + ps_per_page st * ps_dim st * 4 \<le> page_size"

definition slot_offset :: "paged_store \<Rightarrow> nat \<Rightarrow> nat" where
  "slot_offset st i = slot_page st i * page_size + vec_offset_in_page st i"

lemma slot_in_page_less: "layout_ok st \<Longrightarrow> slot_in_page st i < ps_per_page st"
  by (simp add: layout_ok_def slot_in_page_def)

lemma vec_offset_bound:
  assumes "layout_ok st"
  shows "vec_offset_in_page st i + 4 * ps_dim st \<le> page_size"
proof -
  have "Suc (slot_in_page st i) * (ps_dim st * 4) \<le> ps_per_page st * (ps_dim st * 4)"
    using slot_in_page_less [OF assms, of i] by (intro mult_le_mono1) simp
  then show ?thesis using assms by (simp add: layout_ok_def vec_offset_in_page_def algebra_simps)
qed

lemma slot_offsets_apart:
  assumes ok: "layout_ok st" and "i < j"
  shows "slot_offset st i + 4 * ps_dim st \<le> slot_offset st j"
    and "slot_offset st i + 4 * ps_dim st \<le> slot_page st j * page_size
      \<or> slot_page st j * page_size + 8 \<le> slot_offset st i"
proof -
  have "slot_page st i \<le> slot_page st j" using assms(2) by (simp add: slot_page_def div_le_mono)
  then consider (same) "slot_page st i = slot_page st j" | (less) "Suc (slot_page st i) \<le> slot_page st j"
    by linarith
  note pages = this
  have far: "slot_offset st i + 4 * ps_dim st \<le> slot_page st j * page_size"
    if "Suc (slot_page st i) \<le> slot_page st j"
    using mult_le_mono1 [OF that, of page_size] vec_offset_bound [OF ok, of i]
    by (simp add: slot_offset_def)
  have near: "slot_offset st i + 4 * ps_dim st \<le> slot_offset st j" if "slot_page st i = slot_page st j"
  proof -
    have "slot_in_page st i < slot_in_page st j"
      using that assms(2) unfolding slot_page_def slot_in_page_def
      by (metis add_less_cancel_left div_mult_mod_eq)
    then have "Suc (slot_in_page st i) * (ps_dim st * 4) \<le> slot_in_page st j * (ps_dim st * 4)"
      by (intro mult_le_mono1) simp
    then show ?thesis using that by (simp add: slot_offset_def vec_offset_in_page_def algebra_simps)
  qed
  show "slot_offset st i + 4 * ps_dim st \<le> slot_offset st j"
    using pages
  proof cases
    case less
    then show ?thesis using far by (simp add: slot_offset_def)
  qed (rule near)
  show "slot_offset st i + 4 * ps_dim st \<le> slot_page st j * page_size
      \<or> slot_page st j * page_size + 8 \<le> slot_offset st i"
    using pages far by cases (simp_all add: slot_offset_def vec_offset_in_page_def)
qed

lemma slot_n_vectors [simp]:
  "slot_offset (st\<lparr>ps_n_vectors := n\<rparr>) i = slot_offset st i"
  "slot_page (st\<lparr>ps_n_vectors := n\<rparr>) i = slot_page st i"
  "layout_ok (st\<lparr>ps_n_vectors := n\<rparr>) = layout_ok st"
  by (simp_all add: slot_offset_def slot_page_def vec_offset_in_page_def slot_in_page_def layout_ok_def)

text \<open>The file holds the vectors \<open>vs\<close>, and nothing after the last one.\<close>

definition disk_holds :: "paged_env \<Rightarrow> f32 list list \<Rightarrow> bool" where
  "disk_holds = (\<lambda>(st, fs) vs.
     let c = file_content fs (ps_path st) in
     ps_n_vectors st = length vs \<and> (\<forall>v\<in>set vs. length v = ps_dim st)
     \<and> length c = (if vs = [] then 0 else slot_offset st (length vs - 1) + 4 * ps_dim st)
     \<and> (\<forall>i<length vs. take (4 * ps_dim st) (drop (slot_offset st i) c) = f32s_bytes (vs ! i)))"

definition same_layout :: "paged_store \<Rightarrow> paged_store \<Rightarrow> bool" where
  "same_layout st st' \<longleftrightarrow> ps_path st' = ps_path st \<and> ps_dim st' = ps_dim st
     \<and> ps_per_page st' = ps_per_page st \<and> ps_max_cached st' = ps_max_cached st"

lemma same_layout_slots:
  assumes "same_layout st st'"
  shows "slot_offset st' i = slot_offset st i" and "slot_page st' i = slot_page st i"
    and "vec_offset_in_page st' i = vec_offset_in_page st i" and "layout_ok st' = layout_ok st"
  using assms by (simp_all add: same_layout_def slot_offset_def slot_page_def vec_offset_in_page_def
      slot_in_page_def layout_ok_def)

lemma disk_holds_layout:
  "same_layout st st' \<Longrightarrow> ps_n_vectors st' = ps_n_vectors st \<Longrightarrow> disk_holds (st', fs) vs = disk_holds (st, fs) vs"
  by (simp add: disk_holds_def same_layout_slots) (simp add: same_layout_def)

lemma disk_end:
  "disk_holds (st, fs) vs \<Longrightarrow> length (file_content fs (ps_path st))
    = (if vs = [] then 0 else slot_offset st (length vs - 1) + 4 * ps_dim st)"
  by (simp add: disk_holds_def Let_def)

lemma disk_length:
  assumes "disk_holds (st, fs) vs" and "layout_ok st" and "i < length vs"
  shows "slot_offset st i + 4 * ps_dim st \<le> length (file_content fs (ps_path st))"
proof (cases "i = length vs - 1")
  case False
  then have "i < length vs - 1" using assms(3) by linarith
  then have "slot_offset st i \<le> slot_offset st (length vs - 1)"
    using slot_offsets_apart(1) [OF assms(2)] by fastforce
  then show ?thesis using disk_end [OF assms(1)] assms(3) by auto
next
  case True
  then show ?thesis using disk_end [OF assms(1)] assms(3) by auto
qed

lemma push_write_holds:
  assumes disk: "disk_holds (st, fs) vs" and ok: "layout_ok st" and v: "length v = ps_dim st"
  shows "disk_holds (st\<lparr>ps_n_vectors := Suc (ps_n_vectors st)\<rparr>, push_write st (length vs) v fs) (vs @ [v])"
proof -
  let ?n = "length vs" and ?c = "file_content fs (ps_path st)" and ?d = "4 * ps_dim st"
  let ?o = "slot_offset st ?n" and ?p = "slot_page st ?n * page_size"
  let ?c1 = "splice ?o (f32s_bytes v) ?c"
  let ?c2 = "file_content (push_write st ?n v fs) (ps_path st)"
  have c2: "?c2 = (if slot_in_page st ?n = 0 then splice ?p (le32 (u32 (slot_page st ?n))) ?c1 else ?c1)"
    by (simp add: push_write_def Let_def slot_offset_def)
  have old: "slot_offset st i + ?d \<le> length ?c" if "i < ?n" for i
    using disk_length [OF disk ok that] .
  have len: "length ?c \<le> ?o"
  proof (cases "vs = []")
    case False
    then have "length ?c = slot_offset st (?n - 1) + ?d" using disk_end [OF disk] by simp
    then show ?thesis using slot_offsets_apart(1) [OF ok, of "?n - 1" ?n] False by simp
  qed (use disk_end [OF disk] in simp)
  have head: "?p + 8 \<le> ?o" by (simp add: slot_offset_def vec_offset_in_page_def)
  have len2: "length ?c2 = ?o + ?d" using len head v by (auto simp: c2)
  have new: "take ?d (drop ?o ?c2) = f32s_bytes v"
  proof -
    have "take ?d (drop ?o ?c1) = f32s_bytes v" using slice_splice_same [of "f32s_bytes v" ?o ?c] v by simp
    moreover have "take ?d (drop ?o ?c2) = take ?d (drop ?o ?c1)"
      using head v slice_splice_other [of ?o ?d ?c1 ?p "le32 (u32 (slot_page st ?n))"] by (simp add: c2)
    ultimately show ?thesis by simp
  qed
  have kept: "take ?d (drop (slot_offset st i) ?c2) = f32s_bytes (vs ! i)" if i: "i < ?n" for i
  proof -
    have apart: "slot_offset st i + ?d \<le> ?o" "slot_offset st i + ?d \<le> ?p \<or> ?p + 8 \<le> slot_offset st i"
      using slot_offsets_apart [OF ok i] by blast+
    have "take ?d (drop (slot_offset st i) ?c1) = take ?d (drop (slot_offset st i) ?c)"
      using slice_splice_other [OF old [OF i], of ?o] apart(1) by simp
    moreover have "take ?d (drop (slot_offset st i) ?c2) = take ?d (drop (slot_offset st i) ?c1)"
      using slice_splice_other [of "slot_offset st i" ?d ?c1 ?p "le32 (u32 (slot_page st ?n))"] apart old [OF i]
      by (auto simp: c2)
    moreover have "take ?d (drop (slot_offset st i) ?c) = f32s_bytes (vs ! i)"
      using disk i by (simp add: disk_holds_def Let_def)
    ultimately show ?thesis by simp
  qed
  have "take ?d (drop (slot_offset st i) ?c2) = f32s_bytes ((vs @ [v]) ! i)" if "i < Suc ?n" for i
    using that new kept by (cases "i = ?n") (auto simp: nth_append)
  then show ?thesis
    using disk len2 v by (auto simp: disk_holds_def Let_def)
qed

section \<open>The cache\<close>

text \<open>
  Every cached page has a place in the order of use and a live mapping of its own, and there
  are no more than the cache may hold.
\<close>

definition cache_wf :: "paged_store \<Rightarrow> bool" where
  "cache_wf st \<longleftrightarrow>
     distinct (ps_lru st) \<and> distinct (map fst (ps_cache st)) \<and> distinct (map snd (ps_cache st))
     \<and> set (ps_lru st) = fst ` set (ps_cache st)
     \<and> 1 \<le> ps_max_cached st \<and> length (ps_cache st) \<le> ps_max_cached st
     \<and> (\<forall>(p, a)\<in>set (ps_cache st). a < ps_next_map st
          \<and> (ps_maps st a = Some Zero_Block \<or> ps_maps st a = Some (File_Page (p * page_size))))"

text \<open>Mapped pages lie within the file.\<close>

definition paged_ok :: "paged_env \<Rightarrow> bool" where
  "paged_ok = (\<lambda>(st, fs). layout_ok st \<and> cache_wf st
     \<and> (\<forall>(p, a)\<in>set (ps_cache st). ps_maps st a \<noteq> Some Zero_Block \<longrightarrow> page_complete fs (ps_path st) p))"

text \<open>No page is cached as zeros although the file holds it by now.\<close>

definition not_stale :: "paged_env \<Rightarrow> bool" where
  "not_stale = (\<lambda>(st, fs).
     \<forall>(p, a)\<in>set (ps_cache st). ps_maps st a = Some Zero_Block \<longrightarrow> \<not> page_complete fs (ps_path st) p)"

lemma cached_unique:
  "cache_wf st \<Longrightarrow> (p, a) \<in> set (ps_cache st) \<Longrightarrow> map_of (ps_cache st) p = Some a"
  by (simp add: cache_wf_def)

lemma length_cache_erase:
  "distinct (map fst c) \<Longrightarrow> p \<in> fst ` set c \<Longrightarrow> Suc (length (cache_erase p c)) = length c"
proof (induction c)
  case (Cons e c)
  show ?case
  proof (cases "fst e = p")
    case True
    then have "p \<notin> fst ` set c" using Cons.prems by auto
    then have "cache_erase p c = c" unfolding cache_erase_def filter_id_conv by force
    then show ?thesis using True by (simp add: cache_erase_def)
  next
    case False
    then show ?thesis using Cons by (auto simp: cache_erase_def)
  qed
qed simp

lemma set_cache_erase [simp]: "set (cache_erase p c) = {e \<in> set c. fst e \<noteq> p}"
  by (auto simp: cache_erase_def)

lemma distinct_cache_erase: "distinct (map f c) \<Longrightarrow> distinct (map f (cache_erase p c))"
  by (simp add: cache_erase_def distinct_map_filter)

lemma mapping_unique: "distinct (map snd c) \<Longrightarrow> (p, a) \<in> set c \<Longrightarrow> (q, a) \<in> set c \<Longrightarrow> q = p"
  using inj_onD [of snd "set c" "(p, a)" "(q, a)"] by (simp add: distinct_map)

lemma cache_wf_entry:
  "cache_wf st \<Longrightarrow> (p, a) \<in> set (ps_cache st) \<Longrightarrow> a < ps_next_map st
    \<and> (ps_maps st a = Some Zero_Block \<or> ps_maps st a = Some (File_Page (p * page_size)))"
  by (auto simp: cache_wf_def)

text \<open>Taking one page out of the cache, and unmapping it.\<close>

lemma cache_wf_remove:
  assumes wf: "cache_wf st" and p: "(p, a) \<in> set (ps_cache st)"
    and maps: "\<And>b. b \<noteq> a \<Longrightarrow> m b = ps_maps st b" and lru: "set lru = set (ps_lru st) - {p}" "distinct lru"
  shows "cache_wf (st\<lparr>ps_lru := lru, ps_cache := cache_erase p (ps_cache st), ps_maps := m\<rparr>)"
    and "(q, b) \<in> set (cache_erase p (ps_cache st)) \<Longrightarrow> m b = ps_maps st b"
    and "Suc (length (cache_erase p (ps_cache st))) = length (ps_cache st)"
proof -
  have dist: "distinct (map snd (ps_cache st))" "distinct (map fst (ps_cache st))"
    using wf by (simp_all add: cache_wf_def)
  have other: "b \<noteq> a" if "(q, b) \<in> set (cache_erase p (ps_cache st))" for q b
    using that p mapping_unique [OF dist(1), of p a q] by auto
  show kept: "m b = ps_maps st b" if "(q, b) \<in> set (cache_erase p (ps_cache st))" for q b
    using maps other that by blast
  have "p \<in> fst ` set (ps_cache st)" using p by force
  with dist(2) show len: "Suc (length (cache_erase p (ps_cache st))) = length (ps_cache st)"
    by (rule length_cache_erase)
  show "cache_wf (st\<lparr>ps_lru := lru, ps_cache := cache_erase p (ps_cache st), ps_maps := m\<rparr>)"
  proof -
    have "set lru = fst ` {e \<in> set (ps_cache st). fst e \<noteq> p}"
      using wf lru(1) by (auto simp: cache_wf_def)
    moreover have "\<forall>(q, b)\<in>{e \<in> set (ps_cache st). fst e \<noteq> p}. b < ps_next_map st
        \<and> (m b = Some Zero_Block \<or> m b = Some (File_Page (q * page_size)))"
      using cache_wf_entry [OF wf] kept by auto
    moreover have "length (cache_erase p (ps_cache st)) \<le> ps_max_cached st" "1 \<le> ps_max_cached st"
      using wf len by (simp_all add: cache_wf_def)
    ultimately show ?thesis
      unfolding cache_wf_def using lru(2) dist by (simp add: distinct_cache_erase)
  qed
qed

lemma evict_lru_spec:
  assumes wf: "cache_wf st" and full: "ps_max_cached st \<le> length (ps_cache st)"
  obtains a where "(last (ps_lru st), a) \<in> set (ps_cache st)" and "ps_lru st \<noteq> []"
    and "evict_lru st = st\<lparr>ps_lru := butlast (ps_lru st),
      ps_cache := cache_erase (last (ps_lru st)) (ps_cache st), ps_maps := (ps_maps st)(a := None)\<rparr>"
proof -
  have "ps_cache st \<noteq> []" using wf full by (auto simp: cache_wf_def)
  then have "set (ps_lru st) \<noteq> {}" using wf by (auto simp: cache_wf_def)
  then have ne: "ps_lru st \<noteq> []" by auto
  then have "last (ps_lru st) \<in> fst ` set (ps_cache st)" using wf by (metis cache_wf_def last_in_set)
  then obtain a where a: "(last (ps_lru st), a) \<in> set (ps_cache st)" by auto
  have "evict_lru st = st\<lparr>ps_lru := butlast (ps_lru st),
      ps_cache := cache_erase (last (ps_lru st)) (ps_cache st), ps_maps := (ps_maps st)(a := None)\<rparr>"
    using ne cached_unique [OF wf a] by (simp add: evict_lru_def Let_def release_def)
  then show ?thesis using that a ne by blast
qed

text \<open>A cache with room, and the same mappings for the pages it keeps.\<close>

definition shrunk :: "paged_store \<Rightarrow> paged_store \<Rightarrow> bool" where
  "shrunk st st' \<longleftrightarrow> cache_wf st' \<and> same_layout st st' \<and> ps_n_vectors st' = ps_n_vectors st
     \<and> set (ps_cache st') \<subseteq> set (ps_cache st)
     \<and> (\<forall>(q, b)\<in>set (ps_cache st'). ps_maps st' b = ps_maps st b)"

lemma shrunk_remove:
  assumes wf: "cache_wf st" and p: "(p, a) \<in> set (ps_cache st)"
    and maps: "\<And>b. b \<noteq> a \<Longrightarrow> m b = ps_maps st b" and lru: "set lru = set (ps_lru st) - {p}" "distinct lru"
  shows "shrunk st (st\<lparr>ps_lru := lru, ps_cache := cache_erase p (ps_cache st), ps_maps := m\<rparr>)"
  using cache_wf_remove [OF assms] by (auto simp: shrunk_def same_layout_def)

lemma shrunk_refl: "cache_wf st \<Longrightarrow> shrunk st st"
  by (auto simp: shrunk_def same_layout_def)

lemma make_room:
  assumes wf: "cache_wf st"
  defines "st1 \<equiv> (if ps_max_cached st \<le> length (ps_cache st) then evict_lru st else st)"
  shows "shrunk st st1 \<and> length (ps_cache st1) < ps_max_cached st"
proof (cases "ps_max_cached st \<le> length (ps_cache st)")
  case False
  then show ?thesis using shrunk_refl [OF wf] by (simp add: st1_def)
next
  case True
  obtain a where a: "(last (ps_lru st), a) \<in> set (ps_cache st)" "ps_lru st \<noteq> []"
    and st1: "evict_lru st = st\<lparr>ps_lru := butlast (ps_lru st),
      ps_cache := cache_erase (last (ps_lru st)) (ps_cache st), ps_maps := (ps_maps st)(a := None)\<rparr>"
    by (rule evict_lru_spec [OF wf True])
  have dist: "distinct (ps_lru st)" using wf by (simp add: cache_wf_def)
  then have "distinct (butlast (ps_lru st) @ [last (ps_lru st)])" using a(2) by simp
  moreover have "set (ps_lru st) = insert (last (ps_lru st)) (set (butlast (ps_lru st)))"
    using arg_cong [OF append_butlast_last_id [OF a(2)], of set] by simp
  ultimately have lru: "set (butlast (ps_lru st)) = set (ps_lru st) - {last (ps_lru st)}"
    "distinct (butlast (ps_lru st))" by auto
  have "shrunk st (evict_lru st)"
    unfolding st1 by (rule shrunk_remove [OF wf a(1) _ lru]) simp
  moreover have "Suc (length (cache_erase (last (ps_lru st)) (ps_cache st))) = length (ps_cache st)"
    by (rule cache_wf_remove(3) [OF wf a(1) _ lru, of "ps_maps st"]) simp
  ultimately show ?thesis using True wf by (simp add: st1_def st1 cache_wf_def)
qed

text \<open>What making a page the most recent one gives.\<close>

definition touched :: "nat \<Rightarrow> filesys \<Rightarrow> paged_store \<Rightarrow> paged_store \<Rightarrow> bool" where
  "touched p fs st st' \<longleftrightarrow> paged_ok (st', fs) \<and> same_layout st st'
     \<and> ps_n_vectors st' = ps_n_vectors st \<and> hd (ps_lru st') = p
     \<and> (not_stale (st, fs) \<longrightarrow> not_stale (st', fs))
     \<and> (\<forall>a. (p, a) \<in> set (ps_cache st) \<longrightarrow> (p, a) \<in> set (ps_cache st') \<and> ps_maps st' a = ps_maps st a)
     \<and> (\<exists>a. (p, a) \<in> set (ps_cache st'))"

lemma load_page_spec:
  assumes ok: "paged_ok (st, fs)" and new: "p \<notin> fst ` set (ps_cache st)"
  shows "touched p fs st (load_page p (st, fs))"
proof -
  have wf: "cache_wf st" and layout: "layout_ok st" using ok by (simp_all add: paged_ok_def)
  define st1 where "st1 = (if ps_max_cached st \<le> length (ps_cache st) then evict_lru st else st)"
  have shr: "shrunk st st1" and room: "length (ps_cache st1) < ps_max_cached st"
    using make_room [OF wf] by (simp_all add: st1_def)
  have wf1: "cache_wf st1" and same: "same_layout st st1" and n: "ps_n_vectors st1 = ps_n_vectors st"
    and sub: "set (ps_cache st1) \<subseteq> set (ps_cache st)"
    and maps: "\<And>q b. (q, b) \<in> set (ps_cache st1) \<Longrightarrow> ps_maps st1 b = ps_maps st b"
    using shr by (auto simp: shrunk_def)
  have new1: "p \<notin> fst ` set (ps_cache st1)" using new sub by auto
  define mem where "mem = (if page_complete fs (ps_path st) p then File_Page (p * page_size) else Zero_Block)"
  then have mem: "mem = Zero_Block \<or> mem = File_Page (p * page_size)"
    "mem \<noteq> Zero_Block \<longleftrightarrow> page_complete fs (ps_path st) p" by simp_all
  let ?a = "ps_next_map st1"
  let ?st = "st1\<lparr>ps_maps := (ps_maps st1)(?a \<mapsto> mem), ps_next_map := Suc ?a,
    ps_lru := p # ps_lru st1, ps_cache := (p, ?a) # ps_cache st1\<rparr>"
  have path: "ps_path st1 = ps_path st" "ps_max_cached st1 = ps_max_cached st"
    using same by (simp_all add: same_layout_def)
  have st': "load_page p (st, fs) = ?st"
    by (simp add: load_page_def map_new_def Let_def path mem_def flip: st1_def)
  have old: "b < ?a \<and> b \<noteq> ?a" if "(q, b) \<in> set (ps_cache st1)" for q b
    using cache_wf_entry [OF wf1 that] by auto
  have fresh: "?a \<notin> snd ` set (ps_cache st1)" using old by force
  have lru: "p \<notin> set (ps_lru st1)" using wf1 new1 by (simp add: cache_wf_def)
  have entry: "b < ps_next_map ?st \<and> (ps_maps ?st b = Some Zero_Block \<or> ps_maps ?st b = Some (File_Page (q * page_size)))"
    if "(q, b) \<in> set (ps_cache ?st)" for q b
  proof (cases "(q, b) = (p, ?a)")
    case False
    then have "(q, b) \<in> set (ps_cache st1)" using that by auto
    then show ?thesis using old [of q b] cache_wf_entry [OF wf1, of q b] by simp
  qed (use mem(1) in auto)
  have "distinct (map fst (ps_cache ?st)) \<and> distinct (map snd (ps_cache ?st)) \<and> distinct (ps_lru ?st)"
    using wf1 fresh new1 lru by (simp add: cache_wf_def)
  moreover have "set (ps_lru ?st) = fst ` set (ps_cache ?st)" using wf1 by (simp add: cache_wf_def)
  moreover have "length (ps_cache ?st) \<le> ps_max_cached ?st \<and> 1 \<le> ps_max_cached ?st"
    using room wf1 path by (simp add: cache_wf_def)
  ultimately have "cache_wf ?st"
    unfolding cache_wf_def using entry by blast
  moreover have "layout_ok ?st" using layout same by (simp add: layout_ok_def same_layout_def)
  moreover have "ps_maps ?st b \<noteq> Some Zero_Block \<longrightarrow> page_complete fs (ps_path ?st) q"
    if "(q, b) \<in> set (ps_cache ?st)" for q b
  proof (cases "(q, b) = (p, ?a)")
    case False
    then have "(q, b) \<in> set (ps_cache st1)" using that by auto
    then show ?thesis using old [of q b] maps [of q b] sub ok path by (auto simp: paged_ok_def)
  qed (use mem(2) path in simp)
  ultimately have "paged_ok (?st, fs)" unfolding paged_ok_def prod.case by blast
  moreover have "not_stale (?st, fs)" if stale: "not_stale (st, fs)"
  proof -
    have "ps_maps ?st b = Some Zero_Block \<longrightarrow> \<not> page_complete fs (ps_path ?st) q"
      if "(q, b) \<in> set (ps_cache ?st)" for q b
    proof (cases "(q, b) = (p, ?a)")
      case False
      then have "(q, b) \<in> set (ps_cache st1)" using that by auto
      then show ?thesis using old [of q b] maps [of q b] sub stale path by (auto simp: not_stale_def)
    qed (use mem(2) path in auto)
    then show ?thesis unfolding not_stale_def prod.case by blast
  qed
  moreover have "(p, a) \<notin> set (ps_cache st)" for a using new by force
  moreover have "same_layout st ?st" using same by (simp add: same_layout_def)
  moreover have "ps_n_vectors ?st = ps_n_vectors st" using n by simp
  moreover have "\<exists>a. (p, a) \<in> set (ps_cache ?st)" by auto
  ultimately show ?thesis
    unfolding st' touched_def by simp
qed

lemma touch_page_spec:
  assumes ok: "paged_ok (st, fs)"
  shows "touched p fs st (touch_page p (st, fs))"
proof (cases "map_of (ps_cache st) p")
  case None
  then have "p \<notin> fst ` set (ps_cache st)" by (simp add: map_of_eq_None_iff)
  then show ?thesis using load_page_spec [OF ok] None by (simp add: touch_page_def)
next
  case (Some a)
  have wf: "cache_wf st" and layout: "layout_ok st" using ok by (simp_all add: paged_ok_def)
  have a: "(p, a) \<in> set (ps_cache st)" using Some by (rule map_of_SomeD)
  let ?st = "st\<lparr>ps_lru := p # remove1 p (ps_lru st)\<rparr>"
  have "p \<in> set (ps_lru st)" using wf a by (force simp: cache_wf_def)
  then have "cache_wf ?st"
    using wf by (auto simp: cache_wf_def)
  then have "paged_ok (?st, fs)" using ok layout by (simp add: paged_ok_def layout_ok_def)
  then show ?thesis
    using Some a by (auto simp: touched_def touch_page_def same_layout_def not_stale_def)
qed

lemma take_f32s_of_bytes: "m \<le> n \<Longrightarrow> take m (f32s_of_bytes n bs) = f32s_of_bytes m (take (4 * m) bs)"
proof (induction m arbitrary: n bs)
  case (Suc m)
  then obtain n' where "n = Suc n'" by (cases n) auto
  then show ?case using Suc by (simp add: drop_take)
qed simp

text \<open>Reading a cached page: the vector on disk, or zeros when the page was not complete.\<close>

lemma page_floats_spec:
  assumes ok: "paged_ok (st, fs)" and disk: "disk_holds (st, fs) vs" and i: "i < length vs"
    and a: "(slot_page st i, a) \<in> set (ps_cache st)"
  shows "okR (page_floats a (vec_offset_in_page st i) (st, fs)) (\<lambda>v. ps_dim st \<le> length v
    \<and> take (ps_dim st) v = (if ps_maps st a = Some Zero_Block then replicate (ps_dim st) 0 else vs ! i))"
proof -
  let ?p = "slot_page st i" and ?o = "vec_offset_in_page st i" and ?c = "file_content fs (ps_path st)"
  let ?n = "(page_size - ?o) div 4"
  have layout: "layout_ok st" and wf: "cache_wf st" using ok by (simp_all add: paged_ok_def)
  have fit: "?o + 4 * ps_dim st \<le> page_size" by (rule vec_offset_bound [OF layout])
  then have n: "ps_dim st \<le> ?n" by simp
  show ?thesis
  proof (cases "ps_maps st a = Some Zero_Block")
    case True
    then show ?thesis using n by (simp add: page_floats_def Let_def)
  next
    case False
    then have page: "ps_maps st a = Some (File_Page (?p * page_size))"
      using cache_wf_entry [OF wf a] by simp
    have "page_complete fs (ps_path st) ?p" using ok a False by (auto simp: paged_ok_def)
    then have "?p * page_size + ?o + 4 * ?n \<le> length ?c"
      using fit by (simp add: page_complete_def)
    moreover have "take (4 * ps_dim st) (drop (?p * page_size + ?o) ?c) = f32s_bytes (vs ! i)"
      using disk i by (simp add: disk_holds_def Let_def slot_offset_def)
    moreover have "length (vs ! i) = ps_dim st" using disk i by (simp add: disk_holds_def Let_def)
    moreover have "length (f32s_of_bytes m bs) = m" for m bs by (induction m arbitrary: bs) simp_all
    ultimately show ?thesis
      using False n f32s_of_bytes_inverse [of "vs ! i"]
      by (simp add: page_floats_def Let_def page take_f32s_of_bytes add.assoc)
  qed
qed

text \<open>A get makes its page the most recent one and returns a pointer into its mapping.\<close>

lemma paged_get_touch:
  assumes ok: "paged_ok (st, fs)"
  obtains a st' where "paged_get i (st, fs) = Inr (page_floats a (vec_offset_in_page st i), (st', fs))"
    and "st' = touch_page (slot_page st i) (st, fs)" and "(slot_page st i, a) \<in> set (ps_cache st')"
    and "touched (slot_page st i) fs st st'"
proof -
  let ?st = "touch_page (slot_page st i) (st, fs)"
  have t: "touched (slot_page st i) fs st ?st" by (rule touch_page_spec [OF ok])
  then obtain a where a: "(slot_page st i, a) \<in> set (ps_cache ?st)" by (auto simp: touched_def)
  have "cache_wf ?st" using t by (simp add: touched_def paged_ok_def)
  from that [OF _ refl a t] show ?thesis
    using cached_unique [OF \<open>cache_wf ?st\<close> a] by (simp add: paged_get_def Let_def)
qed

lemma paged_get_spec:
  assumes ok: "paged_ok (st, fs)" and disk: "disk_holds (st, fs) vs" and i: "i < length vs"
    and fresh: "not_stale (st, fs)"
  shows "okR (paged_get i (st, fs)) (\<lambda>(ptr, (st', fs')). fs' = fs \<and> paged_ok (st', fs)
    \<and> same_layout st st' \<and> disk_holds (st', fs) vs \<and> not_stale (st', fs)
    \<and> okR (ptr (st', fs)) (\<lambda>v. ps_dim st \<le> length v \<and> take (ps_dim st) v
        = (if page_complete fs (ps_path st) (slot_page st i) then vs ! i else replicate (ps_dim st) 0)))"
proof -
  obtain a st' where get: "paged_get i (st, fs) = Inr (page_floats a (vec_offset_in_page st i), (st', fs))"
    and a: "(slot_page st i, a) \<in> set (ps_cache st')" and t: "touched (slot_page st i) fs st st'"
    by (rule paged_get_touch [OF ok])
  have st': "paged_ok (st', fs)" "same_layout st st'" "not_stale (st', fs)" "disk_holds (st', fs) vs"
    using t fresh disk disk_holds_layout [of st st' fs vs] by (auto simp: touched_def)
  have same: "ps_path st' = ps_path st" "ps_dim st' = ps_dim st" using st'(2) by (simp_all add: same_layout_def)
  have "ps_maps st' a = Some Zero_Block \<longleftrightarrow> \<not> page_complete fs (ps_path st) (slot_page st i)"
    using st'(1,3) a same by (auto simp: paged_ok_def not_stale_def)
  then show ?thesis
    using page_floats_spec [OF st'(1,4) i, of a] a st' same
    by (cases "page_complete fs (ps_path st) (slot_page st i)")
      (simp_all add: get same_layout_slots [OF st'(2)])
qed

section \<open>Push keeps the cache well-formed\<close>

lemma push_invalidate_spec:
  assumes wf: "cache_wf st"
  shows "shrunk st (push_invalidate p st) \<and> p \<notin> fst ` set (ps_cache (push_invalidate p st))"
proof (cases "map_of (ps_cache st) p")
  case None
  then have "push_invalidate p st = st" by (simp add: push_invalidate_def)
  then show ?thesis
    using shrunk_refl [OF wf] None by (simp add: map_of_eq_None_iff)
next
  case (Some a)
  then have a: "(p, a) \<in> set (ps_cache st)" by (rule map_of_SomeD)
  define m where "m = ps_maps (unmap a st)"
  have m: "m b = ps_maps st b" if "b \<noteq> a" for b
    using that by (simp add: m_def unmap_def split: option.split page_memory.split)
  have st': "push_invalidate p st = st\<lparr>ps_lru := remove1 p (ps_lru st),
      ps_cache := cache_erase p (ps_cache st), ps_maps := m\<rparr>"
    by (simp add: push_invalidate_def Some m_def unmap_def split: option.split page_memory.split)
  have "shrunk st (push_invalidate p st)"
    unfolding st' by (rule shrunk_remove [OF wf a m]) (use wf in \<open>simp_all add: cache_wf_def\<close>)
  then show ?thesis by (auto simp: st')
qed

lemma paged_push_spec:
  assumes ok: "paged_ok (st, fs)" and disk: "disk_holds (st, fs) vs" and n: "length vs < 2 ^ 32"
    and vec: "ps_dim st \<le> length vec"
  shows "okR (paged_push vec (st, fs)) (\<lambda>(slot, (st', fs')). slot = length vs \<and> paged_ok (st', fs')
    \<and> same_layout st st' \<and> disk_holds (st', fs') (vs @ [take (ps_dim st) vec])
    \<and> slot_page st slot \<notin> fst ` set (ps_cache st') \<and> set (ps_cache st') \<subseteq> set (ps_cache st)
    \<and> (\<forall>(q, b)\<in>set (ps_cache st'). ps_maps st' b = ps_maps st b))"
proof -
  let ?v = "take (ps_dim st) vec" and ?p = "slot_page st (length vs)"
  let ?st = "st\<lparr>ps_n_vectors := Suc (length vs)\<rparr>" and ?fs = "push_write st (length vs) ?v fs"
  have layout: "layout_ok st" and wf: "cache_wf st" using ok by (simp_all add: paged_ok_def)
  have num: "ps_n_vectors st = length vs" using disk by (simp add: disk_holds_def Let_def)
  have wf': "cache_wf ?st" using wf by (simp add: cache_wf_def)
  have inv: "shrunk ?st (push_invalidate ?p ?st)" "?p \<notin> fst ` set (ps_cache (push_invalidate ?p ?st))"
    using push_invalidate_spec [OF wf'] by blast+
  let ?st' = "push_invalidate ?p ?st"
  have same: "same_layout st ?st'" "same_layout ?st ?st'" using inv(1) by (auto simp: shrunk_def same_layout_def)
  have "disk_holds (?st, ?fs) (vs @ [?v])"
    using push_write_holds [OF disk layout, of ?v] vec num by simp
  then have disk': "disk_holds (?st', ?fs) (vs @ [?v])"
    using disk_holds_layout [OF same(2)] inv(1) by (simp add: shrunk_def)
  have grown: "length (file_content fs (ps_path st)) \<le> length (file_content ?fs (ps_path st))"
    by (simp add: push_write_def Let_def max.coboundedI1)
  have "paged_ok (?st', ?fs)"
    unfolding paged_ok_def prod.case
  proof (intro conjI ballI, goal_cases)
    case 1
    then show ?case using layout same_layout_slots(4) [OF same(1)] by simp
  next
    case 2
    then show ?case using inv(1) by (simp add: shrunk_def)
  next
    case (3 e)
    obtain q b where e: "e = (q, b)" by (cases e)
    then have "(q, b) \<in> set (ps_cache st)" "ps_maps ?st' b = ps_maps st b"
      using 3 inv(1) by (auto simp: shrunk_def)
    then have "ps_maps ?st' b \<noteq> Some Zero_Block \<longrightarrow> page_complete fs (ps_path st) q"
      using ok by (auto simp: paged_ok_def)
    moreover have "ps_path ?st' = ps_path st" using same(1) by (simp add: same_layout_def)
    ultimately show ?case using grown by (auto simp: e page_complete_def)
  qed
  moreover have "paged_push vec (st, fs) = Inr (length vs, ?st', ?fs)"
    using vec n by (simp add: paged_push_def num slice_r_def slot_page_def
        push_write_def Let_def slot_in_page_def vec_offset_in_page_def)
  moreover have "set (ps_cache ?st') \<subseteq> set (ps_cache st)" "\<forall>(q, b)\<in>set (ps_cache ?st'). ps_maps ?st' b = ps_maps st b"
    using inv(1) by (auto simp: shrunk_def)
  ultimately show ?thesis using same(1) disk' inv(2) by simp
qed

end
