(* ===== verification/Paged_Properties.thy ===== *)
theory Paged_Properties
  imports Paged_Store Wal
begin

text \<open>
  What the users of \<open>PagedVectorStore\<close> can rely on: which states opening, pushing and getting
  reach, what a read returns in them, and how long the pointer that \<open>get\<close> returns stays valid.
\<close>

section \<open>The states a program reaches\<close>

text \<open>
  A store opened on a new or empty file, with the vectors pushed since, under any sequence of
  pushes and gets.
\<close>

inductive paged_run :: "string \<Rightarrow> nat \<Rightarrow> nat \<Rightarrow> paged_env \<Rightarrow> f32 list list \<Rightarrow> bool"
  for path :: string and n :: nat and cache_bytes :: nat
where
  opened: "paged_open path n cache_bytes fs = Inr env \<Longrightarrow> file_content fs path = []
    \<Longrightarrow> paged_run path n cache_bytes env []"
| pushed: "paged_run path n cache_bytes env vs \<Longrightarrow> length vs < 2 ^ 32
    \<Longrightarrow> paged_push vec env = Inr (slot, env')
    \<Longrightarrow> paged_run path n cache_bytes env' (vs @ [take n vec])"
| got: "paged_run path n cache_bytes env vs \<Longrightarrow> paged_get i env = Inr (ptr, env')
    \<Longrightarrow> paged_run path n cache_bytes env' vs"

lemma paged_open_spec:
  assumes "paged_open path n cache_bytes fs = Inr env" and "n < 2 ^ 62" and "file_content fs path = []"
  obtains st fs' where "env = (st, fs')" and "paged_ok (st, fs')" and "disk_holds (st, fs') []"
    and "ps_path st = path" and "ps_dim st = n" and "ps_max_cached st = max 1 (cache_bytes div page_size)"
    and "ps_per_page st = (page_size - 8) div (n * 4)"
proof -
  have n: "n * 4 mod 2 ^ 64 = n * 4" using assms(2) by simp
  let ?k = "(page_size - 8) div (n * 4)"
  obtain fs' where fs': "open_rdwr_creat fs path = Some fs'" and k: "n \<noteq> 0" "?k \<noteq> 0"
    and env: "env = (\<lparr>ps_path = path, ps_dim = n, ps_per_page = ?k,
               ps_max_cached = max 1 (cache_bytes div page_size),
               ps_n_vectors = pages_on_disk fs' path * ?k, ps_lru = [], ps_cache = [],
               ps_maps = Map.empty, ps_next_map = 0\<rparr>, fs')"
    using assms(1) n
    by (auto simp: paged_open_def vectors_per_page_def Let_def guardR_def split: option.splits if_splits)
  have "file_content fs' path = []"
    using fs' assms(3) by (auto simp: open_rdwr_creat_def file_content_def split: if_splits option.splits)
  moreover have "?k * (n * 4) \<le> page_size - 8" by simp
  then have "8 + ?k * n * 4 \<le> page_size" by (simp add: page_size_def mult.assoc)
  ultimately show ?thesis
    using that [OF env] k
    by (simp add: paged_ok_def cache_wf_def disk_holds_def layout_ok_def pages_on_disk_def)
qed

text \<open>What holds in every such state.\<close>

definition paged_inv :: "string \<Rightarrow> nat \<Rightarrow> nat \<Rightarrow> paged_env \<Rightarrow> f32 list list \<Rightarrow> bool" where
  "paged_inv path n cache_bytes = (\<lambda>(st, fs) vs.
     paged_ok (st, fs) \<and> disk_holds (st, fs) vs \<and> ps_path st = path \<and> ps_dim st = n
     \<and> ps_max_cached st = max 1 (cache_bytes div page_size)
     \<and> ps_per_page st = (page_size - 8) div (n * 4))"

lemma paged_push_dim: "paged_push vec (st, fs) = Inr r \<Longrightarrow> ps_dim st \<le> length vec"
  by (auto simp: paged_push_def slice_r_def Let_def split: if_splits)

lemma paged_run_inv: "paged_run path n cache_bytes env vs \<Longrightarrow> n < 2 ^ 62 \<Longrightarrow> paged_inv path n cache_bytes env vs"
proof (induction rule: paged_run.induct)
  case (opened fs env)
  show ?case
    by (rule paged_open_spec [OF opened(1) opened(3) opened(2)]) (simp add: paged_inv_def)
next
  case (pushed env vs vec slot env')
  obtain st fs where env: "env = (st, fs)" by (cases env)
  obtain st' fs' where env': "env' = (st', fs')" by (cases env')
  have "okR (Inr (slot, env')) (\<lambda>(slot, (st', fs')). paged_ok (st', fs') \<and> same_layout st st'
      \<and> disk_holds (st', fs') (vs @ [take (ps_dim st) vec]))"
    using paged_push_spec [of st fs vs vec] pushed paged_push_dim [of vec st fs]
    by (auto simp: env paged_inv_def)
  then show ?case using pushed by (simp add: env env' paged_inv_def same_layout_def)
next
  case (got env vs i ptr env')
  obtain st fs where env: "env = (st, fs)" by (cases env)
  have ok: "paged_ok (st, fs)" using got by (simp add: env paged_inv_def)
  obtain a st' where "paged_get i (st, fs) = Inr (page_floats a (vec_offset_in_page st i), (st', fs))"
    and t: "touched (slot_page st i) fs st st'"
    by (rule paged_get_touch [OF ok])
  then have "env' = (st', fs)" using got(2) by (simp add: env)
  then show ?case
    using t got disk_holds_layout [of st st' fs vs]
    by (auto simp: env paged_inv_def touched_def same_layout_def)
qed

section \<open>Reading\<close>

text \<open>Getting a vector and reading it at once.\<close>

definition paged_read :: "nat \<Rightarrow> paged_env \<Rightarrow> (f32 list \<times> paged_env) res" where
  "paged_read i env =
     bindR (paged_get i env) (\<lambda>(ptr, env).
     bindR (ptr env) (\<lambda>v. Inr (take (ps_dim (fst env)) v, env)))"

definition cached_zeros :: "paged_store \<Rightarrow> nat \<Rightarrow> bool" where
  "cached_zeros st p \<longleftrightarrow> (\<exists>a. (p, a) \<in> set (ps_cache st) \<and> ps_maps st a = Some Zero_Block)"

lemma touched_mapping:
  assumes ok: "paged_ok (st, fs)" and a: "(p, a) \<in> set (ps_cache (touch_page p (st, fs)))"
  shows "ps_maps (touch_page p (st, fs)) a = Some Zero_Block
    \<longleftrightarrow> \<not> page_complete fs (ps_path st) p \<or> cached_zeros st p"
proof (cases "map_of (ps_cache st) p")
  case None
  then have new: "p \<notin> fst ` set (ps_cache st)" by (simp add: map_of_eq_None_iff)
  let ?st = "load_page p (st, fs)" and ?st1 = "if ps_max_cached st \<le> length (ps_cache st) then evict_lru st else st"
  have wf: "cache_wf st" using ok by (simp add: paged_ok_def)
  have "shrunk st ?st1" using make_room [OF wf] by blast
  then have path: "ps_path ?st1 = ps_path st" by (simp add: shrunk_def same_layout_def)
  have st: "touch_page p (st, fs) = ?st" using None by (simp add: touch_page_def)
  have "cache_wf ?st" using load_page_spec [OF ok new] by (simp add: touched_def paged_ok_def)
  moreover have "map_of (ps_cache ?st) p = Some (ps_next_map ?st1)"
    "ps_maps ?st (ps_next_map ?st1) = Some (if page_complete fs (ps_path st) p then File_Page (p * page_size) else Zero_Block)"
    using path by (simp_all add: load_page_def map_new_def Let_def)
  moreover have "(p, a) \<in> set (ps_cache ?st)" using a st by simp
  ultimately have "ps_maps ?st a = Some (if page_complete fs (ps_path st) p then File_Page (p * page_size) else Zero_Block)"
    using cached_unique [of ?st p a] by simp
  moreover have "\<not> cached_zeros st p" using new by (force simp: cached_zeros_def)
  ultimately show ?thesis by (simp add: st)
next
  case (Some b)
  have wf: "cache_wf st" using ok by (simp add: paged_ok_def)
  have b: "(p, b) \<in> set (ps_cache st)" using Some by (rule map_of_SomeD)
  have st: "touch_page p (st, fs) = st\<lparr>ps_lru := p # remove1 p (ps_lru st)\<rparr>"
    using Some by (simp add: touch_page_def)
  have "a = b" using a cached_unique [OF wf, of p a] Some by (simp add: st)
  moreover have "cached_zeros st p \<longleftrightarrow> ps_maps st b = Some Zero_Block"
  proof -
    have "(p, c) \<in> set (ps_cache st) \<longleftrightarrow> c = b" for c using b cached_unique [OF wf, of p c] Some by auto
    then show ?thesis by (simp add: cached_zeros_def)
  qed
  moreover have "ps_maps st b \<noteq> Some Zero_Block \<Longrightarrow> page_complete fs (ps_path st) p"
    using ok b by (auto simp: paged_ok_def)
  ultimately show ?thesis by (auto simp: st)
qed

lemma paged_read_spec:
  assumes ok: "paged_ok (st, fs)" and disk: "disk_holds (st, fs) vs" and i: "i < length vs"
  defines "p \<equiv> slot_page st i"
  shows "paged_read i (st, fs) = Inr
    (if page_complete fs (ps_path st) p \<and> \<not> cached_zeros st p then vs ! i else replicate (ps_dim st) 0,
     (touch_page p (st, fs), fs))"
proof -
  obtain a st' where get: "paged_get i (st, fs) = Inr (page_floats a (vec_offset_in_page st i), (st', fs))"
    and st': "st' = touch_page p (st, fs)" and a: "(p, a) \<in> set (ps_cache st')"
    and t: "touched p fs st st'"
    unfolding p_def by (rule paged_get_touch [OF ok])
  have same: "same_layout st st'" and ok': "paged_ok (st', fs)" and "ps_n_vectors st' = ps_n_vectors st"
    using t by (simp_all add: touched_def)
  then have disk': "disk_holds (st', fs) vs" using disk_holds_layout [OF same] disk by simp
  have dims: "ps_dim st' = ps_dim st" using same by (simp add: same_layout_def)
  have "ps_maps st' a = Some Zero_Block \<longleftrightarrow> \<not> (page_complete fs (ps_path st) p \<and> \<not> cached_zeros st p)"
    using touched_mapping [OF ok] a st' by auto
  moreover have "ps_dim (touch_page p (st, fs)) = ps_dim st" using dims st' by simp
  moreover have "okR (page_floats a (vec_offset_in_page st i) (st', fs)) (\<lambda>v. take (ps_dim st) v
      = (if ps_maps st' a = Some Zero_Block then replicate (ps_dim st) 0 else vs ! i))"
    using page_floats_spec [OF ok' disk' i, of a] a
    by (cases "page_floats a (vec_offset_in_page st i) (st', fs)")
      (auto simp: same_layout_slots [OF same] dims p_def)
  ultimately show ?thesis
    by (cases "page_floats a (vec_offset_in_page st i) (st', fs)")
      (auto simp: paged_read_def get dims st')
qed

section \<open>How long a pointer lives\<close>

definition gets :: "nat list \<Rightarrow> paged_env \<Rightarrow> paged_env res" where
  "gets js env = foldR (\<lambda>j env. bindR (paged_get j env) (\<lambda>(_, env). Inr env)) js env"

lemma gets_Cons:
  assumes "paged_ok (st, fs)"
  shows "gets (j # js) (st, fs) = gets js (touch_page (slot_page st j) (st, fs), fs)"
proof -
  obtain a st' where "paged_get j (st, fs) = Inr (page_floats a (vec_offset_in_page st j), (st', fs))"
    and "st' = touch_page (slot_page st j) (st, fs)"
    by (rule paged_get_touch [OF assms])
  then show ?thesis by (simp add: gets_def)
qed

lemma cache_wf_lru:
  assumes "cache_wf st"
  shows "map_of (ps_cache st) q = None \<longleftrightarrow> q \<notin> set (ps_lru st)"
    and "length (ps_cache st) = length (ps_lru st)"
proof -
  show "map_of (ps_cache st) q = None \<longleftrightarrow> q \<notin> set (ps_lru st)"
    using assms by (simp add: cache_wf_def map_of_eq_None_iff)
  have "length (ps_lru st) = card (set (ps_lru st))" using assms by (simp add: cache_wf_def distinct_card [symmetric] del: set_map)
  also have "\<dots> = length (map fst (ps_cache st))"
    using assms distinct_card [of "map fst (ps_cache st)"] by (simp add: cache_wf_def)
  finally show "length (ps_cache st) = length (ps_lru st)" by simp
qed

text \<open>How a touch changes the order of use, and what happens to a mapping.\<close>

definition lru_after :: "nat \<Rightarrow> nat \<Rightarrow> nat list \<Rightarrow> nat list" where
  "lru_after cap q lru = q # (if q \<in> set lru then remove1 q lru
     else if cap \<le> length lru then butlast lru else lru)"

lemma touch_lru:
  assumes wf: "cache_wf st"
  shows "ps_lru (touch_page q (st, fs)) = lru_after (ps_max_cached st) q (ps_lru st)"
proof (cases "q \<in> set (ps_lru st)")
  case True
  then obtain a where "map_of (ps_cache st) q = Some a" using cache_wf_lru(1) [OF wf, of q] by auto
  then show ?thesis using True by (simp add: touch_page_def lru_after_def)
next
  case False
  then have "map_of (ps_cache st) q = None" using cache_wf_lru(1) [OF wf] by simp
  moreover have "ps_lru (evict_lru st) = butlast (ps_lru st)" if "ps_max_cached st \<le> length (ps_cache st)"
    by (rule evict_lru_spec [OF wf that]) simp
  ultimately show ?thesis using False
    by (simp add: touch_page_def lru_after_def load_page_def map_new_def Let_def cache_wf_lru(2) [OF wf])
qed

lemma touch_mapping:
  assumes wf: "cache_wf st" and a: "(p, a) \<in> set (ps_cache st)"
    and st'_def: "st' = touch_page q (st, fs)"
  shows "if p \<in> set (ps_lru st') then (p, a) \<in> set (ps_cache st') \<and> ps_maps st' a = ps_maps st a
    else ps_maps st' a = None \<and> a < ps_next_map st'"
proof (cases "q \<in> set (ps_lru st)")
  case True
  then obtain b where "map_of (ps_cache st) q = Some b" using cache_wf_lru(1) [OF wf, of q] by auto
  moreover have "p \<in> set (ps_lru st)" using wf a by (force simp: cache_wf_def)
  ultimately show ?thesis using a wf by (auto simp: st'_def touch_page_def cache_wf_def)
next
  case False
  then have none: "map_of (ps_cache st) q = None" using cache_wf_lru(1) [OF wf] by simp
  have lru: "p \<in> set (ps_lru st)" "distinct (ps_lru st)" using wf a by (force simp: cache_wf_def)+
  have addr: "a < ps_next_map st" using cache_wf_entry [OF wf a] by simp
  show ?thesis
  proof (cases "ps_max_cached st \<le> length (ps_cache st)")
    case full: True
    obtain b where b: "(last (ps_lru st), b) \<in> set (ps_cache st)" "ps_lru st \<noteq> []"
      and ev: "evict_lru st = st\<lparr>ps_lru := butlast (ps_lru st),
        ps_cache := cache_erase (last (ps_lru st)) (ps_cache st), ps_maps := (ps_maps st)(b := None)\<rparr>"
      by (rule evict_lru_spec [OF wf full])
    have st': "ps_cache st' = (q, ps_next_map st) # cache_erase (last (ps_lru st)) (ps_cache st)"
      "ps_lru st' = q # butlast (ps_lru st)" "ps_next_map st' = Suc (ps_next_map st)"
      "a \<noteq> ps_next_map st \<Longrightarrow> ps_maps st' a = (if a = b then None else ps_maps st a)"
      using none full by (simp_all add: st'_def touch_page_def load_page_def map_new_def Let_def ev)
    have "distinct (butlast (ps_lru st) @ [last (ps_lru st)])"
      "p \<in> set (butlast (ps_lru st) @ [last (ps_lru st)])"
      using lru b(2) by simp_all
    then have last: "p \<in> set (butlast (ps_lru st)) \<longleftrightarrow> p \<noteq> last (ps_lru st)" by auto
    have "p \<noteq> q" using False lru by auto
    moreover have "a = b \<longleftrightarrow> p = last (ps_lru st)"
      using a b(1) wf mapping_unique [of "ps_cache st" p a "last (ps_lru st)"] cached_unique [OF wf]
      by (metis cache_wf_def option.inject)
    ultimately show ?thesis using addr a st' last by simp
  next
    case False
    then show ?thesis
      using none a addr lru
      by (simp add: st'_def touch_page_def load_page_def map_new_def Let_def)
  qed
qed

lemma take_remove1: "p \<in> set (take m xs) \<Longrightarrow> p \<noteq> q \<Longrightarrow> p \<in> set (take m (remove1 q xs))"
proof (induction xs arbitrary: m)
  case (Cons x xs)
  then show ?case
    using set_take_subset_set_take [of "m - 1" m xs] by (cases m) auto
qed simp

lemma touch_ok:
  assumes "paged_ok (st, fs)"
  shows "paged_ok (touch_page p (st, fs), fs) \<and> same_layout st (touch_page p (st, fs))"
  using touch_page_spec [OF assms, of p] by (simp add: touched_def)

text \<open>A page among the \<open>m\<close> most recent ones survives while \<open>m\<close> and the number of gets stay
  within the size of the cache.\<close>

lemma mapping_kept:
  assumes "paged_ok (st, fs)" and "(p, a) \<in> set (ps_cache st)" and "p \<in> set (take m (ps_lru st))"
    and "m + length js \<le> ps_max_cached st"
  shows "\<exists>st2. gets js (st, fs) = Inr (st2, fs) \<and> ps_maps st2 a = ps_maps st a \<and> same_layout st st2"
  using assms
proof (induction js arbitrary: st m)
  case Nil
  then show ?case by (simp add: gets_def same_layout_def)
next
  case (Cons j js)
  let ?q = "slot_page st j"
  let ?st = "touch_page ?q (st, fs)"
  have wf: "cache_wf st" using Cons.prems(1) by (simp add: paged_ok_def)
  have recent: "p \<in> set (take (Suc m) (ps_lru ?st))"
  proof (cases "p = ?q")
    case False
    have "p \<in> set (take m (butlast (ps_lru st)))" if "ps_max_cached st \<le> length (ps_lru st)"
      using Cons.prems(3,4) that by (simp add: take_butlast)
    then show ?thesis
      using take_remove1 [OF Cons.prems(3) False] Cons.prems(3)
      by (simp add: touch_lru [OF wf] lru_after_def)
  qed (simp add: touch_lru [OF wf] lru_after_def)
  then have "p \<in> set (ps_lru ?st)" by (rule in_set_takeD)
  then have kept: "(p, a) \<in> set (ps_cache ?st)" "ps_maps ?st a = ps_maps st a"
    using touch_mapping [OF wf Cons.prems(2) refl, of ?q fs] by simp_all
  have ok: "paged_ok (?st, fs)" and same: "same_layout st ?st"
    using touch_ok [OF Cons.prems(1)] by simp_all
  have "Suc m + length js \<le> ps_max_cached ?st" using Cons.prems(4) same by (simp add: same_layout_def)
  from Cons.IH [OF ok kept(1) recent this] obtain st2
    where "gets js (?st, fs) = Inr (st2, fs)" "ps_maps st2 a = ps_maps ?st a" "same_layout ?st st2" by blast
  then show ?case
    using gets_Cons [OF Cons.prems(1), of j js] kept same by (auto simp: same_layout_def)
qed

text \<open>A mapping that is gone does not come back.\<close>

lemma mapping_dead:
  assumes "paged_ok (st, fs)" and "ps_maps st a = None" and "a < ps_next_map st"
  shows "\<exists>st2. gets js (st, fs) = Inr (st2, fs) \<and> ps_maps st2 a = None"
  using assms
proof (induction js arbitrary: st)
  case (Cons j js)
  let ?st = "touch_page (slot_page st j) (st, fs)"
  have wf: "cache_wf st" using Cons.prems(1) by (simp add: paged_ok_def)
  have ev: "ps_maps (evict_lru st) a = None \<and> ps_next_map (evict_lru st) = ps_next_map st"
    if "ps_max_cached st \<le> length (ps_cache st)"
    using Cons.prems(2) by (rule_tac evict_lru_spec [OF wf that]) simp
  have "ps_maps ?st a = None \<and> a < ps_next_map ?st"
    using Cons.prems(2,3) ev
    by (auto simp: touch_page_def load_page_def map_new_def Let_def split: option.split)
  then show ?case
    using Cons.IH [of ?st] touch_ok [OF Cons.prems(1)] gets_Cons [OF Cons.prems(1), of j js] by auto
qed (simp add: gets_def)

lemma mapping_lost:
  assumes "paged_ok (st, fs)" and "(p, a) \<in> set (ps_cache st)" and "ps_lru st = bs @ p # cs"
    and "distinct (map (slot_page st) js)" and "slot_page st ` set js \<inter> set (p # bs) = {}"
    and "length bs + length js = ps_max_cached st"
  shows "\<exists>st2. gets js (st, fs) = Inr (st2, fs) \<and> ps_maps st2 a = None"
  using assms
proof (induction js arbitrary: st bs cs)
  case Nil
  have wf: "cache_wf st" using Nil(1) by (simp add: paged_ok_def)
  then have "length (ps_lru st) \<le> ps_max_cached st" using cache_wf_lru(2) [OF wf] by (simp add: cache_wf_def)
  then show ?case using Nil by simp
next
  case (Cons j js)
  let ?q = "slot_page st j"
  let ?st = "touch_page ?q (st, fs)"
  have wf: "cache_wf st" using Cons.prems(1) by (simp add: paged_ok_def)
  have len: "length (ps_lru st) \<le> ps_max_cached st"
    using cache_wf_lru(2) [OF wf] wf by (simp add: cache_wf_def)
  have ok: "paged_ok (?st, fs)" and same: "same_layout st ?st"
    using touch_ok [OF Cons.prems(1)] by simp_all
  have q: "?q \<notin> set (p # bs)" using Cons.prems(5) by auto
  have lru: "ps_lru ?st = lru_after (ps_max_cached st) ?q (bs @ p # cs)"
    using touch_lru [OF wf, of ?q fs] Cons.prems(3) by simp
  have mapping: "if p \<in> set (ps_lru ?st) then (p, a) \<in> set (ps_cache ?st) \<and> ps_maps ?st a = ps_maps st a
    else ps_maps ?st a = None \<and> a < ps_next_map ?st"
    by (rule touch_mapping [OF wf Cons.prems(2) refl])
  have pages: "slot_page ?st = slot_page st" using same_layout_slots(2) [OF same] by (rule ext)
  show ?case
  proof (cases "p \<in> set (ps_lru ?st)")
    case False
    then show ?thesis
      using mapping mapping_dead [OF ok, of a js] gets_Cons [OF Cons.prems(1), of j js] by simp
  next
    case True
    have "\<exists>cs'. ps_lru ?st = (?q # bs) @ p # cs'"
    proof (cases "?q \<in> set cs")
      case True
      then show ?thesis using q by (auto simp: lru lru_after_def remove1_append)
    next
      case out: False
      show ?thesis
      proof (cases "ps_max_cached st \<le> length (bs @ p # cs)")
        case full: True
        have "distinct (bs @ p # cs)" using wf Cons.prems(3) by (simp add: cache_wf_def)
        then have "cs \<noteq> []"
          using True full out q by (auto simp: lru lru_after_def butlast_append)
        then show ?thesis using full out q by (auto simp: lru lru_after_def butlast_append)
      qed (use out q in \<open>auto simp: lru lru_after_def\<close>)
    qed
    then obtain cs' where "ps_lru ?st = (?q # bs) @ p # cs'" by blast
    moreover have "slot_page ?st ` set js \<inter> set (p # ?q # bs) = {}" "distinct (map (slot_page ?st) js)"
      using Cons.prems(4,5) by (auto simp: pages)
    moreover have "length (?q # bs) + length js = ps_max_cached ?st"
      using Cons.prems(6) same by (simp add: same_layout_def)
    ultimately show ?thesis
      using Cons.IH [OF ok, of "?q # bs" cs'] mapping True gets_Cons [OF Cons.prems(1), of j js] by simp
  qed
qed

section \<open>Runs\<close>

lemma paged_run_get:
  assumes run: "paged_run path n cb (st, fs) vs" and n: "n < 2 ^ 62"
  obtains a st' where "paged_get i (st, fs) = Inr (page_floats a (vec_offset_in_page st i), (st', fs))"
    and "(slot_page st i, a) \<in> set (ps_cache st')" and "touched (slot_page st i) fs st st'"
    and "st' = touch_page (slot_page st i) (st, fs)" and "paged_run path n cb (st', fs) vs"
proof -
  have "paged_ok (st, fs)" using paged_run_inv [OF run n] by (simp add: paged_inv_def)
  then obtain a st' where *: "paged_get i (st, fs) = Inr (page_floats a (vec_offset_in_page st i), (st', fs))"
    "st' = touch_page (slot_page st i) (st, fs)"
    "(slot_page st i, a) \<in> set (ps_cache st')" "touched (slot_page st i) fs st st'"
    by (rule paged_get_touch)
  show ?thesis by (rule that [OF *(1,3,4,2) paged_run.got [OF run *(1)]])
qed

text \<open>A push drops its own page from the cache and no other.\<close>

lemma push_invalidate_keeps:
  assumes wf: "cache_wf st" and q: "(q, b) \<in> set (ps_cache st)" "q \<noteq> p"
  shows "(q, b) \<in> set (ps_cache (push_invalidate p st)) \<and> ps_maps (push_invalidate p st) b = ps_maps st b"
proof (cases "map_of (ps_cache st) p")
  case (Some a)
  then have "(p, a) \<in> set (ps_cache st)" by (rule map_of_SomeD)
  then have "b \<noteq> a" using q wf mapping_unique [of "ps_cache st" p a q] by (auto simp: cache_wf_def)
  then show ?thesis
    using Some q by (simp add: push_invalidate_def unmap_def split: option.split page_memory.split)
qed (use q in \<open>simp add: push_invalidate_def\<close>)

lemma paged_run_push:
  assumes run: "paged_run path n cb (st, fs) vs" and n: "n < 2 ^ 62"
    and vs: "length vs < 2 ^ 32" and w: "length w = n"
  obtains st' fs' where "paged_push w (st, fs) = Inr (length vs, (st', fs'))"
    and "paged_run path n cb (st', fs') (vs @ [w])" and "same_layout st st'"
    and "\<forall>p. p \<noteq> slot_page st (length vs) \<longrightarrow> cached_zeros st p \<longrightarrow> cached_zeros st' p"
    and "\<forall>p. cached_zeros st' p \<longrightarrow> cached_zeros st p"
proof -
  have inv: "paged_ok (st, fs)" "disk_holds (st, fs) vs" "ps_dim st = n"
    using paged_run_inv [OF run n] by (simp_all add: paged_inv_def)
  have spec: "okR (paged_push w (st, fs)) (\<lambda>(slot, (st', fs')). slot = length vs \<and> same_layout st st'
      \<and> set (ps_cache st') \<subseteq> set (ps_cache st) \<and> (\<forall>(q, b)\<in>set (ps_cache st'). ps_maps st' b = ps_maps st b))"
    using paged_push_spec [OF inv(1,2) vs, of w] inv(3) w by (cases "paged_push w (st, fs)") auto
  then obtain st' fs' where run': "paged_push w (st, fs) = Inr (length vs, (st', fs'))" "same_layout st st'"
    and cache: "set (ps_cache st') \<subseteq> set (ps_cache st)" "\<forall>(q, b)\<in>set (ps_cache st'). ps_maps st' b = ps_maps st b"
    by (cases "paged_push w (st, fs)") auto
  have num: "ps_n_vectors st = length vs" using inv(2) by (simp add: disk_holds_def Let_def)
  have st': "st' = push_invalidate (slot_page st (length vs)) (st\<lparr>ps_n_vectors := Suc (length vs)\<rparr>)"
    using run'(1) vs w inv(3) by (simp add: paged_push_def num slice_r_def slot_page_def Let_def)
  have wf: "cache_wf (st\<lparr>ps_n_vectors := Suc (length vs)\<rparr>)"
    using inv(1) by (simp add: paged_ok_def cache_wf_def)
  have zeros: "cached_zeros st' p" if "p \<noteq> slot_page st (length vs)" "cached_zeros st p" for p
    using push_invalidate_keeps [OF wf _ that(1)] that(2) by (fastforce simp: cached_zeros_def st')
  have zeros': "cached_zeros st p" if "cached_zeros st' p" for p
    using that cache by (fastforce simp: cached_zeros_def)
  have "paged_run path n cb (st', fs') (vs @ [w])"
    using paged_run.pushed [OF run vs run'(1)] w by simp
  with that run' zeros zeros' show ?thesis by blast
qed

text \<open>A store with one vector per page, to instantiate the properties.\<close>

lemma one_per_page:
  assumes run: "paged_run path n cb (st, fs) vs" and n: "511 < n" "n \<le> 1022" and "vs \<noteq> []"
  shows "slot_page st i = i"
    and "page_complete fs path p \<longleftrightarrow> p * 4096 + 4096 \<le> (length vs - 1) * 4096 + (8 + 4 * n)"
proof -
  have inv: "disk_holds (st, fs) vs" "ps_dim st = n" "ps_path st = path"
    "ps_per_page st = (page_size - 8) div (n * 4)"
    using paged_run_inv [OF run] n by (simp_all add: paged_inv_def)
  have "ps_per_page st = 1"
    unfolding inv(4) page_size_def using n by (intro div_nat_eqI) auto
  then show "slot_page st i = i" by (simp add: slot_page_def)
  show "page_complete fs path p \<longleftrightarrow> p * 4096 + 4096 \<le> (length vs - 1) * 4096 + (8 + 4 * n)"
    using disk_end [OF inv(1)] assms(4) inv(2,3) \<open>ps_per_page st = 1\<close>
    by (simp add: page_complete_def slot_offset_def slot_page_def vec_offset_in_page_def
        slot_in_page_def page_size_def algebra_simps)
qed

lemma open_small:
  assumes "0 < n" and "n \<le> 1022"
  obtains st fs where "paged_open ''p'' n cb no_files = Inr (st, fs)" and "paged_run ''p'' n cb (st, fs) []"
    and "\<forall>p. \<not> cached_zeros st p"
proof -
  have k: "n * 4 mod 2 ^ 64 = n * 4" "0 < n * 4" "0 < (page_size - 8) div (n * 4)"
    using assms by (simp_all add: page_size_def div_greater_zero_iff)
  obtain st fs where *: "paged_open ''p'' n cb no_files = Inr (st, fs)" "ps_cache st = []"
    using k by (simp add: paged_open_def vectors_per_page_def Let_def guardR_def open_rdwr_creat_def no_files_def)
  moreover have "file_content no_files ''p'' = []" by (simp add: file_content_def no_files_def)
  ultimately show ?thesis using that paged_run.opened [OF *(1)] by (simp add: cached_zeros_def)
qed

lemma push_one:
  assumes n: "0 < n" "n \<le> 1022" and w: "length w = n"
  obtains env st fs where "paged_open ''p'' n cb no_files = Inr env" and "paged_push w env = Inr (0, (st, fs))"
    and "paged_run ''p'' n cb (st, fs) [w]" and "\<forall>p. \<not> cached_zeros st p"
proof -
  obtain st0 fs0 where o: "paged_open ''p'' n cb no_files = Inr (st0, fs0)"
    "paged_run ''p'' n cb (st0, fs0) []" "\<forall>p. \<not> cached_zeros st0 p"
    by (rule open_small [OF n])
  have "n < 2 ^ 62" using n by simp
  then obtain st fs where "paged_push w (st0, fs0) = Inr (length ([] :: f32 list list), (st, fs))"
    "paged_run ''p'' n cb (st, fs) ([] @ [w])" "\<forall>p. cached_zeros st p \<longrightarrow> cached_zeros st0 p"
    by (rule paged_run_push [OF o(2) _ _ w]) simp
  then have "paged_push w (st0, fs0) = Inr (0, (st, fs))" "paged_run ''p'' n cb (st, fs) [w]"
    "\<forall>p. \<not> cached_zeros st p" using o(3) by simp_all
  with that o show ?thesis by blast
qed

lemma push_two:
  assumes n: "511 < n" "n \<le> 1022" and w: "length w = n"
  obtains env st fs where "paged_run ''p'' n cb (st, fs) [w, w]" and "\<forall>p. \<not> cached_zeros st p"
proof -
  obtain env st1 fs1 where o: "paged_run ''p'' n cb (st1, fs1) [w]" "\<forall>p. \<not> cached_zeros st1 p"
    by (rule push_one [OF _ n(2) w]) (use n in simp)
  have "n < 2 ^ 62" using n by simp
  then obtain st fs where "paged_run ''p'' n cb (st, fs) ([w] @ [w])"
    "\<forall>p. cached_zeros st p \<longrightarrow> cached_zeros st1 p"
    by (rule paged_run_push [OF o(1) _ _ w]) simp
  then have "paged_run ''p'' n cb (st, fs) [w, w]" "\<forall>p. \<not> cached_zeros st p" using o(2) by simp_all
  with that o show ?thesis by blast
qed

section \<open>Properties\<close>

text \<open>C19: In every state that pushes and gets reach from an empty file, a slot reads as the
  vector that was pushed, as long as the file holds its page completely and the page is not cached
  from before it did; otherwise it reads as zeros.  The read leads to such a state again.\<close>

theorem paged_read_back:
  assumes "paged_run path n cache_bytes (st, fs) vs" and "n < 2 ^ 62" and "i < length vs"
  shows "\<exists>st'. paged_read i (st, fs) = Inr
      (if page_complete fs path (slot_page st i) \<and> \<not> cached_zeros st (slot_page st i)
       then vs ! i else replicate n 0, (st', fs))
    \<and> paged_run path n cache_bytes (st', fs) vs"
proof -
  have inv: "paged_ok (st, fs)" "disk_holds (st, fs) vs" "ps_dim st = n" "ps_path st = path"
    using paged_run_inv [OF assms(1,2)] by (simp_all add: paged_inv_def)
  obtain st' where "st' = touch_page (slot_page st i) (st, fs)" "paged_run path n cache_bytes (st', fs) vs"
    by (rule paged_run_get [OF assms(1,2)])
  then show ?thesis using paged_read_spec [OF inv(1,2) assms(3)] inv(3,4) by simp
qed

theorem paged_read_back_witness:
  "\<exists>env0 env1 env2. paged_open ''p'' 1022 0 no_files = Inr env0
    \<and> paged_push (replicate 1022 f32_infinity) env0 = Inr (0, env1)
    \<and> paged_read 0 env1 = Inr (replicate 1022 f32_infinity, env2)"
proof -
  let ?w = "replicate 1022 f32_infinity"
  obtain env0 st fs where *: "paged_open ''p'' 1022 0 no_files = Inr env0" "paged_push ?w env0 = Inr (0, (st, fs))"
    and run: "paged_run ''p'' 1022 0 (st, fs) [?w]" and "\<forall>p. \<not> cached_zeros st p"
    by (rule push_one [of 1022 ?w 0]) simp_all
  moreover have "page_complete fs ''p'' (slot_page st 0)"
    using one_per_page [OF run] by simp
  ultimately show ?thesis using paged_read_back [OF run, of 0] by auto
qed

text \<open>C20: The cache never holds more pages than its budget, and at least one; its order of use
  lists exactly the cached pages, without repetition; every cached page has a live mapping of its
  own; and the file holds every vector pushed, at the offset of its slot.\<close>

theorem paged_cache_invariant:
  assumes "paged_run path n cache_bytes (st, fs) vs" and "n < 2 ^ 62"
  shows "length (ps_cache st) \<le> max 1 (cache_bytes div page_size) \<and> distinct (ps_lru st)
    \<and> set (ps_lru st) = fst ` set (ps_cache st) \<and> distinct (map snd (ps_cache st))
    \<and> (\<forall>e\<in>set (ps_cache st). ps_maps st (snd e) \<noteq> None)
    \<and> paged_count st = length vs
    \<and> (\<forall>i<length vs. take (4 * n) (drop (slot_page st i * page_size + vec_offset_in_page st i)
          (file_content fs path)) = f32s_bytes (vs ! i))"
proof -
  have inv: "cache_wf st" "disk_holds (st, fs) vs" "ps_dim st = n" "ps_path st = path"
    "ps_max_cached st = max 1 (cache_bytes div page_size)"
    using paged_run_inv [OF assms] by (simp_all add: paged_inv_def paged_ok_def)
  have "ps_maps st (snd e) \<noteq> None" if "e \<in> set (ps_cache st)" for e
    using cache_wf_entry [OF inv(1), of "fst e" "snd e"] that by auto
  then show ?thesis
    using inv by (simp add: cache_wf_def disk_holds_def Let_def slot_offset_def paged_count_def)
qed

theorem paged_cache_invariant_witness:
  "\<exists>env0 st fs. paged_open ''p'' 1022 8192 no_files = Inr env0
    \<and> paged_push (replicate 1022 f32_infinity) env0 = Inr (0, (st, fs))
    \<and> length (ps_cache st) \<le> 2 \<and> paged_count st = 1
    \<and> take 4088 (drop 8 (file_content fs ''p'')) = f32s_bytes (replicate 1022 f32_infinity)"
proof -
  let ?w = "replicate 1022 f32_infinity"
  obtain env0 st fs where *: "paged_open ''p'' 1022 8192 no_files = Inr env0" "paged_push ?w env0 = Inr (0, (st, fs))"
    and run: "paged_run ''p'' 1022 8192 (st, fs) [?w]"
    by (rule push_one [of 1022 ?w 8192]) simp_all
  have "vec_offset_in_page st 0 = 8" "slot_page st 0 = 0"
    by (simp_all add: vec_offset_in_page_def slot_in_page_def slot_page_def)
  then show ?thesis using * paged_cache_invariant [OF run] by (simp add: page_size_def)
qed

text \<open>The last page is not read from the file until it is complete: its vectors read as
  zeros, and once they have been read so, they still do after later pushes complete the page, since
  a push only drops its own page from the cache.\<close>

theorem paged_partial_page_zeros:
  assumes "paged_run path n cache_bytes (st, fs) vs" and "n < 2 ^ 62" and "i < length vs"
    and "\<not> page_complete fs path (slot_page st i)"
    and "length vs < 2 ^ 32" and "length w = n" and "slot_page st (length vs) \<noteq> slot_page st i"
  shows "\<exists>st1 env2 env3. paged_read i (st, fs) = Inr (replicate n 0, (st1, fs))
    \<and> paged_push w (st1, fs) = Inr (length vs, env2)
    \<and> paged_read i env2 = Inr (replicate n 0, env3)"
proof -
  let ?p = "slot_page st i"
  have path: "ps_path st = path" and ok: "paged_ok (st, fs)"
    using paged_run_inv [OF assms(1,2)] by (simp_all add: paged_inv_def)
  obtain a st1 where a: "(?p, a) \<in> set (ps_cache st1)" and t: "touched ?p fs st st1"
    and st1: "st1 = touch_page ?p (st, fs)" and run1: "paged_run path n cache_bytes (st1, fs) vs"
    by (rule paged_run_get [OF assms(1,2)])
  have same: "same_layout st st1" using t by (simp add: touched_def)
  have read: "paged_read i (st, fs) = Inr (replicate n 0, (st1, fs))"
    using paged_read_spec [OF ok _ assms(3)] paged_run_inv [OF assms(1,2)] assms(4) st1
    by (simp add: paged_inv_def)
  have zeros: "cached_zeros st1 ?p"
    using touched_mapping [OF ok, of ?p a] a assms(4) path by (auto simp: st1 cached_zeros_def)
  obtain st2 fs2 where push: "paged_push w (st1, fs) = Inr (length vs, (st2, fs2))"
    and run2: "paged_run path n cache_bytes (st2, fs2) (vs @ [w])" and same2: "same_layout st1 st2"
    and keep: "\<forall>p. p \<noteq> slot_page st1 (length vs) \<longrightarrow> cached_zeros st1 p \<longrightarrow> cached_zeros st2 p"
    by (rule paged_run_push [OF run1 assms(2,5,6)])
  have "cached_zeros st2 (slot_page st2 i)"
    using keep zeros assms(7) same_layout_slots(2) [OF same] same_layout_slots(2) [OF same2] by simp
  then show ?thesis
    using read push paged_read_back [OF run2 assms(2), of i] assms(3) by auto
qed

theorem paged_partial_page_zeros_witness:
  "\<exists>env0 env1 env2 st fs env4. paged_open ''p'' 1000 0 no_files = Inr env0
    \<and> paged_push (replicate 1000 f32_infinity) env0 = Inr (0, env1)
    \<and> paged_read 0 env1 = Inr (replicate 1000 0, env2)
    \<and> paged_push (replicate 1000 f32_infinity) env2 = Inr (1, (st, fs)) \<and> page_complete fs ''p'' 0
    \<and> paged_read 0 (st, fs) = Inr (replicate 1000 0, env4)"
proof -
  let ?w = "replicate 1000 f32_infinity"
  obtain env0 st fs where *: "paged_open ''p'' 1000 0 no_files = Inr env0" "paged_push ?w env0 = Inr (0, (st, fs))"
    and run: "paged_run ''p'' 1000 0 (st, fs) [?w]"
    by (rule push_one [of 1000 ?w 0]) simp_all
  have pages: "\<not> page_complete fs ''p'' (slot_page st 0)" "slot_page st 1 \<noteq> slot_page st 0"
    using one_per_page [OF run] by simp_all
  obtain st1 st2 fs2 env3 where reads: "paged_read 0 (st, fs) = Inr (replicate 1000 0, (st1, fs))"
    "paged_push ?w (st1, fs) = Inr (1, (st2, fs2))" "paged_read 0 (st2, fs2) = Inr (replicate 1000 0, env3)"
    using paged_partial_page_zeros [OF run, of 0 ?w] pages by auto
  obtain st1' where read1: "paged_read 0 (st, fs) = Inr (replicate 1000 0, (st1', fs))"
    "paged_run ''p'' 1000 0 (st1', fs) [?w]"
    using paged_run_get [OF run, of 0] paged_read_spec [of st fs "[?w]" 0] paged_run_inv [OF run] pages(1)
    by (auto simp: paged_inv_def)
  then have "st1' = st1" using reads(1) by simp
  then have "paged_run ''p'' 1000 0 (st2, fs2) ([?w] @ [take 1000 ?w])"
    using paged_run.pushed [OF read1(2) _ , of ?w 1 "(st2, fs2)"] reads(2) by simp
  from one_per_page(2) [OF this, of 0] have "page_complete fs2 ''p'' 0" by simp
  then show ?thesis using * reads by blast
qed

text \<open>The pointer \<open>get\<close> returns stays valid, and reads the same floats, through any gets
  fewer than the pages the cache may hold.\<close>

theorem paged_pointer_valid:
  assumes "paged_run path n cache_bytes (st, fs) vs" and "n < 2 ^ 62"
    and "paged_get i (st, fs) = Inr (ptr, env1)" and "length js < max 1 (cache_bytes div page_size)"
  shows "\<exists>env2. gets js env1 = Inr env2 \<and> ptr env2 = ptr env1"
proof -
  let ?p = "slot_page st i"
  obtain a st1 where get: "paged_get i (st, fs) = Inr (page_floats a (vec_offset_in_page st i), (st1, fs))"
    and a: "(?p, a) \<in> set (ps_cache st1)" and t: "touched ?p fs st st1"
    and run1: "paged_run path n cache_bytes (st1, fs) vs"
    by (rule paged_run_get [OF assms(1,2)])
  have ok: "paged_ok (st1, fs)" and cap: "ps_max_cached st1 = max 1 (cache_bytes div page_size)"
    using paged_run_inv [OF run1 assms(2)] by (simp_all add: paged_inv_def)
  have "set (ps_lru st1) \<noteq> {}" using ok a by (auto simp: paged_ok_def cache_wf_def)
  then have "?p \<in> set (take 1 (ps_lru st1))" using t by (cases "ps_lru st1") (simp_all add: touched_def)
  moreover have "1 + length js \<le> ps_max_cached st1" using assms(4) cap by simp
  ultimately obtain st2 where "gets js (st1, fs) = Inr (st2, fs)" "ps_maps st2 a = ps_maps st1 a"
    "same_layout st1 st2"
    using mapping_kept [OF ok a] by blast
  moreover have "page_floats a pos (st2, fs) = page_floats a pos (st1, fs)" for pos
    using calculation by (simp add: page_floats_def same_layout_def Let_def split: option.split page_memory.split)
  ultimately show ?thesis using get assms(3) by auto
qed

theorem paged_pointer_valid_witness:
  "\<exists>env ptr env1 env2. paged_get 0 env = Inr (ptr, env1) \<and> gets [1] env1 = Inr env2 \<and> ptr env2 = ptr env1"
proof -
  let ?w = "replicate 1022 f32_infinity"
  obtain st fs where run: "paged_run ''p'' 1022 8192 (st, fs) [?w, ?w]"
    by (rule push_two [of 1022 ?w 8192]) simp_all
  have n: "(1022::nat) < 2 ^ 62" by simp
  obtain ptr env1 where get: "paged_get 0 (st, fs) = Inr (ptr, env1)"
    by (rule paged_run_get [OF run n])
  have "length [1::nat] < max 1 (8192 div page_size)" by (simp add: page_size_def)
  from paged_pointer_valid [OF run n get this] get show ?thesis by blast
qed

text \<open>C40: As many gets of other pages as the cache may hold unmap the page: reading through the
  pointer is then undefined behaviour.\<close>

theorem paged_pointer_dangles:
  assumes "paged_run path n cache_bytes (st, fs) vs" and "n < 2 ^ 62"
    and "paged_get i (st, fs) = Inr (ptr, env1)" and "length js = max 1 (cache_bytes div page_size)"
    and "distinct (map (slot_page st) (i # js))"
  shows "\<exists>env2. gets js env1 = Inr env2 \<and> ptr env2 = Inl Undefined_Behaviour"
proof -
  let ?p = "slot_page st i"
  obtain a st1 where get: "paged_get i (st, fs) = Inr (page_floats a (vec_offset_in_page st i), (st1, fs))"
    and a: "(?p, a) \<in> set (ps_cache st1)" and t: "touched ?p fs st st1"
    and run1: "paged_run path n cache_bytes (st1, fs) vs"
    by (rule paged_run_get [OF assms(1,2)])
  have ok: "paged_ok (st1, fs)" and cap: "ps_max_cached st1 = max 1 (cache_bytes div page_size)"
    using paged_run_inv [OF run1 assms(2)] by (simp_all add: paged_inv_def)
  have "set (ps_lru st1) \<noteq> {}" using ok a by (auto simp: paged_ok_def cache_wf_def)
  then have lru: "ps_lru st1 = [] @ ?p # tl (ps_lru st1)"
    using t by (cases "ps_lru st1") (simp_all add: touched_def)
  have "slot_page st1 = slot_page st"
    using t by (intro ext) (simp add: touched_def same_layout_slots)
  then have "distinct (map (slot_page st1) js)" "slot_page st1 ` set js \<inter> set [?p] = {}"
    using assms(5) by auto
  moreover have "length [] + length js = ps_max_cached st1" using assms(4) cap by simp
  ultimately obtain st2 where "gets js (st1, fs) = Inr (st2, fs)" "ps_maps st2 a = None"
    using mapping_lost [OF ok a lru] by blast
  then show ?thesis using get assms(3) by (auto simp: page_floats_def)
qed

theorem paged_pointer_dangles_witness:
  "\<exists>env ptr env1 env2. paged_get 0 env = Inr (ptr, env1) \<and> gets [1] env1 = Inr env2
    \<and> ptr env2 = Inl Undefined_Behaviour"
proof -
  let ?w = "replicate 1022 f32_infinity"
  obtain st fs where run: "paged_run ''p'' 1022 0 (st, fs) [?w, ?w]"
    by (rule push_two [of 1022 ?w 0]) simp_all
  have n: "(1022::nat) < 2 ^ 62" by simp
  obtain ptr env1 where get: "paged_get 0 (st, fs) = Inr (ptr, env1)"
    by (rule paged_run_get [OF run n])
  have "length [1::nat] = max 1 (0 div page_size)" by simp
  moreover have "distinct (map (slot_page st) (0 # [1]))" using one_per_page(1) [OF run] by simp
  ultimately show ?thesis using paged_pointer_dangles [OF run n get] get by blast
qed

end
