(* ===== verification/Paged_Index.thy ===== *)
theory Paged_Index
  imports Hnsw_Env Hnsw_Store Paged_Properties
begin

text \<open>
  \<open>PagedIndex\<close> (\<open>src/include/paged_index.hpp\<close>, \<open>src/src/paged_index.cpp\<close>): a paged vector store
  and an HNSW index that reads its vectors through the store.  The state of the store and the
  files are the environment of the visit context, which the accessor changes.
\<close>

section \<open>The index\<close>

record paged_index =
  pi_dim :: nat
  pi_hnsw :: "paged_env hnsw"

text \<open>The constructor: open the store, make the index, install the accessor.\<close>

definition paged_index_new ::
    "(f32 \<Rightarrow> f32) \<Rightarrow> string \<Rightarrow> nat \<Rightarrow> nat \<Rightarrow> hnsw_config \<Rightarrow> filesys \<Rightarrow> (paged_index \<times> paged_env) res" where
  "paged_index_new logf path n cache_bytes cfg fs =
     bindR (paged_open path n cache_bytes fs) (\<lambda>env.
     Inr (\<lparr>pi_dim = n, pi_hnsw = set_vector_accessor (Some paged_get) (hnsw_new logf n cfg)\<rparr>, env))"

definition paged_index_insert ::
    "(scored list \<Rightarrow> scored list) \<Rightarrow> (f32 \<Rightarrow> f32) \<Rightarrow> f32 \<Rightarrow> 64 word \<Rightarrow> f32 list \<Rightarrow> string
      \<Rightarrow> paged_index \<times> paged_env visit_ctx \<Rightarrow> (paged_index \<times> paged_env visit_ctx) res" where
  "paged_index_insert srt logf val i vec meta = (\<lambda>(px, ctx).
     bindR (paged_push vec (vis_env ctx)) (\<lambda>(_, env).
     bindR (hnsw_insert srt logf val i vec meta (pi_hnsw px, ctx\<lparr>vis_env := env\<rparr>)) (\<lambda>(h, ctx).
     Inr (px\<lparr>pi_hnsw := h\<rparr>, ctx))))"

definition paged_index_insert_vec ::
    "(scored list \<Rightarrow> scored list) \<Rightarrow> (f32 \<Rightarrow> f32) \<Rightarrow> f32 \<Rightarrow> 64 word \<Rightarrow> f32 list \<Rightarrow> string
      \<Rightarrow> paged_index \<times> paged_env visit_ctx \<Rightarrow> (paged_index \<times> paged_env visit_ctx) res" where
  "paged_index_insert_vec srt logf val i vec meta = (\<lambda>(px, ctx).
     bindR (guardR (length vec = pi_dim px) (Invalid_Argument ''dimension mismatch'')) (\<lambda>_.
     paged_index_insert srt logf val i vec meta (px, ctx)))"

definition paged_index_search ::
    "(scored list \<Rightarrow> scored list) \<Rightarrow> paged_index \<Rightarrow> f32 list \<Rightarrow> int \<Rightarrow> paged_env visit_ctx
      \<Rightarrow> ((f32 \<times> 64 word) list \<times> paged_env visit_ctx) res" where
  "paged_index_search srt px query k ctx = hnsw_search srt (pi_hnsw px) query k ctx"

definition paged_index_search_vec ::
    "(scored list \<Rightarrow> scored list) \<Rightarrow> paged_index \<Rightarrow> f32 list \<Rightarrow> int \<Rightarrow> paged_env visit_ctx
      \<Rightarrow> ((f32 \<times> 64 word) list \<times> paged_env visit_ctx) res" where
  "paged_index_search_vec srt px query k ctx =
     bindR (guardR (length query = pi_dim px) (Invalid_Argument ''dimension mismatch'')) (\<lambda>_.
     hnsw_search srt (pi_hnsw px) query k ctx)"

definition paged_index_size :: "paged_env visit_ctx \<Rightarrow> nat" where
  "paged_index_size ctx = paged_count (fst (vis_env ctx))"

section \<open>The states an index reaches\<close>

text \<open>
  An index created on a new or empty file, with the entries inserted since.  Every operation
  may run with the visited table of another thread, of which only the environment is shared.
\<close>

type_synonym entry = "64 word \<times> f32 list \<times> string"

inductive index_run ::
    "(scored list \<Rightarrow> scored list) \<Rightarrow> (f32 \<Rightarrow> f32) \<Rightarrow> string \<Rightarrow> nat \<Rightarrow> nat
      \<Rightarrow> paged_index \<Rightarrow> paged_env visit_ctx \<Rightarrow> entry list \<Rightarrow> bool"
  for srt :: "scored list \<Rightarrow> scored list" and logf :: "f32 \<Rightarrow> f32" and path :: string
    and n :: nat and cache_bytes :: nat
where
  created: "paged_index_new logf path n cache_bytes cfg fs = Inr (px, env) \<Longrightarrow> cfg_ok cfg
    \<Longrightarrow> file_content fs path = [] \<Longrightarrow> visit_ok ctx \<Longrightarrow> vis_env ctx = env
    \<Longrightarrow> index_run srt logf path n cache_bytes px ctx []"
| inserted: "index_run srt logf path n cache_bytes px ctx es \<Longrightarrow> length es < 2 ^ 32
    \<Longrightarrow> random_layer logf val (h_mL (pi_hnsw px)) = Inr level \<Longrightarrow> 0 \<le> level
    \<Longrightarrow> paged_index_insert srt logf val i vec meta (px, ctx) = Inr (px', ctx')
    \<Longrightarrow> index_run srt logf path n cache_bytes px' ctx' (es @ [(i, take n vec, meta)])"
| searched: "index_run srt logf path n cache_bytes px ctx es \<Longrightarrow> length es < 2 ^ 32
    \<Longrightarrow> paged_index_search srt px query k ctx = Inr (rs, ctx')
    \<Longrightarrow> index_run srt logf path n cache_bytes px ctx' es"
| other_thread: "index_run srt logf path n cache_bytes px ctx es \<Longrightarrow> visit_ok ctx'
    \<Longrightarrow> vis_env ctx' = vis_env ctx \<Longrightarrow> index_run srt logf path n cache_bytes px ctx' es"

text \<open>Any run of the accessor keeps the store in a state that pushes and gets reach.\<close>

interpretation paged: accessor_invariant paged_get "\<lambda>env. paged_run path n cache_bytes env vs"
  for path n cache_bytes vs
  by unfold_locales (rule paged_run.got)

text \<open>What holds in all these states.\<close>

definition index_inv ::
    "string \<Rightarrow> nat \<Rightarrow> nat \<Rightarrow> paged_index \<Rightarrow> paged_env visit_ctx \<Rightarrow> entry list \<Rightarrow> bool" where
  "index_inv path n cache_bytes px ctx es \<longleftrightarrow>
     (let h = pi_hnsw px in
      pi_dim px = n \<and> hnsw_wf h \<and> h_dim h = n \<and> h_vec_accessor h = Some paged_get
      \<and> h_num_vectors h = length es \<and> h_id_map h = map fst es \<and> h_metadata h = map (snd \<circ> snd) es
      \<and> h_tombstone h = replicate (length es) False \<and> stored_vectors h = map (fst \<circ> snd) es
      \<and> visit_ok ctx \<and> paged_run path n cache_bytes (vis_env ctx) (map (fst \<circ> snd) es))"

lemma index_run_inv:
  assumes run: "index_run srt logf path n cache_bytes px ctx es" and srt: "desc_sorter srt" and n: "n < 2 ^ 62"
  shows "index_inv path n cache_bytes px ctx es"
  using run
proof (induction rule: index_run.induct)
  case (created cfg fs px env ctx)
  have "paged_open path n cache_bytes fs = Inr env"
    and px: "px = \<lparr>pi_dim = n, pi_hnsw = set_vector_accessor (Some paged_get) (hnsw_new logf n cfg)\<rparr>"
    using created(1) by (auto simp: paged_index_new_def bindR_Inr_iff)
  then have "paged_run path n cache_bytes env []" using created(3) by (intro paged_run.opened)
  moreover have "hnsw_wf (pi_hnsw px)"
    using hnsw_wf_new [OF created(2), of logf n]
    by (simp add: px set_vector_accessor_def hnsw_wf_def hnsw_sizes_def levels_wf_def)
  ultimately show ?case
    using created(4,5)
    by (simp add: index_inv_def px set_vector_accessor_def hnsw_new_def stored_vectors_def Let_def)
next
  case (inserted px ctx es val level i vec meta px' ctx')
  let ?h = "pi_hnsw px"
  have inv: "pi_dim px = n" "hnsw_wf ?h" "h_dim ?h = n" "h_vec_accessor ?h = Some paged_get"
      "h_num_vectors ?h = length es" "visit_ok ctx" "stored_vectors ?h = map (fst \<circ> snd) es"
      "paged_run path n cache_bytes (vis_env ctx) (map (fst \<circ> snd) es)"
    using inserted.IH by (simp_all add: index_inv_def Let_def)
  obtain slot env h' where push: "paged_push vec (vis_env ctx) = Inr (slot, env)"
    and ins: "hnsw_insert srt logf val i vec meta (?h, ctx\<lparr>vis_env := env\<rparr>) = Inr (h', ctx')"
    and px': "px' = px\<lparr>pi_hnsw := h'\<rparr>"
    using inserted.hyps(5) by (auto simp: paged_index_insert_def bindR_Inr_iff)
  have env: "paged_run path n cache_bytes env (map (fst \<circ> snd) es @ [take n vec])"
    using paged_run.pushed [OF inv(8) _ push] inserted.hyps(2) by simp
  then have env': "paged_run path n cache_bytes (vis_env (ctx\<lparr>vis_env := env\<rparr>)) (map (fst \<circ> snd) es @ [take n vec])"
    by simp
  have num: "h_num_vectors ?h < 2 ^ 32" using inv(5) inserted.hyps(2) by simp
  have spec: "hnsw_wf h' \<and> inserted i vec meta ?h h' \<and> visit_ok ctx'"
    using hnsw_insert_spec [OF srt inv(2) _ num inserted.hyps(3,4), of "ctx\<lparr>vis_env := env\<rparr>" False vec i meta]
      inv(6) ins by simp
  have vec: "h_dim ?h \<le> length vec"
  proof (cases "vis_env ctx")
    case (Pair st fs)
    then show ?thesis
      using push inv(3) paged_push_dim [of vec st fs] paged_run_inv [OF inv(8) n]
      by (simp add: paged_inv_def)
  qed
  have "stored_vectors h' = stored_vectors ?h @ [take n vec]"
    using stored_inserted [of ?h i vec meta h'] spec vec inv(2,3) by (simp add: hnsw_wf_def)
  moreover have "paged_run path n cache_bytes (vis_env ctx') (map (fst \<circ> snd) es @ [take n vec])"
    using paged.insert_keeps [OF inv(4) env', of srt logf val i vec meta] ins by simp
  ultimately show ?case
    using spec inserted.IH
    by (simp add: index_inv_def px' Let_def inserted_def replicate_append_same)
next
  case (searched px ctx es query k rs ctx')
  let ?h = "pi_hnsw px"
  have run: "hnsw_search srt ?h query k ctx = Inr (rs, ctx')"
    using searched.hyps(3) by (simp add: paged_index_search_def)
  have acc: "h_vec_accessor ?h = Some paged_get" and wf: "hnsw_wf ?h" and ctx: "visit_ok ctx"
    and env: "paged_run path n cache_bytes (vis_env ctx) (map (fst \<circ> snd) es)"
    using searched.IH by (simp_all add: index_inv_def Let_def)
  have "paged_run path n cache_bytes (vis_env ctx') (map (fst \<circ> snd) es)"
    using paged.search_keeps [OF acc env, of srt query k] run by simp
  moreover have "h_num_vectors ?h < 2 ^ 32"
    using searched.IH searched.hyps(2) by (simp add: index_inv_def Let_def)
  then have "visit_ok ctx'"
    using hnsw_search_spec [OF srt wf ctx, of False query k] run by simp
  ultimately show ?case using searched.IH by (simp add: index_inv_def Let_def)
next
  case (other_thread px ctx es ctx')
  then show ?case by (simp add: index_inv_def Let_def)
qed

section \<open>Searching through the store\<close>

text \<open>
  The vector a slot reads as while no page is cached from before it was complete.
\<close>

definition paged_vector :: "string \<Rightarrow> nat \<Rightarrow> filesys \<Rightarrow> f32 list list \<Rightarrow> nat \<Rightarrow> f32 list" where
  "paged_vector path n fs vs i =
     (if page_complete fs path (i div ((page_size - 8) div (n * 4))) then vs ! i else replicate n 0)"

definition paged_readable :: "nat \<Rightarrow> f32 list list \<Rightarrow> paged_env hnsw \<Rightarrow> nat \<Rightarrow> bool" where
  "paged_readable n vs h i \<longleftrightarrow> h_vec_accessor h = Some paged_get \<and> h_dim h = n \<and> i < length vs"

definition paged_fresh :: "string \<Rightarrow> nat \<Rightarrow> nat \<Rightarrow> filesys \<Rightarrow> f32 list list \<Rightarrow> paged_env \<Rightarrow> bool" where
  "paged_fresh path n cache_bytes fs vs env \<longleftrightarrow>
     n < 2 ^ 62 \<and> snd env = fs \<and> not_stale env \<and> paged_run path n cache_bytes env vs"

interpretation store: vector_source
    "paged_readable n vs" "\<lambda>_. paged_vector path n fs vs" "\<lambda>_. paged_fresh path n cache_bytes fs vs"
  for path n cache_bytes fs vs
proof (unfold_locales, goal_cases)
  case (1 h i env)
  note h = 1(1) and env = 1(2)
  obtain st where e: "env = (st, fs)" using env by (cases env) (simp add: paged_fresh_def)
  have run: "paged_run path n cache_bytes (st, fs) vs" and n: "n < 2 ^ 62" and fresh: "not_stale (st, fs)"
    using env by (simp_all add: paged_fresh_def e)
  have inv: "paged_ok (st, fs)" "disk_holds (st, fs) vs" "ps_dim st = n" "ps_path st = path"
    "ps_per_page st = (page_size - 8) div (n * 4)"
    using paged_run_inv [OF run n] by (simp_all add: paged_inv_def)
  have i: "i < length vs" using h by (simp add: paged_readable_def)
  have vec: "(if page_complete fs (ps_path st) (slot_page st i) then vs ! i else replicate (ps_dim st) 0)
      = paged_vector path n fs vs i"
    using inv(3-5) by (simp add: paged_vector_def slot_page_def)
  have "okR (paged_get i (st, fs)) (\<lambda>(ptr, env'). paged_fresh path n cache_bytes fs vs env'
      \<and> okR (ptr env') (\<lambda>v. n \<le> length v \<and> take n v = paged_vector path n fs vs i))"
    using paged_get_spec [OF inv(1,2) i fresh, unfolded vec] unfolding inv(3)
  proof (rule okR_mono)
    fix x :: "(paged_env \<Rightarrow> f32 list res) \<times> paged_env"
    assume get: "paged_get i (st, fs) = Inr x"
      and post: "case x of (ptr, (st', fs')) \<Rightarrow> fs' = fs \<and> paged_ok (st', fs) \<and> same_layout st st'
        \<and> disk_holds (st', fs) vs \<and> not_stale (st', fs)
        \<and> okR (ptr (st', fs)) (\<lambda>v. n \<le> length v \<and> take n v = paged_vector path n fs vs i)"
    obtain ptr st' fs' where x: "x = (ptr, (st', fs'))" by (metis prod.exhaust)
    have "paged_run path n cache_bytes (st', fs') vs" using get x by (intro paged_run.got [OF run]) simp
    then show "case x of (ptr, env') \<Rightarrow> paged_fresh path n cache_bytes fs vs env'
      \<and> okR (ptr env') (\<lambda>v. n \<le> length v \<and> take n v = paged_vector path n fs vs i)"
      using post n by (simp add: x paged_fresh_def)
  qed
  then show ?case
    using h by (simp add: e get_vec_def paged_readable_def)
qed

text \<open>An index with one entry, to instantiate the properties.\<close>

definition paged_ctx :: "paged_env \<Rightarrow> paged_env visit_ctx" where
  "paged_ctx env = \<lparr>vis_size = 0, vis_at = (\<lambda>_. 0), vis_tag = 0, vis_env = env\<rparr>"

lemma one_entry:
  obtains px0 env0 px ctx where
    "paged_index_new log_two ''p'' 1 0 cfg_small no_files = Inr (px0, env0)"
    and "paged_index_insert_vec isort_desc log_two (F32 0x3F000000) 7 [f32_one] ''a'' (px0, paged_ctx env0)
      = Inr (px, ctx)"
    and "index_run isort_desc log_two ''p'' 1 0 px ctx [(7, [f32_one], ''a'')]"
    and "not_stale (vis_env ctx)"
    and "paged_vector ''p'' 1 (snd (vis_env ctx)) [[f32_one]] = (\<lambda>i. [0])"
proof -
  let ?h = "set_vector_accessor (Some paged_get) (hnsw_new log_two 1 cfg_small) :: paged_env hnsw"
  let ?px = "\<lparr>pi_dim = 1, pi_hnsw = ?h\<rparr>"
  obtain env0 st fs where o: "paged_open ''p'' 1 0 no_files = Inr env0" "paged_push [f32_one] env0 = Inr (0, (st, fs))"
    and run: "paged_run ''p'' 1 0 (st, fs) [[f32_one]]" and zeros: "\<forall>p. \<not> cached_zeros st p"
    by (rule push_one [of 1 "[f32_one]" 0]) simp_all
  let ?c = "paged_ctx env0"
  have new: "paged_index_new log_two ''p'' 1 0 cfg_small no_files = Inr (?px, env0)"
    by (simp only: paged_index_new_def o(1) bindR_simps)
  have run0: "index_run isort_desc log_two ''p'' 1 0 ?px ?c []"
    by (rule index_run.created [OF new])
      (simp_all add: cfg_ok_def cfg_small_def file_content_def no_files_def visit_ok_def paged_ctx_def)
  have level: "random_layer log_two (F32 0x3F000000) (h_mL (pi_hnsw ?px)) = Inr 0"
    using level_two by (simp add: set_vector_accessor_def hnsw_new_def cfg_small_def)
  obtain px ctx where ins: "paged_index_insert isort_desc log_two (F32 0x3F000000) 7 [f32_one] ''a'' (?px, ?c) = Inr (px, ctx)"
    and ctx: "vis_env ctx = (st, fs)"
    using level by (auto simp: paged_index_insert_def paged_ctx_def o hnsw_insert_def new_slot_def slice_r_def
        set_vector_accessor_def hnsw_new_def)
  have run1: "index_run isort_desc log_two ''p'' 1 0 px ctx ([] @ [(7, take 1 [f32_one], ''a'')])"
    by (rule index_run.inserted [OF run0 _ level order_refl ins]) simp
  have stale: "not_stale (vis_env ctx)" using zeros by (auto simp: ctx not_stale_def cached_zeros_def)
  have inv: "disk_holds (st, fs) [[f32_one]]" "ps_path st = ''p''" "ps_dim st = 1"
    using paged_run_inv [OF run] by (simp_all add: paged_inv_def)
  have "length (file_content fs ''p'') = 12"
    using disk_end [OF inv(1)] inv by (simp add: slot_offset_def slot_page_def vec_offset_in_page_def slot_in_page_def)
  then have vec: "paged_vector ''p'' 1 (snd (vis_env ctx)) [[f32_one]] = (\<lambda>i. [0])"
    by (auto simp: paged_vector_def page_complete_def page_size_def ctx)
  have ins': "paged_index_insert_vec isort_desc log_two (F32 0x3F000000) 7 [f32_one] ''a'' (?px, ?c) = Inr (px, ctx)"
    using ins by (simp add: paged_index_insert_vec_def)
  show ?thesis using that [OF new ins' _ stale vec] run1 by simp
qed

section \<open>Properties\<close>

text \<open>C18: In every state that insertions and searches of a paged index reach from an empty file,
  the graph is well-formed, its slots are the inserted entries in order, none of them deleted, and
  the store has as many vectors: each one is in the file at the offset of its slot and, a second
  time, in the memory of the graph.\<close>

theorem paged_index_consistent:
  assumes "index_run srt logf path n cache_bytes px ctx es" and "desc_sorter srt" and "n < 2 ^ 62"
  shows "hnsw_wf (pi_hnsw px) \<and> h_id_map (pi_hnsw px) = map fst es
    \<and> h_metadata (pi_hnsw px) = map (snd \<circ> snd) es \<and> hnsw_live_size (pi_hnsw px) = length es
    \<and> paged_index_size ctx = length es
    \<and> (\<forall>i<length es. own_vector (pi_hnsw px) i = fst (snd (es ! i))
        \<and> take (4 * n) (drop (slot_offset (fst (vis_env ctx)) i) (file_content (snd (vis_env ctx)) path))
          = f32s_bytes (fst (snd (es ! i))))"
proof -
  let ?h = "pi_hnsw px"
  obtain st fs where env: "vis_env ctx = (st, fs)" by (cases "vis_env ctx")
  have inv: "hnsw_wf ?h" "h_id_map ?h = map fst es" "h_metadata ?h = map (snd \<circ> snd) es"
      "h_num_vectors ?h = length es" "h_tombstone ?h = replicate (length es) False"
      "stored_vectors ?h = map (fst \<circ> snd) es"
      "paged_run path n cache_bytes (st, fs) (map (fst \<circ> snd) es)"
    using index_run_inv [OF assms] env by (simp_all add: index_inv_def Let_def)
  have disk: "disk_holds (st, fs) (map (fst \<circ> snd) es)" "ps_path st = path" "ps_dim st = n"
    using paged_run_inv [OF inv(7) assms(3)] by (simp_all add: paged_inv_def)
  have "own_vector ?h i = fst (snd (es ! i))" if "i < length es" for i
    using arg_cong [OF inv(6), of "\<lambda>vs. vs ! i"] that inv(4) by (simp add: stored_vectors_def)
  then show ?thesis
    using inv disk by (simp add: env hnsw_live_size_def paged_index_size_def paged_count_def
        disk_holds_def Let_def)
qed

theorem paged_index_consistent_witness:
  "\<exists>px0 env0 px ctx. paged_index_new log_two ''p'' 1 0 cfg_small no_files = Inr (px0, env0)
    \<and> paged_index_insert_vec isort_desc log_two (F32 0x3F000000) 7 [f32_one] ''a'' (px0, paged_ctx env0)
      = Inr (px, ctx)
    \<and> h_id_map (pi_hnsw px) = [7] \<and> paged_index_size ctx = 1 \<and> own_vector (pi_hnsw px) 0 = [f32_one]"
proof -
  have n: "(1::nat) < 2 ^ 62" by simp
  obtain px0 env0 px ctx where *: "paged_index_new log_two ''p'' 1 0 cfg_small no_files = Inr (px0, env0)"
    "paged_index_insert_vec isort_desc log_two (F32 0x3F000000) 7 [f32_one] ''a'' (px0, paged_ctx env0) = Inr (px, ctx)"
    and run: "index_run isort_desc log_two ''p'' 1 0 px ctx [(7, [f32_one], ''a'')]"
    by (rule one_entry)
  then show ?thesis
    using paged_index_consistent [OF run isort.whole.desc_sorter_axioms n] by auto
qed

text \<open>C14: A search of a paged index returns when no page is cached from before it was complete
  and no similarity is a not-a-number: whatever the size of the cache, every pointer is read before
  its page can be unmapped.  Its results are the first \<open>k\<close> of a locally optimal beam on layer
  0, best first, with respect to the vectors as the store reads them: those of complete pages as
  they were inserted, those of the last page as zeros while it is not complete.\<close>

theorem paged_index_search_optimum:
  assumes "index_run srt logf path n cache_bytes px ctx es" and "desc_sorter srt" and "n < 2 ^ 62"
    and "es \<noteq> []" and "length es < 2 ^ 32" and "length query = n" and "not_stale (vis_env ctx)"
    and "vec = paged_vector path n (snd (vis_env ctx)) (map (fst \<circ> snd) es)"
    and "\<forall>i<length es. \<not> is_nan (score_of n query (vec i))"
  shows "\<exists>rs ctx' out V. paged_index_search_vec srt px query k ctx = Inr (rs, ctx')
    \<and> not_stale (vis_env ctx')
    \<and> rs = map (\<lambda>p. (fst p, fst (es ! snd p))) (first_k k out)
    \<and> out \<noteq> [] \<and> int (length out) \<le> max 1 (cfg_ef_search (h_cfg (pi_hnsw px))) \<and> distinct (map snd out)
    \<and> snd ` set out \<subseteq> {..<length es}
    \<and> desc_sorted out \<and> (\<forall>p\<in>set out. fst p = score_of n query (vec (snd p)))
    \<and> snd ` set out \<subseteq> V \<and> (\<forall>i\<in>snd ` set out. set (links_at (pi_hnsw px) 0 i) \<subseteq> V)
    \<and> (\<forall>i\<in>V - snd ` set out. \<forall>p\<in>set out. \<not> fst p < score_of n query (vec i))"
proof -
  let ?h = "pi_hnsw px" and ?vs = "map (fst \<circ> snd) es" and ?fs = "snd (vis_env ctx)"
  let ?ef = "cfg_ef_search (h_cfg (pi_hnsw px))"
  have inv: "pi_dim px = n" "hnsw_wf ?h" "h_dim ?h = n" "h_vec_accessor ?h = Some paged_get"
      "h_num_vectors ?h = length es" "h_id_map ?h = map fst es"
      "h_tombstone ?h = replicate (length es) False" "visit_ok ctx"
      "paged_run path n cache_bytes (vis_env ctx) ?vs"
    using index_run_inv [OF assms(1-3)] by (simp_all add: index_inv_def Let_def)
  have fresh: "paged_fresh path n cache_bytes ?fs ?vs (vis_env ctx)"
    using inv(9) assms(3,7) by (simp add: paged_fresh_def)
  let ?sc = "node_score (\<lambda>_. paged_vector path n ?fs ?vs) ?h query"
  have sc: "?sc i = score_of n query (vec i)" for i by (simp add: node_score_def inv(3) assms(8))
  have fits: "query_fits (paged_readable n ?vs) (\<lambda>_. paged_vector path n ?fs ?vs) ?h query"
    using inv(3-5) assms(6,9) sc by (simp add: query_fits_def paged_readable_def)
  have num: "h_num_vectors ?h < 2 ^ 32" using inv(5) assms(5) by simp
  have "okR (hnsw_search srt ?h query k ctx) (\<lambda>(rs, ctx').
      paged_fresh path n cache_bytes ?fs ?vs (vis_env ctx') \<and> searched True ?sc ?h k rs)"
    using store.search_spec [OF assms(2) inv(2,8) num fresh fits, of True k]
    by (auto simp: holdsR_total elim!: okR_mono)
  then obtain rs ctx' where run: "hnsw_search srt ?h query k ctx = Inr (rs, ctx')"
    and env': "not_stale (vis_env ctx')" and res: "searched True ?sc ?h k rs"
    by (auto simp: okR_iff paged_fresh_def)
  have "False \<in> set (h_tombstone ?h)" using inv(7) assms(4) by simp
  then obtain ep out where sound: "layer_sound ?h 0 ep ?ef out" and below: "\<forall>p\<in>set out. snd p < length es"
    and rs: "rs = search_result_of ?h k out" and best: "layer_best ?sc ?h 0 ep ?ef out"
    using res inv(5) by (auto simp: searched_def)
  obtain V where V: "snd ` set out \<subseteq> V" "\<forall>i\<in>snd ` set out. set (links_at ?h 0 i) \<subseteq> V"
    "kept_best ?sc ?ef V out"
    using best unfolding layer_best_def by blast
  have out: "desc_sorted out" "\<forall>p\<in>set out. fst p = ?sc (snd p)"
    using best unfolding layer_best_def by blast+
  have live: "live_candidates ?h out = out"
    using below inv(7) by (simp add: live_candidates_def filter_id_conv)
  have "set (first_k k out) \<subseteq> set out" by (simp add: first_k_def set_take_subset)
  then have "\<forall>p\<in>set (first_k k out). snd p < length es" using below by blast
  then have "rs = map (\<lambda>p. (fst p, fst (es ! snd p))) (first_k k out)"
    using inv(6) by (auto simp: rs search_result_of_def live external_def)
  moreover have "paged_index_search_vec srt px query k ctx = Inr (rs, ctx')"
    using run inv(1) assms(6) by (simp add: paged_index_search_vec_def)
  ultimately show ?thesis using env' V out sound below sc
    by (intro exI [of _ rs] exI [of _ ctx'] exI [of _ out] exI [of _ V])
      (auto simp: layer_sound_def kept_best_def)
qed

text \<open>The only vector lies on an incomplete page, so its similarity to itself is zero.\<close>

theorem paged_index_search_optimum_witness:
  "\<exists>px0 env0 px ctx ctx'. paged_index_new log_two ''p'' 1 0 cfg_small no_files = Inr (px0, env0)
    \<and> paged_index_insert_vec isort_desc log_two (F32 0x3F000000) 7 [f32_one] ''a'' (px0, paged_ctx env0)
      = Inr (px, ctx)
    \<and> paged_index_search_vec isort_desc px [f32_one] 1 ctx = Inr ([(0, 7)], ctx')"
proof -
  have n: "(1::nat) < 2 ^ 62" by simp
  have score: "score_of 1 [f32_one] [0] = 0" by (simp add: score_of_def cosine_one_zero [unfolded One_nat_def])
  obtain px0 env0 px ctx where *: "paged_index_new log_two ''p'' 1 0 cfg_small no_files = Inr (px0, env0)"
    "paged_index_insert_vec isort_desc log_two (F32 0x3F000000) 7 [f32_one] ''a'' (px0, paged_ctx env0) = Inr (px, ctx)"
    and run: "index_run isort_desc log_two ''p'' 1 0 px ctx [(7, [f32_one], ''a'')]"
    and fresh: "not_stale (vis_env ctx)"
    and vec: "paged_vector ''p'' 1 (snd (vis_env ctx)) [[f32_one]] = (\<lambda>i. [0])"
    by (rule one_entry)
  have "\<not> is_nan (0 :: f32)" by code_simp
  then obtain rs ctx' out where
    found: "paged_index_search_vec isort_desc px [f32_one] 1 ctx = Inr (rs, ctx')"
    and rs: "rs = map (\<lambda>p. (fst p, fst ([(7, [f32_one], ''a'')] ! snd p))) (first_k 1 out)"
    and out: "out \<noteq> []" "snd ` set out \<subseteq> {..<1}" "\<forall>p\<in>set out. fst p = 0"
    using paged_index_search_optimum [OF run isort.whole.desc_sorter_axioms n, of "[f32_one]" "\<lambda>i. [0]" 1]
      fresh vec score by auto
  obtain p rest where "out = p # rest" using out(1) by (cases out) auto
  then have "rs = [(0, 7)]" using out rs by (simp add: first_k_def)
  then show ?thesis using * found by blast
qed

end
