(* ===== verification/Paged_Failures.thy ===== *)
theory Paged_Failures
  imports Paged_Properties Hnsw
begin

text \<open>
  \<open>PagedVectorStore::get\<close> when \<open>mmap\<close> fails (\<open>src/src/paged_index.cpp\<close>, the branch for POSIX):
  the exception of \<open>load_page_\<close>, after a page has been evicted for the one that does not come.
\<close>

section \<open>The operations with a map that may fail\<close>

text \<open>\<open>map_ok\<close>: does the call of \<open>mmap\<close> work?\<close>

definition load_page_io :: "bool \<Rightarrow> nat \<Rightarrow> paged_env \<Rightarrow> unit res \<times> paged_store" where
  "load_page_io map_ok p = (\<lambda>(st, fs).
     let st = (if ps_max_cached st \<le> length (ps_cache st) then evict_lru st else st) in
     if page_complete fs (ps_path st) p \<and> \<not> map_ok
     then (Inl (Runtime_Error ''PagedVectorStore: mmap failed''), st)
     else
       case map_new (if page_complete fs (ps_path st) p then File_Page (p * page_size) else Zero_Block) st of
         (a, st) \<Rightarrow> (Inr (), st\<lparr>ps_lru := p # ps_lru st, ps_cache := (p, a) # ps_cache st\<rparr>))"

definition paged_get_io ::
    "bool \<Rightarrow> nat \<Rightarrow> paged_env \<Rightarrow> (paged_env \<Rightarrow> f32 list res) res \<times> paged_store" where
  "paged_get_io map_ok slot = (\<lambda>(st, fs).
     let p = slot_page st slot in
     case (case map_of (ps_cache st) p of
             None \<Rightarrow> load_page_io map_ok p (st, fs)
           | Some a \<Rightarrow> (Inr (), st\<lparr>ps_lru := p # remove1 p (ps_lru st)\<rparr>)) of
       (Inl e, st') \<Rightarrow> (Inl e, st')
     | (Inr _, st') \<Rightarrow>
         (case map_of (ps_cache st') p of
            None \<Rightarrow> (Inl Undefined_Behaviour, st')
          | Some a \<Rightarrow> (Inr (page_floats a (vec_offset_in_page st slot)), st')))"

text \<open>The accessor that \<open>PagedIndex\<close> installs.\<close>

definition paged_accessor_io :: "bool \<Rightarrow> paged_env accessor" where
  "paged_accessor_io map_ok slot = (\<lambda>(st, fs).
     case paged_get_io map_ok slot (st, fs) of
       (Inl e, _) \<Rightarrow> Inl e
     | (Inr ptr, st) \<Rightarrow> Inr (ptr, (st, fs)))"

section \<open>Success and failure\<close>

lemma load_page_io_fails:
  assumes ok: "cache_wf st"
  shows "load_page_io False p (st, fs) = (if page_complete fs (ps_path st) p
    then (Inl (Runtime_Error ''PagedVectorStore: mmap failed''),
          if ps_max_cached st \<le> length (ps_cache st) then evict_lru st else st)
    else (Inr (), load_page p (st, fs)))"
  using make_room [OF ok] by (auto simp: load_page_io_def load_page_def Let_def split_beta shrunk_def same_layout_def)

text \<open>A map that works: the get of the rest of the development.\<close>

lemma paged_accessor_io_ok: "paged_accessor_io True i (st, fs) = paged_get i (st, fs)"
proof (cases "map_of (ps_cache st) (slot_page st i)")
  case None
  have "load_page_io True p (st, fs) = (Inr (), load_page p (st, fs))" for p
    by (simp add: load_page_io_def load_page_def Let_def split_beta)
  then show ?thesis
    using None by (simp add: paged_accessor_io_def paged_get_io_def paged_get_def touch_page_def Let_def
        split: option.split)
qed (simp add: paged_accessor_io_def paged_get_io_def paged_get_def touch_page_def Let_def)

text \<open>A map that fails.\<close>

lemma paged_get_io_fails:
  assumes ok: "paged_ok (st, fs)" and run: "paged_get_io False i (st, fs) = (Inl e, st')"
  shows "e = Runtime_Error ''PagedVectorStore: mmap failed''"
    and "slot_page st i \<notin> fst ` set (ps_cache st)" and "page_complete fs (ps_path st) (slot_page st i)"
    and "shrunk st st'" and "ps_lru st' = take (ps_max_cached st - 1) (ps_lru st)"
proof -
  let ?p = "slot_page st i"
  have wf: "cache_wf st" using ok by (simp add: paged_ok_def)
  have new: "map_of (ps_cache st) ?p = None"
    using run by (auto simp: paged_get_io_def Let_def split: option.splits)
  have cached: "\<exists>a. map_of (ps_cache (load_page ?p (st, fs))) ?p = Some a"
    by (simp add: load_page_def Let_def split_beta)
  have st': "page_complete fs (ps_path st) ?p \<and> e = Runtime_Error ''PagedVectorStore: mmap failed''
      \<and> st' = (if ps_max_cached st \<le> length (ps_cache st) then evict_lru st else st)"
    using run new cached
    by (auto simp: paged_get_io_def Let_def load_page_io_fails [OF wf] split: if_splits)
  then show "e = Runtime_Error ''PagedVectorStore: mmap failed''" "?p \<notin> fst ` set (ps_cache st)"
    "page_complete fs (ps_path st) ?p" "shrunk st st'"
    using make_room [OF wf] new by (auto simp: map_of_eq_None_iff)
  have len: "length (ps_lru st) = length (ps_cache st)" "length (ps_cache st) \<le> ps_max_cached st"
    using cache_wf_lru [OF wf] wf by (simp_all add: cache_wf_def)
  show "ps_lru st' = take (ps_max_cached st - 1) (ps_lru st)"
  proof (cases "ps_max_cached st \<le> length (ps_cache st)")
    case True
    obtain a where "evict_lru st = st\<lparr>ps_lru := butlast (ps_lru st),
        ps_cache := cache_erase (last (ps_lru st)) (ps_cache st), ps_maps := (ps_maps st)(a := None)\<rparr>"
      by (rule evict_lru_spec [OF wf True])
    then show ?thesis using st' True len by (simp add: butlast_conv_take)
  qed (use st' len in simp)
qed

lemma shrunk_paged_ok: "paged_ok (st, fs) \<Longrightarrow> shrunk st st' \<Longrightarrow> paged_ok (st', fs)"
  using same_layout_slots(4) [of st st'] by (fastforce simp: paged_ok_def shrunk_def same_layout_def)

section \<open>Properties\<close>

text \<open>The pages cached as zeros are those of before that are still cached.\<close>

lemma shrunk_zeros:
  assumes "cache_wf st" and "shrunk st st'"
  shows "cached_zeros st' p \<longleftrightarrow> cached_zeros st p \<and> p \<in> set (ps_lru st')"
proof -
  have cached: "set (ps_lru st') = fst ` set (ps_cache st')" "set (ps_cache st') \<subseteq> set (ps_cache st)"
    "distinct (map fst (ps_cache st))" "\<forall>(q, b)\<in>set (ps_cache st'). ps_maps st' b = ps_maps st b"
    using assms by (simp_all add: shrunk_def cache_wf_def)
  have "(p, a) \<in> set (ps_cache st')" if a: "(p, a) \<in> set (ps_cache st)" and p: "p \<in> set (ps_lru st')" for a
  proof -
    obtain b where "(p, b) \<in> set (ps_cache st')" using p cached(1) by auto
    moreover from this have "b = a" using a cached(2,3) by (meson eq_key_imp_eq_value subsetD)
    ultimately show ?thesis by simp
  qed
  then have "cached_zeros st p \<and> p \<in> set (ps_lru st') \<Longrightarrow> cached_zeros st' p"
    using cached(4) by (fastforce simp: cached_zeros_def)
  moreover have "cached_zeros st' p \<Longrightarrow> cached_zeros st p"
    using cached(2,4) by (fastforce simp: cached_zeros_def)
  moreover have "cached_zeros st' p \<Longrightarrow> p \<in> set (ps_lru st')"
    unfolding cached_zeros_def cached(1) by force
  ultimately show ?thesis by blast
qed

text \<open>C23: A \<open>get\<close> whose \<open>mmap\<close> fails throws and leaves a sound store: it can only fail on a complete
  page that is not cached, and at most the least recently used page is gone from the cache.  Every
  slot reads afterwards what it would have read before, with one exception: when the evicted page
  had been cached as zeros, before the file held all of it, and the file does by now, its slots
  read zeros before the failed \<open>get\<close> and their vectors after it.  A search reads its vectors
  through \<open>get_vec_\<close>, which is \<open>noexcept\<close>: there the same failure ends the program.\<close>

theorem paged_map_failure:
  assumes "paged_run path n cache_bytes (st, fs) vs" and "n < 2 ^ 62"
    and "paged_get_io False i (st, fs) = (Inl e, st')" and "h_vec_accessor h = Some (paged_accessor_io False)"
  shows "e = Runtime_Error ''PagedVectorStore: mmap failed''
    \<and> slot_page st i \<notin> fst ` set (ps_cache st) \<and> page_complete fs path (slot_page st i)
    \<and> paged_ok (st', fs) \<and> set (ps_cache st') \<subseteq> set (ps_cache st) \<and> ps_lru st' = take (ps_max_cached st - 1) (ps_lru st)
    \<and> (\<forall>j<length vs. \<exists>v s1 s2. paged_read j (st, fs) = Inr (v, s1)
        \<and> (let p = slot_page st j;
               stale = (cached_zeros st p \<and> p \<notin> set (ps_lru st') \<and> page_complete fs path p)
           in (stale \<longrightarrow> v = replicate n 0)
              \<and> paged_read j (st', fs) = Inr (if stale then vs ! j else v, s2)))
    \<and> get_vec h i (st, fs) = Inl Terminated"
proof -
  have inv: "paged_ok (st, fs)" "disk_holds (st, fs) vs" "ps_dim st = n" "ps_path st = path"
    using paged_run_inv [OF assms(1,2)] by (simp_all add: paged_inv_def)
  note F = paged_get_io_fails [OF inv(1) assms(3)]
  have ok: "paged_ok (st', fs)" by (rule shrunk_paged_ok [OF inv(1) F(4)])
  have same: "same_layout st st'" and n: "ps_n_vectors st' = ps_n_vectors st" using F(4) by (simp_all add: shrunk_def)
  have disk: "disk_holds (st', fs) vs" using disk_holds_layout [OF same n] inv(2) by simp
  have "cache_wf st" using inv(1) by (simp add: paged_ok_def)
  note zeros = shrunk_zeros [OF this F(4)]
  have "\<exists>v s1 s2. paged_read j (st, fs) = Inr (v, s1)
        \<and> (let p = slot_page st j;
               stale = (cached_zeros st p \<and> p \<notin> set (ps_lru st') \<and> page_complete fs path p)
           in (stale \<longrightarrow> v = replicate n 0)
              \<and> paged_read j (st', fs) = Inr (if stale then vs ! j else v, s2))" if j: "j < length vs" for j
  proof -
    let ?p = "slot_page st j"
    have lay: "slot_page st' j = ?p" "ps_path st' = path" "ps_dim st' = n"
      using same same_layout_slots [OF same] inv(3,4) by (simp_all add: same_layout_def)
    obtain s1 where s1: "paged_read j (st, fs)
        = Inr (if page_complete fs path ?p \<and> \<not> cached_zeros st ?p then vs ! j else replicate n 0, s1)"
      using paged_read_spec [OF inv(1,2) j] inv(3,4) by auto
    obtain s2 where s2: "paged_read j (st', fs)
        = Inr (if page_complete fs path ?p \<and> \<not> cached_zeros st' ?p then vs ! j else replicate n 0, s2)"
      using paged_read_spec [OF ok disk j] lay by auto
    show ?thesis unfolding s1 s2 zeros by (auto simp: Let_def)
  qed
  moreover have "get_vec h i (st, fs) = Inl Terminated"
    using assms(3,4) F(1) by (simp add: get_vec_def paged_accessor_io_def noexcept_r_def)
  ultimately show ?thesis using F ok inv(4) by (auto simp: shrunk_def)
qed

theorem paged_map_failure_witness:
  "\<exists>st fs st'. paged_run ''p'' 1022 0 (st, fs) [replicate 1022 f32_infinity]
    \<and> paged_get_io False 0 (st, fs) = (Inl (Runtime_Error ''PagedVectorStore: mmap failed''), st')
    \<and> get_vec (set_vector_accessor (Some (paged_accessor_io False)) (hnsw_new (\<lambda>x. x) 1022
      \<lparr>cfg_M = 16, cfg_ef_construction = 200, cfg_ef_search = 50\<rparr>)) 0 (st, fs) = Inl Terminated
    \<and> (\<exists>v s1 s2. paged_read 0 (st, fs) = Inr (v, s1) \<and> paged_read 0 (st', fs) = Inr (v, s2))"
proof -
  let ?w = "replicate 1022 f32_infinity"
  obtain env0 st fs where push: "paged_open ''p'' 1022 0 no_files = Inr env0" "paged_push ?w env0 = Inr (0, (st, fs))"
    and run: "paged_run ''p'' 1022 0 (st, fs) [?w]" and zeros: "\<forall>p. \<not> cached_zeros st p"
    by (rule push_one [of 1022 ?w 0]) simp_all
  obtain st0 fs0 where env0: "env0 = (st0, fs0)" by (cases env0)
  have "paged_run ''p'' 1022 0 env0 []"
    using push(1) by (rule paged_run.opened) (simp add: file_content_def no_files_def)
  from paged_run_inv [OF this]
  have "paged_ok (st0, fs0)" "disk_holds (st0, fs0) []" "ps_dim st0 = 1022"
    by (simp_all add: env0 paged_inv_def)
  then have "slot_page st0 0 \<notin> fst ` set (ps_cache st)"
    using paged_push_spec [of st0 fs0 "[]" ?w] push(2) by (simp add: env0)
  then have new: "map_of (ps_cache st) (slot_page st 0) = None"
    by (simp add: slot_page_def map_of_eq_None_iff)
  have path: "ps_path st = ''p''" "cache_wf st"
    using paged_run_inv [OF run] by (simp_all add: paged_inv_def paged_ok_def)
  have complete: "page_complete fs ''p'' (slot_page st 0)" using one_per_page [OF run] by simp
  obtain st' where io: "paged_get_io False 0 (st, fs) = (Inl (Runtime_Error ''PagedVectorStore: mmap failed''), st')"
    using new complete path by (simp add: paged_get_io_def load_page_io_fails)
  let ?h = "set_vector_accessor (Some (paged_accessor_io False)) (hnsw_new (\<lambda>x. x) 1022
      \<lparr>cfg_M = 16, cfg_ef_construction = 200, cfg_ef_search = 50\<rparr>)"
  have acc: "h_vec_accessor ?h = Some (paged_accessor_io False)" by (simp add: set_vector_accessor_def)
  show ?thesis
    using paged_map_failure [OF run _ io acc] run io zeros
    by (intro exI [of _ st] exI [of _ fs] exI [of _ st']) (auto simp: Let_def)
qed

end
