(* ===== verification/Paged_Windows.thy ===== *)
theory Paged_Windows
  imports Paged_Store
begin

text \<open>
  The branch for Windows of \<open>PagedVectorStore\<close> (\<open>src/src/paged_index.cpp\<close>).  A cached page is a
  pointer into a view of the whole file, with the handle of its mapping object, or a block of the
  heap.  Views and blocks have addresses, because the code computes with them:
  \<open>UnmapViewOfFile\<close> takes, as its documentation says, the address that \<open>MapViewOfFile\<close> returned,
  and refuses any other.  \<open>CreateFileMapping\<close> and \<open>MapViewOfFile\<close> may fail.
\<close>

section \<open>Memory\<close>

text \<open>The live views (base and length), blocks of a page, and mapping objects.\<close>

record win_memory =
  wm_views :: "(nat \<times> nat) list"
  wm_blocks :: "nat list"
  wm_maps :: "nat list"
  wm_next :: nat

definition view_new :: "nat \<Rightarrow> win_memory \<Rightarrow> nat \<times> win_memory" where
  "view_new len m = (wm_next m, m\<lparr>wm_views := (wm_next m, len) # wm_views m, wm_next := wm_next m + len\<rparr>)"

definition block_new :: "win_memory \<Rightarrow> nat \<times> win_memory" where
  "block_new m = (wm_next m, m\<lparr>wm_blocks := wm_next m # wm_blocks m, wm_next := wm_next m + page_size\<rparr>)"

definition page_map_new :: "win_memory \<Rightarrow> nat \<times> win_memory" where
  "page_map_new m = (wm_next m, m\<lparr>wm_maps := wm_next m # wm_maps m, wm_next := Suc (wm_next m)\<rparr>)"

definition unmap_view :: "nat \<Rightarrow> win_memory \<Rightarrow> win_memory" where
  "unmap_view a m = m\<lparr>wm_views := filter (\<lambda>v. fst v \<noteq> a) (wm_views m)\<rparr>"

definition free_block :: "nat \<Rightarrow> win_memory \<Rightarrow> win_memory" where
  "free_block a m = m\<lparr>wm_blocks := filter (\<lambda>b. b \<noteq> a) (wm_blocks m)\<rparr>"

definition close_map :: "nat \<Rightarrow> win_memory \<Rightarrow> win_memory" where
  "close_map h m = m\<lparr>wm_maps := filter (\<lambda>b. b \<noteq> h) (wm_maps m)\<rparr>"

section \<open>The store\<close>

text \<open>
  \<open>wn_store\<close> has the members that both branches have; its cache gives the address of a page.
  \<open>wn_handles\<close> gives the handle \<open>hPageMap\<close> of a page, which has no entry when it is null.  (The
  mappings of POSIX in \<open>wn_store\<close> stay unused.)
\<close>

record win_store =
  wn_store :: paged_store
  wn_handles :: "(nat \<times> nat) list"
  wn_mem :: win_memory

type_synonym win_env = "win_store \<times> filesys"

definition win_open :: "string \<Rightarrow> nat \<Rightarrow> nat \<Rightarrow> filesys \<Rightarrow> win_env res" where
  "win_open path n cache_bytes fs =
     bindR (paged_open path n cache_bytes fs) (\<lambda>(st, fs).
     Inr (\<lparr>wn_store = st, wn_handles = [],
           wn_mem = \<lparr>wm_views = [], wm_blocks = [], wm_maps = [], wm_next = 1\<rparr>\<rparr>, fs))"

text \<open>Forgetting a page: the entry and the place in the order.\<close>

definition forget_page :: "nat \<Rightarrow> win_store \<Rightarrow> win_store" where
  "forget_page p st =
     st\<lparr>wn_store := (wn_store st)\<lparr>ps_lru := remove1 p (ps_lru (wn_store st)),
          ps_cache := cache_erase p (ps_cache (wn_store st))\<rparr>,
        wn_handles := cache_erase p (wn_handles st)\<rparr>"

text \<open>The calls with which \<open>push\<close> and the destructor let a page go.\<close>

definition drop_mapping :: "nat \<Rightarrow> nat option \<Rightarrow> win_memory \<Rightarrow> win_memory" where
  "drop_mapping a h m =
     (let m = (if a \<noteq> 0 then unmap_view a m else m)
      in case h of None \<Rightarrow> m | Some h \<Rightarrow> close_map h m)"

definition win_invalidate :: "nat \<Rightarrow> win_store \<Rightarrow> win_store" where
  "win_invalidate p st =
     (case map_of (ps_cache (wn_store st)) p of
        None \<Rightarrow> st
      | Some a \<Rightarrow>
          forget_page p (st\<lparr>wn_mem := drop_mapping a (map_of (wn_handles st) p) (wn_mem st)\<rparr>))"

definition win_push :: "f32 list \<Rightarrow> win_env \<Rightarrow> (nat \<times> win_env) res" where
  "win_push vec = (\<lambda>(st, fs).
     let ps = wn_store st;
         slot = ps_n_vectors ps mod 2 ^ 32;
         ps = ps\<lparr>ps_n_vectors := Suc (ps_n_vectors ps)\<rparr> in
     bindR (slice_r vec 0 (ps_dim ps)) (\<lambda>v.
     Inr (slot, win_invalidate (slot_page ps slot) (st\<lparr>wn_store := ps\<rparr>), push_write ps slot v fs)))"

text \<open>\<open>evict_lru_\<close> goes back to the base of the view.\<close>

definition win_evict :: "win_store \<Rightarrow> win_store" where
  "win_evict st =
     (let lru = ps_lru (wn_store st) in
      if lru = [] then st
      else
        let evict_id = last lru;
            st' = st\<lparr>wn_store := (wn_store st)\<lparr>ps_lru := butlast lru\<rparr>\<rparr> in
        case map_of (ps_cache (wn_store st)) evict_id of
          None \<Rightarrow> st'
        | Some a \<Rightarrow>
            let m = (case map_of (wn_handles st) evict_id of
                       Some h \<Rightarrow> close_map h (unmap_view (a - evict_id * page_size) (wn_mem st))
                     | None \<Rightarrow> free_block a (wn_mem st))
            in st'\<lparr>wn_store := (wn_store st')\<lparr>ps_cache := cache_erase evict_id (ps_cache (wn_store st))\<rparr>,
                   wn_handles := cache_erase evict_id (wn_handles st), wn_mem := m\<rparr>)"

text \<open>Entering a page in the cache, at the front of the order.\<close>

definition enter_page :: "nat \<Rightarrow> nat \<Rightarrow> nat option \<Rightarrow> win_memory \<Rightarrow> win_store \<Rightarrow> win_store" where
  "enter_page p a h m st =
     st\<lparr>wn_store := (wn_store st)\<lparr>ps_lru := p # ps_lru (wn_store st), ps_cache := (p, a) # ps_cache (wn_store st)\<rparr>,
        wn_handles := (case h of None \<Rightarrow> wn_handles st | Some h \<Rightarrow> (p, h) # wn_handles st), wn_mem := m\<rparr>"

text \<open>\<open>load_page_\<close>; \<open>map_ok\<close> and \<open>view_ok\<close> say whether the two calls work.\<close>

definition win_load :: "bool \<Rightarrow> bool \<Rightarrow> nat \<Rightarrow> win_env \<Rightarrow> unit res \<times> win_store" where
  "win_load map_ok view_ok p = (\<lambda>(st, fs).
     let st = (if ps_max_cached (wn_store st) \<le> length (ps_cache (wn_store st)) then win_evict st else st);
         m = wn_mem st; path = ps_path (wn_store st) in
     if \<not> page_complete fs path p
     then (case block_new m of (a, m) \<Rightarrow> (Inr (), enter_page p a None m st))
     else if \<not> map_ok
     then (Inl (Runtime_Error ''PagedVectorStore: CreateFileMapping failed''), st)
     else
       case page_map_new m of (h, m) \<Rightarrow>
       if \<not> view_ok
       then (Inl (Runtime_Error ''PagedVectorStore: MapViewOfFile failed''), st\<lparr>wn_mem := close_map h m\<rparr>)
       else
         case view_new (length (file_content fs path)) m of (base, m) \<Rightarrow>
           (Inr (), enter_page p (base + p * page_size) (Some h) m st))"

text \<open>\<open>get\<close>: the address of the vector.\<close>

definition win_get :: "bool \<Rightarrow> bool \<Rightarrow> nat \<Rightarrow> win_env \<Rightarrow> nat res \<times> win_store" where
  "win_get map_ok view_ok slot = (\<lambda>(st, fs).
     let p = slot_page (wn_store st) slot;
         off = vec_offset_in_page (wn_store st) slot in
     case (case map_of (ps_cache (wn_store st)) p of
             None \<Rightarrow> win_load map_ok view_ok p (st, fs)
           | Some a \<Rightarrow> (Inr (), st\<lparr>wn_store := (wn_store st)\<lparr>ps_lru := p # remove1 p (ps_lru (wn_store st))\<rparr>\<rparr>)) of
       (Inl e, st) \<Rightarrow> (Inl e, st)
     | (Inr _, st) \<Rightarrow>
         (case map_of (ps_cache (wn_store st)) p of
            None \<Rightarrow> (Inl Undefined_Behaviour, st)
          | Some a \<Rightarrow> (Inr (a + off), st)))"

text \<open>The destructor: the memory it leaves.\<close>

definition win_close :: "win_store \<Rightarrow> win_memory" where
  "win_close st = fold (\<lambda>(p, a) m. drop_mapping a (map_of (wn_handles st) p) m)
     (ps_cache (wn_store st)) (wn_mem st)"

text \<open>Reading bytes at an address, in a view of the file or in a block of zeros.\<close>

definition win_bytes :: "nat \<Rightarrow> nat \<Rightarrow> win_env \<Rightarrow> byte list res" where
  "win_bytes n a = (\<lambda>(st, fs).
     case find (\<lambda>(b, l). b \<le> a \<and> a + n \<le> b + l) (wm_views (wn_mem st)) of
       Some (b, l) \<Rightarrow> Inr (take n (drop (a - b) (file_content fs (ps_path (wn_store st)))))
     | None \<Rightarrow>
         if \<exists>b\<in>set (wm_blocks (wn_mem st)). b \<le> a \<and> a + n \<le> b + page_size then Inr (replicate n 0)
         else Inl Undefined_Behaviour)"

section \<open>Who owns what\<close>

datatype win_resource = W_View nat | W_Block nat | W_Map nat

definition win_live :: "win_memory \<Rightarrow> win_resource set" where
  "win_live m = (W_View \<circ> fst) ` set (wm_views m) \<union> W_Block ` set (wm_blocks m) \<union> W_Map ` set (wm_maps m)"

text \<open>What the entry of a page stands for: a view and its mapping object, or a block.\<close>

definition page_holds :: "win_store \<Rightarrow> nat \<Rightarrow> win_resource set" where
  "page_holds st p =
     (case map_of (ps_cache (wn_store st)) p of
        None \<Rightarrow> {}
      | Some a \<Rightarrow>
          (case map_of (wn_handles st) p of
             None \<Rightarrow> {W_Block a}
           | Some h \<Rightarrow> {W_View (a - p * page_size), W_Map h}))"

definition win_owned :: "win_store \<Rightarrow> win_resource set" where
  "win_owned st = (\<Union>p\<in>fst ` set (ps_cache (wn_store st)). page_holds st p)"

definition win_leaked :: "win_store \<Rightarrow> win_resource set" where
  "win_leaked st = win_live (wn_mem st) - win_owned st"

text \<open>Addresses: regions do not overlap and lie below the next one.\<close>

definition regions_ok :: "win_memory \<Rightarrow> bool" where
  "regions_ok m \<longleftrightarrow> 0 < wm_next m
     \<and> (\<forall>(b, l)\<in>set (wm_views m). 0 < b \<and> 0 < l \<and> b + l \<le> wm_next m)
     \<and> (\<forall>(b, l)\<in>set (wm_views m). \<forall>(b', l')\<in>set (wm_views m). (b, l) = (b', l') \<or> b + l \<le> b' \<or> b' + l' \<le> b)
     \<and> (\<forall>c\<in>set (wm_blocks m). 0 < c \<and> c + page_size \<le> wm_next m
          \<and> (\<forall>(b, l)\<in>set (wm_views m). c + page_size \<le> b \<or> b + l \<le> c))
     \<and> (\<forall>h\<in>set (wm_maps m). h < wm_next m)"

text \<open>An entry of the cache is backed by live resources.\<close>

definition page_backed :: "win_store \<Rightarrow> nat \<Rightarrow> nat \<Rightarrow> bool" where
  "page_backed st p a \<longleftrightarrow>
     (case map_of (wn_handles st) p of
        None \<Rightarrow> a \<in> set (wm_blocks (wn_mem st))
      | Some h \<Rightarrow> h \<in> set (wm_maps (wn_mem st))
          \<and> (\<exists>b l. (b, l) \<in> set (wm_views (wn_mem st)) \<and> a = b + p * page_size \<and> p * page_size + page_size \<le> l))"

definition win_ok :: "win_store \<Rightarrow> bool" where
  "win_ok st \<longleftrightarrow> regions_ok (wn_mem st)
     \<and> distinct (map fst (ps_cache (wn_store st)))
     \<and> distinct (ps_lru (wn_store st))
     \<and> set (ps_lru (wn_store st)) = fst ` set (ps_cache (wn_store st))
     \<and> fst ` set (wn_handles st) \<subseteq> fst ` set (ps_cache (wn_store st))
     \<and> (\<forall>(p, a)\<in>set (ps_cache (wn_store st)). page_backed st p a)
     \<and> (\<forall>p q. p \<noteq> q \<longrightarrow> page_holds st p \<inter> page_holds st q = {})"

lemma regions_view: "regions_ok m \<Longrightarrow> (b, l) \<in> set (wm_views m) \<Longrightarrow> 0 < b \<and> 0 < l \<and> b + l \<le> wm_next m"
  by (auto simp: regions_ok_def)

lemma regions_block: "regions_ok m \<Longrightarrow> c \<in> set (wm_blocks m) \<Longrightarrow> 0 < c \<and> c + page_size \<le> wm_next m"
  by (simp add: regions_ok_def)

lemma regions_block_view:
  "regions_ok m \<Longrightarrow> c \<in> set (wm_blocks m) \<Longrightarrow> (b, l) \<in> set (wm_views m) \<Longrightarrow> c + page_size \<le> b \<or> b + l \<le> c"
  by (auto simp: regions_ok_def)

lemma regions_views:
  assumes "regions_ok m" and v: "(b, l) \<in> set (wm_views m)" and v': "(b', l') \<in> set (wm_views m)"
  shows "(b, l) = (b', l') \<or> b + l \<le> b' \<or> b' + l' \<le> b"
proof -
  have "\<forall>(b, l)\<in>set (wm_views m). \<forall>(b', l')\<in>set (wm_views m). (b, l) = (b', l') \<or> b + l \<le> b' \<or> b' + l' \<le> b"
    using assms(1) by (simp add: regions_ok_def)
  from bspec [OF bspec [OF this v, simplified] v'] show ?thesis by simp
qed

lemma regions_view_new:
  assumes reg: "regions_ok m" and len: "0 < len"
  shows "regions_ok (m\<lparr>wm_views := (wm_next m, len) # wm_views m, wm_next := wm_next m + len\<rparr>)"
proof -
  have v: "0 < b \<and> 0 < l \<and> b + l \<le> wm_next m" if "(b, l) \<in> set (wm_views m)" for b l
    by (rule regions_view [OF reg that])
  note vv = regions_views [OF reg]
  have c: "0 < c \<and> c + page_size \<le> wm_next m" if "c \<in> set (wm_blocks m)" for c
    by (rule regions_block [OF reg that])
  note cv = regions_block_view [OF reg]
  have "0 < wm_next m" "\<forall>h\<in>set (wm_maps m). h < wm_next m" using reg by (simp_all add: regions_ok_def)
  then show ?thesis
    unfolding regions_ok_def using v vv c cv len by (auto intro: trans_less_add1 trans_le_add1) fastforce+
qed

section \<open>Releasing resources\<close>

definition released :: "win_resource set \<Rightarrow> win_memory \<Rightarrow> win_memory \<Rightarrow> bool" where
  "released R m m' \<longleftrightarrow> set (wm_views m') = {v \<in> set (wm_views m). W_View (fst v) \<notin> R}
     \<and> set (wm_blocks m') = {b \<in> set (wm_blocks m). W_Block b \<notin> R}
     \<and> set (wm_maps m') = {h \<in> set (wm_maps m). W_Map h \<notin> R}
     \<and> wm_next m' = wm_next m"

lemma released_calls:
  "released {} m m" "released {W_View a} m (unmap_view a m)" "released {W_Block a} m (free_block a m)"
  "released {W_Map h} m (close_map h m)"
  by (auto simp: released_def unmap_view_def free_block_def close_map_def)

lemma released_trans: "released R m m1 \<Longrightarrow> released S m1 m2 \<Longrightarrow> released (R \<union> S) m m2"
  by (auto simp: released_def)

lemma released_live: "released R m m' \<Longrightarrow> win_live m' = win_live m - R"
  by (auto simp: released_def win_live_def)

lemma released_regions: "released R m m' \<Longrightarrow> regions_ok m \<Longrightarrow> regions_ok m'"
  by (auto simp: released_def regions_ok_def)

text \<open>Releasing what is not live does nothing.\<close>

lemma released_vain: "released R m m' \<Longrightarrow> R \<inter> win_live m = S \<Longrightarrow> released S m m'"
  by (force simp: released_def win_live_def)

section \<open>The entries and their resources\<close>

lemma page_holds_cached: "page_holds st p \<noteq> {} \<Longrightarrow> p \<in> fst ` set (ps_cache (wn_store st))"
  by (force simp: page_holds_def dest: map_of_SomeD split: option.splits)

lemma page_holds_backed:
  assumes "map_of (ps_cache (wn_store st)) p = Some a" and "page_backed st p a"
  shows "page_holds st p \<subseteq> win_live (wn_mem st)"
  using assms by (force simp: page_holds_def page_backed_def win_live_def image_iff split: option.splits)

lemma page_holds_live: "win_ok st \<Longrightarrow> page_holds st p \<subseteq> win_live (wn_mem st)"
proof (cases "map_of (ps_cache (wn_store st)) p")
  case (Some a)
  assume "win_ok st"
  then have "page_backed st p a" using map_of_SomeD [OF Some] by (auto simp: win_ok_def)
  then show ?thesis by (rule page_holds_backed [OF Some])
qed (simp add: page_holds_def)

lemma map_of_cache_erase: "map_of (cache_erase p c) q = (if q = p then None else map_of c q)"
  by (induction c) (auto simp: cache_erase_def)

lemma page_holds_forget: "page_holds (forget_page p (st\<lparr>wn_mem := m\<rparr>)) q = (if q = p then {} else page_holds st q)"
  by (simp add: page_holds_def forget_page_def map_of_cache_erase split: option.split)

lemma forget_page_ok:
  assumes ok: "win_ok st" and R: "released R (wn_mem st) m" "R \<subseteq> page_holds st p"
  shows "win_ok (forget_page p (st\<lparr>wn_mem := m\<rparr>))"
    and "win_leaked (forget_page p (st\<lparr>wn_mem := m\<rparr>)) = win_leaked st \<union> (page_holds st p - R)"
proof -
  let ?st = "forget_page p (st\<lparr>wn_mem := m\<rparr>)"
  have cache: "set (ps_cache (wn_store ?st)) = {e \<in> set (ps_cache (wn_store st)). fst e \<noteq> p}"
    and mem: "wn_mem ?st = m"
    by (simp_all add: forget_page_def)
  have apart: "page_holds st q \<inter> page_holds st q' = {}" if "q \<noteq> q'" for q q'
    using ok that by (simp add: win_ok_def)
  have backed: "page_backed ?st q a" if q: "(q, a) \<in> set (ps_cache (wn_store st))" "q \<noteq> p" for q a
  proof -
    have b: "page_backed st q a" using ok q by (auto simp: win_ok_def)
    have "map_of (ps_cache (wn_store st)) q = Some a" using ok q by (simp add: win_ok_def)
    then have "page_holds st q \<inter> R = {} \<and> page_holds st q
        = (case map_of (wn_handles st) q of None \<Rightarrow> {W_Block a} | Some h \<Rightarrow> {W_View (a - q * page_size), W_Map h})"
      using apart [OF q(2)] R(2) by (auto simp: page_holds_def)
    then show ?thesis
      using b R(1) q(2) by (auto simp: page_backed_def released_def forget_page_def map_of_cache_erase split: option.splits)
  qed
  show "win_ok ?st"
    unfolding win_ok_def
  proof (intro conjI)
    show "regions_ok (wn_mem ?st)" using ok R(1) released_regions mem by (auto simp: win_ok_def)
    show "\<forall>(q, a)\<in>set (ps_cache (wn_store ?st)). page_backed ?st q a" using backed unfolding cache by auto
    show "\<forall>q q'. q \<noteq> q' \<longrightarrow> page_holds ?st q \<inter> page_holds ?st q' = {}"
      using apart by (simp add: page_holds_forget)
  qed (use ok in \<open>auto simp: win_ok_def forget_page_def distinct_cache_erase\<close>)
  have owned: "win_owned ?st = win_owned st - page_holds st p"
  proof -
    have "win_owned st = win_owned ?st \<union> page_holds st p"
      unfolding win_owned_def cache page_holds_forget using page_holds_cached [of st p] by fastforce
    moreover have "win_owned ?st \<inter> page_holds st p = {}"
      unfolding win_owned_def cache page_holds_forget using apart by auto
    ultimately show ?thesis by blast
  qed
  show "win_leaked ?st = win_leaked st \<union> (page_holds st p - R)"
    using page_holds_live [OF ok, of p] R(2) page_holds_cached [of st p]
    unfolding win_leaked_def owned mem released_live [OF R(1)] by (auto simp: win_owned_def)
qed

text \<open>The resources of a page that its invalidation leaves behind: a block, and the view of any page
  but the first.\<close>

definition left_behind :: "win_store \<Rightarrow> nat \<Rightarrow> win_resource set" where
  "left_behind st p = {x \<in> page_holds st p. case x of W_View _ \<Rightarrow> p \<noteq> 0 | W_Block _ \<Rightarrow> True | W_Map _ \<Rightarrow> False}"

definition dropped :: "nat \<Rightarrow> nat option \<Rightarrow> win_resource set" where
  "dropped a h = (if a \<noteq> 0 then {W_View a} else {}) \<union> W_Map ` set_option h"

lemma drop_mapping_calls: "released (dropped a h) m (drop_mapping a h m)"
  using released_calls(1,2,4) released_trans [OF released_calls(2) released_calls(4)]
  by (auto simp: drop_mapping_def dropped_def Let_def insert_commute split: option.split)

lemma dropped_live:
  assumes ok: "win_ok st" and a: "map_of (ps_cache (wn_store st)) p = Some a"
  shows "dropped a (map_of (wn_handles st) p) \<inter> win_live (wn_mem st) = page_holds st p - left_behind st p"
proof -
  let ?m = "wn_mem st"
  have backed: "page_backed st p a" using ok map_of_SomeD [OF a] by (auto simp: win_ok_def)
  have reg: "regions_ok ?m" using ok by (simp add: win_ok_def)
  show ?thesis
  proof (cases "map_of (wn_handles st) p")
    case None
    then have blk: "a \<in> set (wm_blocks ?m)" using backed by (simp add: page_backed_def)
    have "W_View a \<notin> win_live ?m"
      using regions_block_view [OF reg blk] regions_view [OF reg] by (fastforce simp: win_live_def page_size_def)
    then show ?thesis using None a by (auto simp: left_behind_def page_holds_def dropped_def)
  next
    case (Some h)
    then obtain b l where b: "(b, l) \<in> set (wm_views ?m)" "a = b + p * page_size" "p * page_size + page_size \<le> l"
      and h: "h \<in> set (wm_maps ?m)"
      using backed by (auto simp: page_backed_def)
    have a0: "a \<noteq> 0" using b(2) regions_view [OF reg b(1)] by simp
    have view: "W_View b \<in> win_live ?m" "W_Map h \<in> win_live ?m" using b(1) h by (force simp: win_live_def)+
    have "{W_View a} \<inter> win_live ?m = (if p = 0 then {W_View b} else {})"
    proof (cases "p = 0")
      case False
      have "b' \<noteq> a" if v: "(b', l') \<in> set (wm_views ?m)" for b' l'
      proof
        assume eq: "b' = a"
        have "b + p * page_size < b + l" "b < b + p * page_size" using b(3) False by (simp_all add: page_size_def)
        then show False
          using regions_views [OF reg b(1) v] regions_view [OF reg v] b(2) eq by auto
      qed
      then have "W_View a \<notin> win_live ?m" by (fastforce simp: win_live_def)
      then show ?thesis using False by simp
    qed (use b(2) view in auto)
    moreover have "dropped a (map_of (wn_handles st) p) \<inter> win_live ?m = {W_View a} \<inter> win_live ?m \<union> {W_Map h}"
      using Some a0 view(2) by (auto simp: dropped_def)
    moreover have "page_holds st p = {W_View b, W_Map h}" using a Some b(2) by (simp add: page_holds_def)
    ultimately show ?thesis by (auto simp: left_behind_def)
  qed
qed

lemma drop_mapping_released:
  assumes "win_ok st" and "map_of (ps_cache (wn_store st)) p = Some a"
  shows "released (page_holds st p - left_behind st p) (wn_mem st)
    (drop_mapping a (map_of (wn_handles st) p) (wn_mem st))"
  by (rule released_vain [OF drop_mapping_calls dropped_live [OF assms]])

lemma win_invalidate_ok:
  assumes ok: "win_ok st"
  shows "win_ok (win_invalidate p st)" and "win_leaked (win_invalidate p st) = win_leaked st \<union> left_behind st p"
proof -
  have "win_ok (win_invalidate p st) \<and> win_leaked (win_invalidate p st) = win_leaked st \<union> left_behind st p"
  proof (cases "map_of (ps_cache (wn_store st)) p")
    case None
    then show ?thesis using ok by (simp add: win_invalidate_def left_behind_def page_holds_def)
  next
    case (Some a)
    have "page_holds st p - (page_holds st p - left_behind st p) = left_behind st p"
      by (auto simp: left_behind_def)
    then show ?thesis
      using forget_page_ok [OF ok drop_mapping_released [OF ok Some]] Some by (auto simp: win_invalidate_def)
  qed
  then show "win_ok (win_invalidate p st)" "win_leaked (win_invalidate p st) = win_leaked st \<union> left_behind st p"
    by blast+
qed

section \<open>Eviction and loading lose nothing\<close>

lemma remove1_last: "distinct xs \<Longrightarrow> xs \<noteq> [] \<Longrightarrow> remove1 (last xs) xs = butlast xs"
  by (cases xs rule: rev_cases) (auto simp: remove1_append)

lemma win_evict_forget:
  assumes ok: "win_ok st" and "ps_lru (wn_store st) \<noteq> []"
  obtains m where "released (page_holds st (last (ps_lru (wn_store st)))) (wn_mem st) m"
    and "win_evict st = forget_page (last (ps_lru (wn_store st))) (st\<lparr>wn_mem := m\<rparr>)"
proof -
  let ?lru = "ps_lru (wn_store st)" and ?p = "last (ps_lru (wn_store st))"
  have "?p \<in> fst ` set (ps_cache (wn_store st))" using ok last_in_set [OF assms(2)] by (simp add: win_ok_def)
  then obtain a where a: "map_of (ps_cache (wn_store st)) ?p = Some a"
    by (metis map_of_eq_None_iff not_Some_eq)
  define m where "m = (case map_of (wn_handles st) ?p of
      Some h \<Rightarrow> close_map h (unmap_view (a - ?p * page_size) (wn_mem st)) | None \<Rightarrow> free_block a (wn_mem st))"
  have R: "released (page_holds st ?p) (wn_mem st) m"
    using released_trans [OF released_calls(2) released_calls(4)] released_calls(3) a
    by (auto simp: m_def page_holds_def insert_commute split: option.splits)
  have "remove1 ?p ?lru = butlast ?lru" using ok assms(2) by (simp add: win_ok_def remove1_last)
  then have "win_evict st = forget_page ?p (st\<lparr>wn_mem := m\<rparr>)"
    using assms(2) a by (simp add: win_evict_def forget_page_def Let_def m_def)
  with that R show ?thesis by blast
qed

lemma win_evict_ok:
  assumes ok: "win_ok st"
  shows "win_ok (win_evict st)" and "win_leaked (win_evict st) = win_leaked st"
    and "set (ps_cache (wn_store (win_evict st))) \<subseteq> set (ps_cache (wn_store st))"
    and "same_layout (wn_store st) (wn_store (win_evict st))"
proof -
  have "win_ok (win_evict st) \<and> win_leaked (win_evict st) = win_leaked st
    \<and> set (ps_cache (wn_store (win_evict st))) \<subseteq> set (ps_cache (wn_store st))
    \<and> same_layout (wn_store st) (wn_store (win_evict st))"
  proof (cases "ps_lru (wn_store st) = []")
    case True
    then show ?thesis using ok by (simp add: win_evict_def same_layout_def)
  next
    case False
    obtain m where R: "released (page_holds st (last (ps_lru (wn_store st)))) (wn_mem st) m"
      and eq: "win_evict st = forget_page (last (ps_lru (wn_store st))) (st\<lparr>wn_mem := m\<rparr>)"
      by (rule win_evict_forget [OF ok False])
    have "same_layout (wn_store st) (wn_store (forget_page p (st\<lparr>wn_mem := m\<rparr>)))"
      "set (ps_cache (wn_store (forget_page p (st\<lparr>wn_mem := m\<rparr>)))) \<subseteq> set (ps_cache (wn_store st))" for p
      by (auto simp: same_layout_def forget_page_def)
    then show ?thesis using forget_page_ok [OF ok R] unfolding eq by auto
  qed
  then show "win_ok (win_evict st)" "win_leaked (win_evict st) = win_leaked st"
    "set (ps_cache (wn_store (win_evict st))) \<subseteq> set (ps_cache (wn_store st))"
    "same_layout (wn_store st) (wn_store (win_evict st))" by blast+
qed

text \<open>A page that enters with resources of its own.\<close>

lemma enter_page_ok:
  assumes ok: "win_ok st" and new: "p \<notin> fst ` set (ps_cache (wn_store st))" and reg: "regions_ok m"
    and kept: "set (wm_views (wn_mem st)) \<subseteq> set (wm_views m)" "set (wm_blocks (wn_mem st)) \<subseteq> set (wm_blocks m)"
      "set (wm_maps (wn_mem st)) \<subseteq> set (wm_maps m)"
    and backed: "page_backed (enter_page p a h m st) p a"
    and fresh: "page_holds (enter_page p a h m st) p \<inter> win_live (wn_mem st) = {}"
    and live: "win_live m = win_live (wn_mem st) \<union> page_holds (enter_page p a h m st) p"
  shows "win_ok (enter_page p a h m st)" and "win_leaked (enter_page p a h m st) = win_leaked st"
proof -
  let ?st = "enter_page p a h m st"
  have handles: "map_of (wn_handles ?st) q = map_of (wn_handles st) q" if "q \<noteq> p" for q
    using that by (simp add: enter_page_def split: option.split)
  have holds: "page_holds ?st q = page_holds st q" if "q \<noteq> p" for q
    using that handles [OF that] by (auto simp: page_holds_def enter_page_def split: option.splits)
  have other: "page_holds ?st p \<inter> page_holds st q = {}" for q
    using fresh page_holds_live [OF ok, of q] by blast
  have mem: "wn_mem ?st = m" and cache: "ps_cache (wn_store ?st) = (p, a) # ps_cache (wn_store st)"
    by (simp_all add: enter_page_def)
  have "page_backed ?st q b" if e: "(q, b) \<in> set (ps_cache (wn_store st))" for q b
  proof -
    have "q \<noteq> p" using e new by force
    moreover have "page_backed st q b" using ok e by (auto simp: win_ok_def)
    ultimately show ?thesis using kept by (auto simp: page_backed_def handles mem split: option.splits)
  qed
  moreover have "page_holds ?st q \<inter> page_holds ?st q' = {}" if "q \<noteq> q'" for q q'
    using that other ok holds by (cases "q = p"; cases "q' = p") (auto simp: win_ok_def)
  moreover have "fst ` set (wn_handles ?st) \<subseteq> insert p (fst ` set (ps_cache (wn_store st)))"
    using ok by (auto simp: enter_page_def win_ok_def split: option.splits)
  moreover have "distinct (ps_lru (wn_store ?st))" "set (ps_lru (wn_store ?st)) = insert p (fst ` set (ps_cache (wn_store st)))"
    using ok new by (auto simp: enter_page_def win_ok_def)
  ultimately show "win_ok ?st"
    using ok new reg backed by (auto simp: win_ok_def mem cache)
  have "win_owned ?st = win_owned st \<union> page_holds ?st p"
  proof -
    have "(\<Union>q\<in>fst ` set (ps_cache (wn_store st)). page_holds ?st q) = win_owned st"
      unfolding win_owned_def
    proof (rule SUP_cong [OF refl])
      show "page_holds ?st q = page_holds st q" if "q \<in> fst ` set (ps_cache (wn_store st))" for q
        using that new holds [of q] by blast
    qed
    then show ?thesis by (auto simp: win_owned_def cache)
  qed
  then show "win_leaked ?st = win_leaked st"
    using live fresh page_holds_live [OF ok] unfolding win_leaked_def mem by (auto simp: win_owned_def)
qed

lemma win_load_ok:
  assumes ok: "win_ok st" and new: "p \<notin> fst ` set (ps_cache (wn_store st))"
    and run: "win_load map_ok view_ok p (st, fs) = (r, st')"
  shows "win_ok st'" and "win_leaked st' = win_leaked st" and "same_layout (wn_store st) (wn_store st')"
    and "r = Inr u \<Longrightarrow> p \<in> fst ` set (ps_cache (wn_store st'))"
proof -
  define s where "s = (if ps_max_cached (wn_store st) \<le> length (ps_cache (wn_store st)) then win_evict st else st)"
  have s: "win_ok s" "win_leaked s = win_leaked st" "set (ps_cache (wn_store s)) \<subseteq> set (ps_cache (wn_store st))"
    "same_layout (wn_store st) (wn_store s)"
    using ok win_evict_ok [OF ok] by (auto simp: s_def same_layout_def)
  have path: "ps_path (wn_store s) = ps_path (wn_store st)" using s(4) by (simp add: same_layout_def)
  have news: "p \<notin> fst ` set (ps_cache (wn_store s))" using new s(3) by auto
  then have nohandle: "map_of (wn_handles s) p = None" using s(1) by (auto simp: win_ok_def map_of_eq_None_iff)
  have reg: "regions_ok (wn_mem s)" using s(1) by (simp add: win_ok_def)
  let ?m = "wn_mem s" and ?c = "file_content fs (ps_path (wn_store st))"
  let ?n = "wm_next ?m"
  have free: "W_View b \<notin> win_live ?m" "W_Block b \<notin> win_live ?m" "W_Map b \<notin> win_live ?m" if "?n \<le> b" for b
    using reg that by (fastforce simp: regions_ok_def win_live_def page_size_def)+
  have layout: "same_layout (wn_store s) (wn_store (enter_page p a h m s))" for a h m
    by (simp add: same_layout_def enter_page_def)
  have goal: "win_ok st' \<and> win_leaked st' = win_leaked st \<and> same_layout (wn_store st) (wn_store st')
    \<and> (r = Inr u \<longrightarrow> p \<in> fst ` set (ps_cache (wn_store st')))"
  proof (cases "page_complete fs (ps_path (wn_store st)) p")
    case False
    let ?m' = "?m\<lparr>wm_blocks := ?n # wm_blocks ?m, wm_next := ?n + page_size\<rparr>"
    have st': "st' = enter_page p ?n None ?m' s"
      using run False by (simp add: win_load_def s_def [symmetric] path block_new_def Let_def)
    have holds: "page_holds (enter_page p ?n None ?m' s) p = {W_Block ?n}"
      using nohandle by (simp add: page_holds_def enter_page_def)
    have "regions_ok ?m'" using reg by (fastforce simp: regions_ok_def)
    moreover have "page_backed (enter_page p ?n None ?m' s) p ?n"
      using nohandle by (simp add: page_backed_def enter_page_def)
    moreover have "win_live ?m' = win_live ?m \<union> {W_Block ?n}" by (auto simp: win_live_def)
    ultimately have "win_ok st' \<and> win_leaked st' = win_leaked s"
      unfolding st' using enter_page_ok [OF s(1) news, of ?m' ?n None] free(2) [of ?n] holds by auto
    then show ?thesis using s(2,4) layout by (auto simp: st' same_layout_def enter_page_def)
  next
    case True
    note complete = this
    let ?m1 = "?m\<lparr>wm_maps := ?n # wm_maps ?m, wm_next := Suc ?n\<rparr>"
    show ?thesis
    proof (cases "map_ok \<and> view_ok")
      case False
      have "st' = s \<or> st' = s\<lparr>wn_mem := close_map ?n ?m1\<rparr>"
        and r: "r \<noteq> Inr u"
        using run complete False
        by (auto simp: win_load_def s_def [symmetric] path page_map_new_def Let_def split: if_splits)
      moreover have "filter (\<lambda>b. b \<noteq> ?n) (wm_maps ?m) = wm_maps ?m"
        using reg by (auto simp: regions_ok_def intro!: filter_True)
      then have "close_map ?n ?m1 = ?m\<lparr>wm_next := Suc ?n\<rparr>" by (simp add: close_map_def)
      moreover have "win_ok (s\<lparr>wn_mem := ?m\<lparr>wm_next := Suc ?n\<rparr>\<rparr>)"
      proof -
        have "regions_ok (?m\<lparr>wm_next := Suc ?n\<rparr>)" using reg by (fastforce simp: regions_ok_def)
        moreover have "page_backed (s\<lparr>wn_mem := ?m\<lparr>wm_next := Suc ?n\<rparr>\<rparr>) q a = page_backed s q a" for q a
          by (simp add: page_backed_def split: option.split)
        moreover have "page_holds (s\<lparr>wn_mem := ?m\<lparr>wm_next := Suc ?n\<rparr>\<rparr>) q = page_holds s q" for q
          by (simp add: page_holds_def split: option.split)
        ultimately show ?thesis using s(1) by (simp add: win_ok_def)
      qed
      moreover have "win_leaked (s\<lparr>wn_mem := ?m\<lparr>wm_next := Suc ?n\<rparr>\<rparr>) = win_leaked s"
        by (simp add: win_leaked_def win_live_def win_owned_def page_holds_def cong: option.case_cong)
      ultimately show ?thesis using s by auto
    next
      case True
      let ?m2 = "?m1\<lparr>wm_views := (Suc ?n, length ?c) # wm_views ?m, wm_next := Suc ?n + length ?c\<rparr>"
      let ?a = "Suc ?n + p * page_size"
      have st': "st' = enter_page p ?a (Some ?n) ?m2 s"
        using run complete True
        by (simp add: win_load_def s_def [symmetric] path page_map_new_def view_new_def Let_def)
      have holds: "page_holds (enter_page p ?a (Some ?n) ?m2 s) p = {W_View (Suc ?n), W_Map ?n}"
        by (simp add: page_holds_def enter_page_def)
      have len: "p * page_size + page_size \<le> length ?c" "0 < length ?c"
        using complete by (auto simp: page_complete_def page_size_def)
      have "regions_ok ?m1" using reg by (fastforce simp: regions_ok_def)
      from regions_view_new [OF this len(2)] have "regions_ok ?m2" by simp
      moreover have "page_backed (enter_page p ?a (Some ?n) ?m2 s) p ?a"
        using len by (auto simp: page_backed_def enter_page_def)
      moreover have "win_live ?m2 = win_live ?m \<union> {W_View (Suc ?n), W_Map ?n}" by (auto simp: win_live_def)
      ultimately have "win_ok st' \<and> win_leaked st' = win_leaked s"
        unfolding st' using enter_page_ok [OF s(1) news, of ?m2 ?a "Some ?n"] free(1) [of "Suc ?n"] free(3) [of ?n] holds
        by auto
      then show ?thesis using s(2,4) layout by (auto simp: st' same_layout_def enter_page_def)
    qed
  qed
  then show "win_ok st'" "win_leaked st' = win_leaked st" "same_layout (wn_store st) (wn_store st')"
    "r = Inr u \<Longrightarrow> p \<in> fst ` set (ps_cache (wn_store st'))" by blast+
qed

section \<open>The operations\<close>

lemma win_get_ok:
  assumes ok: "win_ok st" and run: "win_get map_ok view_ok i (st, fs) = (r, st')"
  shows "win_ok st'" and "win_leaked st' = win_leaked st" and "same_layout (wn_store st) (wn_store st')"
    and "r = Inr addr \<Longrightarrow> \<exists>a. map_of (ps_cache (wn_store st')) (slot_page (wn_store st) i) = Some a
      \<and> addr = a + vec_offset_in_page (wn_store st) i"
proof -
  let ?p = "slot_page (wn_store st) i"
  have "win_ok st' \<and> win_leaked st' = win_leaked st \<and> same_layout (wn_store st) (wn_store st')
    \<and> (r = Inr addr \<longrightarrow> (\<exists>a. map_of (ps_cache (wn_store st')) ?p = Some a
      \<and> addr = a + vec_offset_in_page (wn_store st) i))"
  proof (cases "map_of (ps_cache (wn_store st)) ?p")
    case None
    then have new: "?p \<notin> fst ` set (ps_cache (wn_store st))" by (simp add: map_of_eq_None_iff)
    obtain x s where load: "win_load map_ok view_ok ?p (st, fs) = (x, s)" by fastforce
    note L = win_load_ok [OF ok new load]
    have "st' = s" using run load None by (auto simp: win_get_def Let_def split: sum.splits option.splits)
    moreover have "r = Inr addr \<longrightarrow> (\<exists>a. map_of (ps_cache (wn_store s)) ?p = Some a
      \<and> addr = a + vec_offset_in_page (wn_store st) i)"
      using run load None by (auto simp: win_get_def Let_def split: sum.splits option.splits)
    ultimately show ?thesis using L(1-3) by simp
  next
    case (Some a)
    let ?st = "st\<lparr>wn_store := (wn_store st)\<lparr>ps_lru := ?p # remove1 ?p (ps_lru (wn_store st))\<rparr>\<rparr>"
    have st': "st' = ?st" "r = Inr (a + vec_offset_in_page (wn_store st) i)"
      using run Some by (auto simp: win_get_def Let_def)
    have "?p \<in> fst ` set (ps_cache (wn_store st))" using map_of_SomeD [OF Some] by force
    moreover have "page_holds ?st q = page_holds st q" "page_backed ?st q b = page_backed st q b" for q b
      by (simp_all add: page_holds_def page_backed_def cong: option.case_cong)
    ultimately have "win_ok ?st" using ok by (auto simp: win_ok_def)
    moreover have "win_leaked ?st = win_leaked st"
      by (simp add: win_leaked_def win_owned_def page_holds_def cong: option.case_cong)
    ultimately show ?thesis using Some by (simp add: st' same_layout_def)
  qed
  then show "win_ok st'" "win_leaked st' = win_leaked st" "same_layout (wn_store st) (wn_store st')"
    "r = Inr addr \<Longrightarrow> \<exists>a. map_of (ps_cache (wn_store st')) ?p = Some a
      \<and> addr = a + vec_offset_in_page (wn_store st) i" by blast+
qed

lemma win_push_ok:
  assumes ok: "win_ok st" and run: "win_push vec (st, fs) = Inr (slot, st', fs')"
  shows "win_ok st'" and "win_leaked st' = win_leaked st \<union> left_behind st (slot_page (wn_store st) slot)"
proof -
  let ?st = "st\<lparr>wn_store := (wn_store st)\<lparr>ps_n_vectors := Suc (ps_n_vectors (wn_store st))\<rparr>\<rparr>"
  have st': "st' = win_invalidate (slot_page (wn_store st) slot) ?st"
    using run by (auto simp: win_push_def Let_def bindR_Inr_iff slot_page_def)
  have same: "page_holds ?st q = page_holds st q" "page_backed ?st q b = page_backed st q b" for q b
    by (simp_all add: page_holds_def page_backed_def cong: option.case_cong)
  have "win_ok ?st" using ok same by (auto simp: win_ok_def)
  moreover have "win_leaked ?st = win_leaked st" using same by (simp add: win_leaked_def win_owned_def)
  moreover have "left_behind ?st q = left_behind st q" for q using same by (simp add: left_behind_def)
  ultimately show "win_ok st'" "win_leaked st' = win_leaked st \<union> left_behind st (slot_page (wn_store st) slot)"
    using win_invalidate_ok [of ?st] by (simp_all add: st')
qed

lemma released_fold:
  "released (\<Union>(p, a)\<in>set c. dropped a (map_of hs p)) m (fold (\<lambda>(p, a) m. drop_mapping a (map_of hs p) m) c m)"
proof (induction c arbitrary: m)
  case (Cons e c)
  obtain p a where "e = (p, a)" by (cases e)
  then show ?case
    using released_trans [OF drop_mapping_calls [of a "map_of hs p" m] Cons.IH] by simp
qed (simp add: released_calls(1))

lemma diff_parts:
  assumes "\<And>p q. p \<noteq> q \<Longrightarrow> H p \<inter> H q = {}" and "\<And>p. L p \<subseteq> H p" and "\<And>p. H p \<subseteq> A"
  shows "A - (\<Union>p\<in>K. H p - L p) = (A - (\<Union>p\<in>K. H p)) \<union> (\<Union>p\<in>K. L p)"
proof -
  have "x \<in> L q" if "x \<in> L p" "x \<in> H q" for x p q
    using that assms(1) [of p q] assms(2) [of p] by (cases "p = q") auto
  then show ?thesis using assms(2,3) by blast
qed

lemma diff_meets:
  assumes "\<And>p a. (p, a) \<in> C \<Longrightarrow> D p a \<inter> A = E p"
  shows "A - (\<Union>(p, a)\<in>C. D p a) = A - (\<Union>p\<in>fst ` C. E p)"
proof -
  have "x \<in> D p a \<longleftrightarrow> x \<in> E p" if "(p, a) \<in> C" "x \<in> A" for x p a using assms [OF that(1)] that(2) by blast
  then show ?thesis by fastforce
qed

lemma win_close_live:
  assumes ok: "win_ok st"
  shows "win_live (win_close st)
    = win_leaked st \<union> (\<Union>p\<in>fst ` set (ps_cache (wn_store st)). left_behind st p)"
proof -
  let ?c = "ps_cache (wn_store st)"
  have "win_live (win_close st) = win_live (wn_mem st) - (\<Union>(p, a)\<in>set ?c. dropped a (map_of (wn_handles st) p))"
    unfolding win_close_def by (rule released_live [OF released_fold])
  also have "\<dots> = win_live (wn_mem st) - (\<Union>p\<in>fst ` set ?c. page_holds st p - left_behind st p)"
  proof -
    have "dropped a (map_of (wn_handles st) p) \<inter> win_live (wn_mem st) = page_holds st p - left_behind st p"
      if "(p, a) \<in> set ?c" for p a
      using dropped_live [OF ok] that ok by (simp add: win_ok_def)
    then show ?thesis by (rule diff_meets)
  qed
  also have "\<dots> = win_leaked st \<union> (\<Union>p\<in>fst ` set ?c. left_behind st p)"
    unfolding win_leaked_def win_owned_def
  proof (rule diff_parts)
    show "page_holds st p \<inter> page_holds st q = {}" if "p \<noteq> q" for p q using ok that by (simp add: win_ok_def)
    show "left_behind st p \<subseteq> page_holds st p" for p by (auto simp: left_behind_def)
  qed (rule page_holds_live [OF ok])
  finally show ?thesis .
qed

text \<open>A store that has just been opened owns nothing and has leaked nothing.\<close>

lemma win_open_ok:
  assumes "win_open path n cache_bytes fs = Inr (st, fs')"
  shows "win_ok st" and "win_leaked st = {}"
proof -
  obtain ps where "st = \<lparr>wn_store = ps, wn_handles = [],
      wn_mem = \<lparr>wm_views = [], wm_blocks = [], wm_maps = [], wm_next = 1\<rparr>\<rparr>" "ps_cache ps = []" "ps_lru ps = []"
    using assms by (auto simp: win_open_def paged_open_def bindR_Inr_iff split: option.splits)
  then show "win_ok st" "win_leaked st = {}"
    by (simp_all add: win_ok_def regions_ok_def page_holds_def win_leaked_def win_live_def)
qed

text \<open>Reading through the address of a \<open>get\<close>.\<close>

lemma find_Some_unique:
  assumes "x \<in> set xs" "P x" and "\<And>y. y \<in> set xs \<Longrightarrow> P y \<Longrightarrow> y = x"
  shows "find P xs = Some x"
  using assms
proof (induction xs)
  case (Cons z xs)
  show ?case
  proof (cases "P z")
    case True
    then show ?thesis using Cons.prems(3) [of z] by simp
  next
    case False
    then have "x \<in> set xs" using Cons.prems(1,2) by auto
    then show ?thesis using Cons.IH [OF _ Cons.prems(2)] Cons.prems(3) False by simp
  qed
qed simp

lemma win_bytes_page:
  assumes ok: "win_ok st" and a: "map_of (ps_cache (wn_store st)) p = Some a"
    and n: "0 < n" "off + n \<le> page_size"
  shows "win_bytes n (a + off) (st, fs) =
    Inr (if map_of (wn_handles st) p = None then replicate n 0
         else take n (drop (p * page_size + off) (file_content fs (ps_path (wn_store st)))))"
proof -
  let ?m = "wn_mem st" and ?P = "\<lambda>(b, l). b \<le> a + off \<and> a + off + n \<le> b + l"
  have backed: "page_backed st p a" using ok map_of_SomeD [OF a] by (auto simp: win_ok_def)
  have reg: "regions_ok ?m" using ok by (simp add: win_ok_def)
  show ?thesis
  proof (cases "map_of (wn_handles st) p")
    case None
    then have blk: "a \<in> set (wm_blocks ?m)" using backed by (simp add: page_backed_def)
    have "find ?P (wm_views ?m) = None"
      unfolding find_None_iff
    proof
      assume "\<exists>v. v \<in> set (wm_views ?m) \<and> ?P v"
      then obtain b l where "(b, l) \<in> set (wm_views ?m)" "b \<le> a + off" "a + off + n \<le> b + l" by auto
      then show False using regions_block_view [OF reg blk, of b l] n by auto
    qed
    moreover have "\<exists>b\<in>set (wm_blocks ?m). b \<le> a + off \<and> a + off + n \<le> b + page_size"
      using blk n by (intro bexI [of _ a]) auto
    ultimately show ?thesis using None by (simp add: win_bytes_def)
  next
    case (Some h)
    then obtain b l where b: "(b, l) \<in> set (wm_views ?m)" "a = b + p * page_size" "p * page_size + page_size \<le> l"
      using backed by (auto simp: page_backed_def)
    have "find ?P (wm_views ?m) = Some (b, l)"
    proof (rule find_Some_unique [OF b(1)])
      show "?P (b, l)" using b n by auto
      show "v = (b, l)" if v: "v \<in> set (wm_views ?m)" "?P v" for v
      proof -
        obtain b' l' where "v = (b', l')" by (cases v)
        then show ?thesis using regions_views [OF reg b(1), of b' l'] v b(2,3) n by auto
      qed
    qed
    then show ?thesis using Some b(2) by (simp add: win_bytes_def)
  qed
qed

lemma win_get_reads:
  assumes ok: "win_ok st" and layout: "layout_ok (wn_store st)" and dim: "0 < ps_dim (wn_store st)"
    and run: "win_get map_ok view_ok i (st, fs) = (Inr addr, st')"
    and disk: "disk_holds (wn_store st', fs) vs" and i: "i < length vs"
  shows "win_bytes (4 * ps_dim (wn_store st)) addr (st', fs) =
    Inr (if map_of (wn_handles st') (slot_page (wn_store st) i) = None then replicate (4 * ps_dim (wn_store st)) 0
         else f32s_bytes (vs ! i))"
proof -
  note G = win_get_ok [OF ok run]
  let ?p = "slot_page (wn_store st) i" and ?off = "vec_offset_in_page (wn_store st) i" and ?n = "4 * ps_dim (wn_store st)"
  obtain a where a: "map_of (ps_cache (wn_store st')) ?p = Some a" "addr = a + ?off" using G(4) [OF refl] by blast
  have "?off + ?n \<le> page_size" using vec_offset_bound [OF layout] by simp
  note R = win_bytes_page [OF G(1) a(1) _ this, of fs]
  have "slot_page (wn_store st') i = ?p" "vec_offset_in_page (wn_store st') i = ?off"
    "ps_dim (wn_store st') = ps_dim (wn_store st)"
    using same_layout_slots [OF G(3)] G(3) by (simp_all add: same_layout_def)
  moreover have "take (4 * ps_dim (wn_store st')) (drop (slot_offset (wn_store st') i)
      (file_content fs (ps_path (wn_store st')))) = f32s_bytes (vs ! i)"
    using disk i by (simp add: disk_holds_def Let_def)
  ultimately have "take ?n (drop (?p * page_size + ?off) (file_content fs (ps_path (wn_store st')))) = f32s_bytes (vs ! i)"
    by (simp add: slot_offset_def)
  then show ?thesis using R dim a(2) by simp
qed

section \<open>Properties\<close>

text \<open>C22: On Windows, counting a view, a mapping object or a heap block as leaked when it is live and no
  entry of the cache stands for it: no \<open>get\<close> leaks anything, whichever system call fails, because the
  eviction goes back to the base of the view; but a \<open>push\<close> to a cached page leaks the page's heap
  block, or its view unless it is page 0, because it hands the address of the page to
  \<open>UnmapViewOfFile\<close>, and the destructor leaks the same for every cached page.\<close>

theorem win_paged_leaks:
  assumes "win_ok st"
  shows "(win_get map_ok view_ok i (st, fs) = (r, st1) \<longrightarrow> win_ok st1 \<and> win_leaked st1 = win_leaked st)
    \<and> (win_push vec (st, fs) = Inr (slot, st2, fs2) \<longrightarrow> win_ok st2
        \<and> win_leaked st2 = win_leaked st \<union> left_behind st (slot_page (wn_store st) slot))
    \<and> win_live (win_close st)
        = win_leaked st \<union> (\<Union>p\<in>fst ` set (ps_cache (wn_store st)). left_behind st p)"
proof (intro conjI impI, goal_cases)
  case 1
  then show ?case by (rule win_get_ok(1) [OF assms])
next
  case 2
  then show ?case by (rule win_get_ok(2) [OF assms])
next
  case 3
  then show ?case by (rule win_push_ok(1) [OF assms])
next
  case 4
  then show ?case by (rule win_push_ok(2) [OF assms])
next
  case 5
  show ?case by (rule win_close_live [OF assms])
qed

text \<open>A file of two pages, of vectors of one float; the page of slot 1021 is page 1.\<close>

definition fs_two_pages :: filesys where
  "fs_two_pages = \<lparr>fs_files = [''p'' \<mapsto> replicate 8192 0], fs_refused = (\<lambda>_. False)\<rparr>"

theorem win_paged_leaks_witness:
  "\<exists>st fs st1. win_open ''p'' 1 8192 fs_two_pages = Inr (st, fs)
    \<and> win_get True True 1022 (st, fs) = (Inr 4106, st1) \<and> win_leaked st1 = {}
    \<and> win_live (win_close st1) = {W_View 2}"
proof -
  obtain st fs where o: "win_open ''p'' 1 8192 fs_two_pages = Inr (st, fs)"
    and st: "wn_handles st = []" "wn_mem st = \<lparr>wm_views = [], wm_blocks = [], wm_maps = [], wm_next = 1\<rparr>"
      "ps_cache (wn_store st) = []" "ps_lru (wn_store st) = []" "ps_max_cached (wn_store st) = 2"
      "ps_per_page (wn_store st) = 1022" "ps_dim (wn_store st) = 1" "file_content fs (ps_path (wn_store st)) = replicate 8192 0"
    by (simp add: win_open_def paged_open_def vectors_per_page_def open_rdwr_creat_def fs_two_pages_def
        page_size_def Let_def file_content_def)
  obtain st1 where g: "win_get True True 1022 (st, fs) = (Inr 4106, st1)"
    and st1: "ps_cache (wn_store st1) = [(1, 4098)]" "wn_handles st1 = [(1, 1)]"
    by (simp add: win_get_def win_load_def slot_page_def vec_offset_in_page_def slot_in_page_def st page_size_def
        page_complete_def Let_def page_map_new_def view_new_def enter_page_def)
  have ok: "win_ok st" and none: "win_leaked st = {}" using win_open_ok [OF o] by simp_all
  have st1_ok: "win_ok st1" "win_leaked st1 = {}"
    using win_paged_leaks [OF ok, of True True 1022 fs _ st1] g none by simp_all
  have "left_behind st1 1 = {W_View 2}"
    using st1 by (auto simp: left_behind_def page_holds_def page_size_def)
  then have "win_live (win_close st1) = {W_View 2}"
    using win_paged_leaks [OF st1_ok(1)] st1 st1_ok(2) by simp
  then show ?thesis using o g st1_ok by auto
qed

end
