(* ===== verification/Paged_Platforms.thy ===== *)
theory Paged_Platforms
  imports Paged_Windows Paged_Properties
begin

text \<open>
  The two branches of \<open>PagedVectorStore\<close> compared: with all system calls working, any sequence of
  pushes and reads has the same results on Windows and on POSIX.
\<close>

section \<open>Two machines in lockstep\<close>

fun run_ops :: "('op \<Rightarrow> 's \<Rightarrow> ('r \<times> 's) res) \<Rightarrow> 'op list \<Rightarrow> 's \<Rightarrow> 'r list res" where
  "run_ops f [] s = Inr []"
| "run_ops f (op # ops) s = bindR (f op s) (\<lambda>(r, s). bindR (run_ops f ops s) (\<lambda>rs. Inr (r # rs)))"

locale lockstep =
  fixes f :: "'op \<Rightarrow> 's \<Rightarrow> ('r \<times> 's) res" and g :: "'op \<Rightarrow> 't \<Rightarrow> ('r \<times> 't) res"
    and R :: "'s \<Rightarrow> 't \<Rightarrow> bool"
  assumes step: "R s t \<Longrightarrow> (\<exists>e. f op s = Inl e \<and> g op t = Inl e)
    \<or> (\<exists>r s' t'. f op s = Inr (r, s') \<and> g op t = Inr (r, t') \<and> R s' t')"
begin

lemma run_same: "R s t \<Longrightarrow> run_ops f ops s = run_ops g ops t"
proof (induction ops arbitrary: s t)
  case (Cons op ops)
  from step [OF Cons.prems, of op] show ?case using Cons.IH by fastforce
qed simp

end

section \<open>The operations\<close>

datatype store_op = Push_Vector "f32 list" | Read_Slot nat

datatype op_result = Slot nat | Floats "f32 list"

text \<open>A read: the floats behind the pointer that \<open>get\<close> returns.\<close>

definition win_read :: "nat \<Rightarrow> win_env \<Rightarrow> (f32 list \<times> win_env) res" where
  "win_read i = (\<lambda>(st, fs).
     case win_get True True i (st, fs) of
       (Inl e, _) \<Rightarrow> Inl e
     | (Inr a, st) \<Rightarrow>
         bindR (win_bytes (4 * ps_dim (wn_store st)) a (st, fs)) (\<lambda>bs.
         Inr (f32s_of_bytes (ps_dim (wn_store st)) bs, (st, fs))))"

fun win_op :: "store_op \<Rightarrow> win_env \<Rightarrow> (op_result \<times> win_env) res" where
  "win_op (Push_Vector v) s = bindR (win_push v s) (\<lambda>(slot, s). Inr (Slot slot, s))"
| "win_op (Read_Slot i) s = bindR (win_read i s) (\<lambda>(v, s). Inr (Floats v, s))"

fun posix_op :: "store_op \<Rightarrow> paged_env \<Rightarrow> (op_result \<times> paged_env) res" where
  "posix_op (Push_Vector v) s = bindR (paged_push v s) (\<lambda>(slot, s). Inr (Slot slot, s))"
| "posix_op (Read_Slot i) s = bindR (paged_read i s) (\<lambda>(v, s). Inr (Floats v, s))"

section \<open>What the states have in common\<close>

text \<open>The same pages in the same order, zeros on one side where there are zeros on the other.\<close>

definition same_pages :: "win_store \<Rightarrow> paged_store \<Rightarrow> bool" where
  "same_pages st ps \<longleftrightarrow> same_layout (wn_store st) ps \<and> ps_n_vectors ps = ps_n_vectors (wn_store st)
     \<and> ps_lru ps = ps_lru (wn_store st) \<and> map fst (ps_cache ps) = map fst (ps_cache (wn_store st))
     \<and> (\<forall>(p, a)\<in>set (ps_cache ps). map_of (wn_handles st) p = None \<longleftrightarrow> ps_maps ps a = Some Zero_Block)"

definition in_step :: "win_env \<Rightarrow> paged_env \<Rightarrow> bool" where
  "in_step = (\<lambda>(st, fs) (ps, fs'). fs' = fs \<and> win_ok st \<and> paged_ok (ps, fs) \<and> same_pages st ps)"

lemma keys_cache_erase: "map fst (cache_erase p c) = filter (\<lambda>q. q \<noteq> p) (map fst c)"
  by (simp add: cache_erase_def filter_map o_def)

lemma same_pages_forget:
  assumes same: "same_pages st ps" and maps: "\<And>q b. (q, b) \<in> set (cache_erase p (ps_cache ps)) \<Longrightarrow> maps b = ps_maps ps b"
  shows "same_pages (forget_page p (st\<lparr>wn_mem := m\<rparr>))
    (ps\<lparr>ps_lru := remove1 p (ps_lru ps), ps_cache := cache_erase p (ps_cache ps), ps_maps := maps\<rparr>)"
  using same maps
  by (auto simp: same_pages_def forget_page_def same_layout_def keys_cache_erase map_of_cache_erase)

lemma same_pages_keys:
  assumes "same_pages st ps"
  shows "fst ` set (ps_cache ps) = fst ` set (ps_cache (wn_store st))"
    and "length (ps_cache ps) = length (ps_cache (wn_store st))"
    and "map_of (ps_cache ps) p = None \<longleftrightarrow> map_of (ps_cache (wn_store st)) p = None"
proof -
  have keys: "map fst (ps_cache ps) = map fst (ps_cache (wn_store st))" using assms by (simp add: same_pages_def)
  from arg_cong [OF keys, of set] arg_cong [OF keys, of length]
  show "fst ` set (ps_cache ps) = fst ` set (ps_cache (wn_store st))"
    "length (ps_cache ps) = length (ps_cache (wn_store st))" by simp_all
  then show "map_of (ps_cache ps) p = None \<longleftrightarrow> map_of (ps_cache (wn_store st)) p = None"
    by (simp add: map_of_eq_None_iff)
qed

section \<open>Pushes\<close>

lemma invalidate_same:
  assumes same: "same_pages st ps" and wf: "cache_wf ps"
  shows "same_pages (win_invalidate p st) (push_invalidate p ps)"
proof (cases "map_of (ps_cache ps) p")
  case None
  then show ?thesis using same same_pages_keys(3) [OF same, of p] by (simp add: push_invalidate_def win_invalidate_def)
next
  case (Some a)
  then obtain a' where a': "map_of (ps_cache (wn_store st)) p = Some a'"
    using same_pages_keys(3) [OF same, of p] by auto
  define maps where "maps = ps_maps (unmap a ps)"
  have eq: "push_invalidate p ps = ps\<lparr>ps_lru := remove1 p (ps_lru ps), ps_cache := cache_erase p (ps_cache ps), ps_maps := maps\<rparr>"
    using Some by (simp add: push_invalidate_def maps_def unmap_def split: option.split page_memory.split)
  have kept: "maps b = ps_maps ps b" if "(q, b) \<in> set (cache_erase p (ps_cache ps))" for q b
    using push_invalidate_spec [OF wf, of p] that by (auto simp: shrunk_def eq)
  have "same_pages (forget_page p (st\<lparr>wn_mem := m\<rparr>)) (push_invalidate p ps)" for m
    unfolding eq by (rule same_pages_forget [OF same kept])
  then show ?thesis using a' by (simp add: win_invalidate_def)
qed

lemma paged_push_ok:
  assumes ok: "paged_ok (ps, fs)" and run: "paged_push vec (ps, fs) = Inr (slot, (ps', fs'))"
  shows "paged_ok (ps', fs')"
proof -
  let ?ps = "ps\<lparr>ps_n_vectors := Suc (ps_n_vectors ps)\<rparr>"
  obtain v where ps': "ps' = push_invalidate (slot_page ?ps slot) ?ps" and fs': "fs' = push_write ?ps slot v fs"
    using run by (auto simp: paged_push_def Let_def bindR_Inr_iff)
  have ok': "paged_ok (?ps, fs)" using ok by (simp add: paged_ok_def layout_ok_def cache_wf_def)
  then have "paged_ok (ps', fs)"
    using push_invalidate_spec [of ?ps "slot_page ?ps slot"] same_layout_slots(4) [of ?ps ps']
    unfolding ps' by (fastforce simp: paged_ok_def shrunk_def same_layout_def)
  moreover have "ps_path ps' = ps_path ps"
    using push_invalidate_spec [of ?ps "slot_page ?ps slot"] ok'
    by (auto simp: ps' paged_ok_def shrunk_def same_layout_def)
  moreover have "length (file_content fs (ps_path ps)) \<le> length (file_content fs' (ps_path ps))"
    by (simp add: fs' push_write_def Let_def max.coboundedI1)
  ultimately show ?thesis by (fastforce simp: paged_ok_def page_complete_def)
qed

lemma push_in_step:
  assumes "in_step (st, fs) (ps, fs)"
  shows "(\<exists>e. win_push v (st, fs) = Inl e \<and> paged_push v (ps, fs) = Inl e)
    \<or> (\<exists>slot s t. win_push v (st, fs) = Inr (slot, s) \<and> paged_push v (ps, fs) = Inr (slot, t) \<and> in_step s t)"
proof -
  have inv: "win_ok st" "paged_ok (ps, fs)" "same_pages st ps" using assms by (simp_all add: in_step_def)
  let ?slot = "ps_n_vectors ps mod 2 ^ 32" and ?ps = "ps\<lparr>ps_n_vectors := Suc (ps_n_vectors ps)\<rparr>"
  let ?wn = "(wn_store st)\<lparr>ps_n_vectors := Suc (ps_n_vectors (wn_store st))\<rparr>"
  let ?st = "st\<lparr>wn_store := ?wn\<rparr>"
  have lay: "ps_n_vectors (wn_store st) = ps_n_vectors ps" "ps_dim (wn_store st) = ps_dim ps"
    "ps_per_page (wn_store st) = ps_per_page ps" "ps_path (wn_store st) = ps_path ps"
    using inv(3) by (simp_all add: same_pages_def same_layout_def)
  have page: "slot_page ?wn ?slot = slot_page ?ps ?slot" by (simp add: slot_page_def lay)
  have writes: "push_write ?wn ?slot x fs = push_write ?ps ?slot x fs" for x
    by (simp add: push_write_def slot_page_def slot_in_page_def vec_offset_in_page_def lay Let_def)
  show ?thesis
  proof (cases "slice_r v 0 (ps_dim ps)")
    case (Inl e)
    then show ?thesis by (simp add: win_push_def paged_push_def Let_def lay)
  next
    case (Inr x)
    let ?s = "(win_invalidate (slot_page ?ps ?slot) ?st, push_write ?ps ?slot x fs)"
    let ?t = "(push_invalidate (slot_page ?ps ?slot) ?ps, push_write ?ps ?slot x fs)"
    have w: "win_push v (st, fs) = Inr (?slot, ?s)"
      using Inr page writes by (simp add: win_push_def Let_def lay)
    moreover have p: "paged_push v (ps, fs) = Inr (?slot, ?t)"
      using Inr by (simp add: paged_push_def Let_def)
    moreover have "same_pages ?st ?ps"
      using inv(3) by (auto simp: same_pages_def same_layout_def)
    moreover have "cache_wf ?ps" using inv(2) by (simp add: paged_ok_def cache_wf_def)
    ultimately have "in_step ?s ?t"
      using invalidate_same win_push_ok(1) [OF inv(1), of v fs] paged_push_ok [OF inv(2), of v]
      by (simp add: in_step_def)
    then show ?thesis using w p by blast
  qed
qed

section \<open>Reads\<close>

lemma evict_same:
  assumes same: "same_pages st ps" and ok: "win_ok st" and wf: "cache_wf ps"
    and full: "ps_max_cached ps \<le> length (ps_cache ps)"
  shows "same_pages (win_evict st) (evict_lru ps)"
proof -
  obtain a where a: "(last (ps_lru ps), a) \<in> set (ps_cache ps)" "ps_lru ps \<noteq> []"
    and eq: "evict_lru ps = ps\<lparr>ps_lru := butlast (ps_lru ps),
      ps_cache := cache_erase (last (ps_lru ps)) (ps_cache ps), ps_maps := (ps_maps ps)(a := None)\<rparr>"
    by (rule evict_lru_spec [OF wf full])
  have lru: "ps_lru (wn_store st) = ps_lru ps" using same by (simp add: same_pages_def)
  then have ne: "ps_lru (wn_store st) \<noteq> []" using a(2) by simp
  obtain m where w: "win_evict st = forget_page (last (ps_lru ps)) (st\<lparr>wn_mem := m\<rparr>)"
    by (rule win_evict_forget [OF ok ne]) (simp add: lru)
  have "remove1 (last (ps_lru ps)) (ps_lru ps) = butlast (ps_lru ps)"
    using wf a(2) by (simp add: cache_wf_def remove1_last)
  moreover have "((ps_maps ps)(a := None)) b = ps_maps ps b"
    if "(q, b) \<in> set (cache_erase (last (ps_lru ps)) (ps_cache ps))" for q b
  proof -
    have "inj_on snd (set (ps_cache ps))" using wf by (simp add: cache_wf_def distinct_map)
    from inj_onD [OF this _ _ a(1), of "(q, b)"] have "b \<noteq> a" using that by auto
    then show ?thesis by simp
  qed
  ultimately show ?thesis
    using same_pages_forget [OF same, of "last (ps_lru ps)" "(ps_maps ps)(a := None)" m] by (simp add: w eq)
qed

text \<open>A load that works enters the page with a handle exactly when the file holds the page.\<close>

lemma win_load_enter:
  assumes "win_ok st"
  defines "s \<equiv> (if ps_max_cached (wn_store st) \<le> length (ps_cache (wn_store st)) then win_evict st else st)"
  obtains a h m where "win_load True True p (st, fs) = (Inr (), enter_page p a h m s)"
    and "h = None \<longleftrightarrow> \<not> page_complete fs (ps_path (wn_store st)) p"
proof -
  have path: "ps_path (wn_store s) = ps_path (wn_store st)"
    using win_evict_ok(4) [OF assms(1)] by (simp add: s_def same_layout_def)
  show ?thesis
  proof (cases "page_complete fs (ps_path (wn_store st)) p")
    case True
    then show ?thesis
      using that by (simp add: win_load_def s_def [symmetric] path page_map_new_def view_new_def Let_def)
  next
    case False
    then show ?thesis
      using that [of _ None] by (simp add: win_load_def s_def [symmetric] path block_new_def Let_def)
  qed
qed

text \<open>Making the page the most recent one, on both sides.\<close>

lemma win_get_same:
  assumes same: "same_pages st ps" and ok: "win_ok st" and pok: "paged_ok (ps, fs)"
  obtains a st' where "win_get True True i (st, fs) = (Inr (a + vec_offset_in_page (wn_store st) i), st')"
    and "map_of (ps_cache (wn_store st')) (slot_page (wn_store st) i) = Some a"
    and "same_pages st' (touch_page (slot_page ps i) (ps, fs))"
proof -
  let ?p = "slot_page ps i" and ?o = "vec_offset_in_page (wn_store st) i"
  have page: "slot_page (wn_store st) i = ?p"
    using same same_layout_slots(2) [of "wn_store st" ps] by (simp add: same_pages_def)
  have wf: "cache_wf ps" using pok by (simp add: paged_ok_def)
  show ?thesis
  proof (cases "map_of (ps_cache ps) ?p")
    case (Some b)
    then obtain a where a: "map_of (ps_cache (wn_store st)) ?p = Some a"
      using same_pages_keys(3) [OF same, of ?p] by auto
    let ?st = "st\<lparr>wn_store := (wn_store st)\<lparr>ps_lru := ?p # remove1 ?p (ps_lru (wn_store st))\<rparr>\<rparr>"
    show ?thesis
    proof (rule that)
      show "win_get True True i (st, fs) = (Inr (a + ?o), ?st)" using a by (simp add: win_get_def page Let_def)
      show "map_of (ps_cache (wn_store ?st)) (slot_page (wn_store st) i) = Some a" using a by (simp add: page)
      show "same_pages ?st (touch_page ?p (ps, fs))"
        using same Some by (auto simp: same_pages_def touch_page_def same_layout_def)
    qed
  next
    case None
    define s where "s = (if ps_max_cached (wn_store st) \<le> length (ps_cache (wn_store st)) then win_evict st else st)"
    define t where "t = (if ps_max_cached ps \<le> length (ps_cache ps) then evict_lru ps else ps)"
    obtain a h m where load: "win_load True True ?p (st, fs) = (Inr (), enter_page ?p a h m s)"
      and h: "h = None \<longleftrightarrow> \<not> page_complete fs (ps_path (wn_store st)) ?p"
      unfolding s_def by (rule win_load_enter [OF ok])
    have lay: "ps_max_cached (wn_store st) = ps_max_cached ps" "ps_path (wn_store st) = ps_path ps"
      using same by (simp_all add: same_pages_def same_layout_def)
    have st: "same_pages s t"
      using evict_same [OF same ok wf] same by (simp add: s_def t_def lay same_pages_keys(2) [OF same])
    have shr: "shrunk ps t" using make_room [OF wf] by (simp add: t_def)
    have ws: "win_ok s" using win_evict_ok(1) [OF ok] ok by (simp add: s_def)
    have "?p \<notin> fst ` set (ps_cache t)" using None shr by (auto simp: shrunk_def map_of_eq_None_iff)
    then have nohandle: "map_of (wn_handles s) ?p = None" and new: "?p \<notin> fst ` set (ps_cache t)"
      using ws same_pages_keys(1) [OF st] by (auto simp: win_ok_def map_of_eq_None_iff)
    have old: "q \<noteq> ?p \<and> b \<noteq> ps_next_map t" if "(q, b) \<in> set (ps_cache t)" for q b
      using new that shr cache_wf_entry [of t q b] by (force simp: shrunk_def)
    have tpath: "ps_path t = ps_path ps" using shr by (simp add: shrunk_def same_layout_def)
    have touch: "touch_page ?p (ps, fs) = t\<lparr>ps_maps := (ps_maps t)(ps_next_map t \<mapsto>
          (if page_complete fs (ps_path ps) ?p then File_Page (?p * page_size) else Zero_Block)),
        ps_next_map := Suc (ps_next_map t), ps_lru := ?p # ps_lru t, ps_cache := (?p, ps_next_map t) # ps_cache t\<rparr>"
      using None by (simp add: touch_page_def load_page_def t_def [symmetric] map_new_def Let_def tpath)
    let ?st = "enter_page ?p a h m s"
    show ?thesis
    proof (rule that)
      show get: "map_of (ps_cache (wn_store ?st)) (slot_page (wn_store st) i) = Some a"
        by (simp add: page enter_page_def)
      then show "win_get True True i (st, fs) = (Inr (a + ?o), ?st)"
        using None same_pages_keys(3) [OF same, of ?p] load by (simp add: win_get_def page Let_def)
      have "map_of (wn_handles ?st) q = (if q = ?p then h else map_of (wn_handles s) q)" for q
        using nohandle by (simp add: enter_page_def split: option.split)
      then show "same_pages ?st (touch_page ?p (ps, fs))"
        using st h old unfolding touch same_pages_def
        by (auto simp: same_layout_def lay enter_page_def [of ?p a h m s])
    qed
  qed
qed

lemma f32s_of_zeros: "f32s_of_bytes n (replicate (4 * n) 0) = replicate n 0"
proof (induction n)
  case (Suc n)
  have "le_nat (replicate k 0) = 0" for k by (induction k) simp_all
  then show ?case using Suc by (simp add: zero_f32_def)
qed simp

lemma read_in_step:
  assumes "in_step (st, fs) (ps, fs)"
  shows "\<exists>v s t. win_read i (st, fs) = Inr (v, s) \<and> paged_read i (ps, fs) = Inr (v, t) \<and> in_step s t"
proof -
  have ok: "win_ok st" and pok: "paged_ok (ps, fs)" and same: "same_pages st ps"
    using assms by (simp_all add: in_step_def)
  let ?p = "slot_page ps i" and ?o = "vec_offset_in_page ps i" and ?d = "ps_dim ps"
  have lay: "slot_page (wn_store st) i = ?p" "vec_offset_in_page (wn_store st) i = ?o"
    using same same_layout_slots(2,3) [of "wn_store st" ps] by (simp_all add: same_pages_def)
  have layout: "layout_ok ps" using pok by (simp add: paged_ok_def)
  have fit: "?o + 4 * ?d \<le> page_size" and d: "0 < ?d"
    using vec_offset_bound [OF layout] layout by (simp_all add: layout_ok_def)
  obtain a st' where get: "win_get True True i (st, fs) = (Inr (a + ?o), st')"
    and a: "map_of (ps_cache (wn_store st')) ?p = Some a" and same': "same_pages st' (touch_page ?p (ps, fs))"
    using win_get_same [OF same ok pok, of i] unfolding lay by blast
  obtain b ps' where pget: "paged_get i (ps, fs) = Inr (page_floats b ?o, (ps', fs))"
    and ps': "ps' = touch_page ?p (ps, fs)" and b: "(?p, b) \<in> set (ps_cache ps')" and t: "touched ?p fs ps ps'"
    by (rule paged_get_touch [OF pok])
  have pok': "paged_ok (ps', fs)" and l': "same_layout ps ps'" using t by (simp_all add: touched_def)
  have dims: "ps_dim ps' = ?d" "ps_path ps' = ps_path ps" "ps_dim (wn_store st') = ?d" "ps_path (wn_store st') = ps_path ps"
    using l' same' by (simp_all add: same_layout_def same_pages_def flip: ps')
  have zero: "map_of (wn_handles st') ?p = None \<longleftrightarrow> ps_maps ps' b = Some Zero_Block"
    using same' b by (auto simp: same_pages_def simp flip: ps')
  note ok' = win_get_ok(1) [OF ok get]
  let ?c = "file_content fs (ps_path ps)" and ?n = "(page_size - ?o) div 4"
  let ?v = "if ps_maps ps' b = Some Zero_Block then replicate ?d 0
    else f32s_of_bytes ?d (take (4 * ?d) (drop (?p * page_size + ?o) ?c))"
  have "win_bytes (4 * ?d) (a + ?o) (st', fs) = Inr (if ps_maps ps' b = Some Zero_Block
      then replicate (4 * ?d) 0 else take (4 * ?d) (drop (?p * page_size + ?o) ?c))"
    using win_bytes_page [OF ok' a _ fit, of fs] d zero by (simp add: dims)
  then have w: "win_read i (st, fs) = Inr (?v, (st', fs))"
    by (simp add: win_read_def get dims f32s_of_zeros)
  have n: "?d \<le> ?n" using fit by simp
  have "page_floats b ?o (ps', fs) = Inr (if ps_maps ps' b = Some Zero_Block then replicate ?n 0
      else f32s_of_bytes ?n (take (4 * ?n) (drop (?p * page_size + ?o) ?c)))"
  proof (cases "ps_maps ps' b = Some Zero_Block")
    case False
    have "ps_maps ps' b = Some (File_Page (?p * page_size))"
      using cache_wf_entry [of ps' ?p b] pok' b False by (auto simp: paged_ok_def)
    moreover have "page_complete fs (ps_path ps) ?p" using pok' b False dims by (auto simp: paged_ok_def)
    then have "?p * page_size + ?o + 4 * ?n \<le> length ?c" using fit by (simp add: page_complete_def)
    ultimately show ?thesis by (simp add: page_floats_def Let_def dims slice_r_def False)
  qed (simp add: page_floats_def Let_def)
  then have "paged_read i (ps, fs) = Inr (?v, (ps', fs))"
    using n by (simp add: paged_read_def pget dims take_f32s_of_bytes min_absorb1)
  moreover have "in_step (st', fs) (ps', fs)" using ok' pok' same' by (simp add: in_step_def ps')
  ultimately show ?thesis using w by blast
qed

section \<open>The same results\<close>

interpretation platforms: lockstep win_op posix_op in_step
proof
  fix s :: win_env and t :: paged_env and op
  assume R: "in_step s t"
  obtain st ps fs where st: "s = (st, fs)" "t = (ps, fs)" using R by (cases s; cases t) (auto simp: in_step_def)
  show "(\<exists>e. win_op op s = Inl e \<and> posix_op op t = Inl e)
    \<or> (\<exists>r s' t'. win_op op s = Inr (r, s') \<and> posix_op op t = Inr (r, t') \<and> in_step s' t')"
  proof (cases op)
    case (Push_Vector v)
    then show ?thesis using push_in_step [of st fs ps v] R by (fastforce simp: st)
  next
    case (Read_Slot i)
    then show ?thesis using read_in_step [of st fs ps i] R by (fastforce simp: st)
  qed
qed

lemma open_in_step:
  assumes "paged_open path n cache_bytes fs = Inr (ps, fs')" and "n < 2 ^ 62"
  obtains st where "win_open path n cache_bytes fs = Inr (st, fs')" and "in_step (st, fs') (ps, fs')"
proof -
  have k: "n * 4 mod 2 ^ 64 = n * 4" using assms(2) by simp
  let ?k = "(page_size - 8) div (n * 4)"
  have ps: "ps_cache ps = []" "ps_lru ps = []" "ps_per_page ps = ?k" "ps_dim ps = n" "0 < n" "0 < ?k"
    "ps_max_cached ps = max 1 (cache_bytes div page_size)"
    using assms(1) k
    by (auto simp: paged_open_def vectors_per_page_def Let_def guardR_def split: option.splits if_splits)
  have "?k * (n * 4) \<le> page_size - 8" by simp
  then have "8 + ?k * n * 4 \<le> page_size" by (simp add: page_size_def mult.assoc)
  then have "paged_ok (ps, fs')" using ps by (simp add: paged_ok_def layout_ok_def cache_wf_def)
  moreover obtain st where st: "win_open path n cache_bytes fs = Inr (st, fs')" "wn_store st = ps"
    using assms(1) by (simp add: win_open_def)
  ultimately show ?thesis
    using that [OF st(1)] win_open_ok(1) [OF st(1)] ps(1)
    by (simp add: in_step_def same_pages_def same_layout_def)
qed

text \<open>C21: The branch for Windows is the branch for POSIX with other system calls: on any file, any
  sequence of pushes and reads gives the same slots, the same floats and the same errors.\<close>

theorem win_posix_same:
  assumes "n < 2 ^ 62"
  shows "bindR (win_open path n cache_bytes fs) (run_ops win_op ops)
    = bindR (paged_open path n cache_bytes fs) (run_ops posix_op ops)"
proof (cases "paged_open path n cache_bytes fs")
  case (Inr env)
  obtain ps fs' where env: "paged_open path n cache_bytes fs = Inr (ps, fs')" using Inr by (cases env) simp
  obtain st where w: "win_open path n cache_bytes fs = Inr (st, fs')" and R: "in_step (st, fs') (ps, fs')"
    by (rule open_in_step [OF env assms])
  show ?thesis using platforms.run_same [OF R] by (simp add: env w)
qed (simp add: win_open_def)

theorem win_posix_same_witness:
  "\<exists>env. paged_open ''p'' 1022 0 no_files = Inr env
    \<and> bindR (win_open ''p'' 1022 0 no_files)
        (run_ops win_op [Push_Vector (replicate 1022 f32_infinity), Read_Slot 0])
      = Inr [Slot 0, Floats (replicate 1022 f32_infinity)]"
proof -
  let ?w = "replicate 1022 f32_infinity"
  obtain env st fs where *: "paged_open ''p'' 1022 0 no_files = Inr env" "paged_push ?w env = Inr (0, (st, fs))"
    and run: "paged_run ''p'' 1022 0 (st, fs) [?w]" and "\<forall>p. \<not> cached_zeros st p"
    by (rule push_one [of 1022 ?w 0]) simp_all
  moreover have "page_complete fs ''p'' (slot_page st 0)" using one_per_page [OF run] by simp
  ultimately obtain env2 where "paged_read 0 (st, fs) = Inr (?w, env2)"
    using paged_read_spec [of st fs "[?w]" 0] paged_run_inv [OF run] by (auto simp: paged_inv_def)
  then show ?thesis using win_posix_same [of 1022 "''p''" 0 no_files] * by simp
qed

end
