(* ===== verification/File_Storage.thy ===== *)
theory File_Storage
  imports Byte_Codec
begin

text \<open>
  \<open>FileWriter\<close>, \<open>MMapReader\<close> and \<open>FileHeader\<close> (\<open>src/include/storage.hpp\<close>,
  \<open>src/src/storage.cpp\<close>, the branch for POSIX).  The stream of the writer has a buffer of the
  C library: a byte that \<open>fwrite\<close> accepts is in the buffer, and reaches the file at a flush, at
  the close, or earlier, when the library makes room.  How many bytes a call takes is its
  argument, so that a full device is one of its outcomes.
\<close>

section \<open>The header\<close>

record file_header =
  fh_magic :: "32 word"
  fh_version :: "32 word"
  fh_dim :: "32 word"
  fh_reserved :: "32 word"
  fh_num_vectors :: "64 word"

definition file_header_default :: file_header where
  "file_header_default =
     \<lparr>fh_magic = 0x4E444220, fh_version = 1, fh_dim = 0, fh_reserved = 0, fh_num_vectors = 0\<rparr>"

text \<open>The object representation, as \<open>write\<close> stores it: no padding, the 64-bit field is aligned.\<close>

definition file_header_bytes :: "file_header \<Rightarrow> byte list" where
  "file_header_bytes h = le32 (fh_magic h) @ le32 (fh_version h) @ le32 (fh_dim h)
     @ le32 (fh_reserved h) @ le64 (fh_num_vectors h)"

section \<open>Writing\<close>

text \<open>\<open>fw_buffer\<close>: what \<open>fwrite\<close> accepted and the file does not have yet.\<close>

record file_writer =
  fw_path :: string
  fw_buffer :: "byte list"

definition file_writer_open :: "string \<Rightarrow> filesys \<Rightarrow> (file_writer \<times> filesys) res" where
  "file_writer_open path fs =
     (case fopen_wb fs path of
        None \<Rightarrow> Inl (Runtime_Error (''FileWriter: cannot open '' @ path))
      | Some fs \<Rightarrow> Inr (\<lparr>fw_path = path, fw_buffer = []\<rparr>, fs))"

text \<open>The library writes out the first \<open>n\<close> bytes of the buffer.\<close>

definition buffer_out :: "nat \<Rightarrow> file_writer \<times> filesys \<Rightarrow> file_writer \<times> filesys" where
  "buffer_out n = (\<lambda>(w, fs).
     let content = (case fs_files fs (fw_path w) of None \<Rightarrow> [] | Some c \<Rightarrow> c)
     in (w\<lparr>fw_buffer := drop n (fw_buffer w)\<rparr>,
         fs\<lparr>fs_files := (fs_files fs)(fw_path w \<mapsto> content @ take n (fw_buffer w))\<rparr>))"

text \<open>
  \<open>write_raw\<close>, when \<open>fwrite\<close> accepts \<open>accepted\<close> bytes at most: the exception, if any, and the
  state it leaves.
\<close>

definition write_raw ::
    "nat \<Rightarrow> byte list \<Rightarrow> file_writer \<times> filesys \<Rightarrow> unit res \<times> (file_writer \<times> filesys)" where
  "write_raw accepted data = (\<lambda>(w, fs).
     let written = min accepted (length data);
         w = w\<lparr>fw_buffer := fw_buffer w @ take written data\<rparr>
     in (if written \<noteq> length data then Inl (Runtime_Error ''FileWriter: write error'') else Inr (),
         (w, fs)))"

text \<open>The template \<open>write\<close> for a type with the object representation \<open>rep\<close>.\<close>

definition write_value ::
    "('a \<Rightarrow> byte list) \<Rightarrow> nat \<Rightarrow> 'a \<Rightarrow> file_writer \<times> filesys
      \<Rightarrow> unit res \<times> (file_writer \<times> filesys)" where
  "write_value rep accepted val = write_raw accepted (rep val)"

text \<open>\<open>flush\<close> and the destructor ignore how much \<open>fflush\<close> could write.\<close>

definition writer_flush :: "nat \<Rightarrow> file_writer \<times> filesys \<Rightarrow> file_writer \<times> filesys" where
  "writer_flush room s = buffer_out room s"

definition writer_close :: "nat \<Rightarrow> file_writer \<times> filesys \<Rightarrow> filesys" where
  "writer_close room s = snd (writer_flush room s)"

section \<open>Reading\<close>

text \<open>\<open>data_\<close> and \<open>size_\<close> of a mapped file.\<close>

record mmap_reader =
  mr_data :: "byte list"
  mr_size :: nat

text \<open>The map of an empty file fails: \<open>mmap\<close> refuses the length 0.\<close>

definition mmap_open :: "string \<Rightarrow> filesys \<Rightarrow> mmap_reader res" where
  "mmap_open path fs =
     (case fopen_rb fs path of
        None \<Rightarrow> Inl (Runtime_Error (''MMapReader: cannot open '' @ path))
      | Some content \<Rightarrow>
          let size = length content in
          bindR (guardR (size \<noteq> 0) (Runtime_Error ''MMapReader: mmap failed'')) (\<lambda>_.
          Inr \<lparr>mr_data = content, mr_size = size\<rparr>))"

section \<open>What a program of writes leaves in the file\<close>

text \<open>The calls on a writer, with what the library does on its own in between.\<close>

datatype writer_event = Write_Raw nat "byte list" | Flush nat | Library_Out nat

fun writer_step :: "writer_event \<Rightarrow> file_writer \<times> filesys \<Rightarrow> (file_writer \<times> filesys) res" where
  "writer_step (Write_Raw accepted data) s = (case write_raw accepted data s of (r, s) \<Rightarrow> bindR r (\<lambda>_. Inr s))"
| "writer_step (Flush room) s = Inr (writer_flush room s)"
| "writer_step (Library_Out n) s = Inr (buffer_out n s)"

fun event_bytes :: "writer_event \<Rightarrow> byte list" where
  "event_bytes (Write_Raw accepted data) = data"
| "event_bytes _ = []"

definition written_bytes :: "writer_event list \<Rightarrow> byte list" where
  "written_bytes es = concat (map event_bytes es)"

text \<open>The stream: what the file has, then what the buffer has.\<close>

definition stream :: "file_writer \<times> filesys \<Rightarrow> byte list" where
  "stream = (\<lambda>(w, fs). (case fs_files fs (fw_path w) of None \<Rightarrow> [] | Some c \<Rightarrow> c) @ fw_buffer w)"

lemma buffer_out_stream: "stream (buffer_out n s) = stream s"
  by (cases s) (simp add: stream_def buffer_out_def Let_def)

lemma writer_step_stream:
  "writer_step e s = Inr s' \<Longrightarrow>
    stream s' = stream s @ event_bytes e \<and> fw_path (fst s') = fw_path (fst s)
    \<and> fs_refused (snd s') = fs_refused (snd s)"
proof (induction e s rule: writer_step.induct)
  case (1 accepted data s)
  then show ?case
    by (cases s) (auto simp: write_raw_def Let_def stream_def min_def split: if_splits)
qed (auto simp: writer_flush_def buffer_out_stream, auto simp: buffer_out_def Let_def split_beta)

lemma writer_steps_stream:
  "foldR writer_step es s = Inr s' \<Longrightarrow>
    stream s' = stream s @ written_bytes es \<and> fw_path (fst s') = fw_path (fst s)
    \<and> fs_refused (snd s') = fs_refused (snd s)"
proof (induction es arbitrary: s)
  case Nil
  then show ?case by (simp add: written_bytes_def)
next
  case (Cons e es)
  then obtain s1 where "writer_step e s = Inr s1" "foldR writer_step es s1 = Inr s'"
    by (auto simp: bindR_Inr_iff)
  then show ?case
    using writer_step_stream [of e s s1] Cons.IH [of s1] by (simp add: written_bytes_def)
qed

lemma writer_close_file:
  "fs_files (writer_close room (w, fs)) (fw_path w)
    = Some (take (length (stream (w, fs)) - (length (fw_buffer w) - room)) (stream (w, fs)))"
  by (cases "fs_files fs (fw_path w)"; cases "room \<le> length (fw_buffer w)")
    (simp_all add: writer_close_def writer_flush_def buffer_out_def Let_def stream_def min_def)

section \<open>Properties\<close>

text \<open>C39: Whatever the C library writes out in between, a writer whose calls all succeed leaves a
  file that the reader maps as exactly the bytes written, in order, up to the end that the close
  could not write out: its failure is not reported, so on a full device the file is silently cut.
  An empty file is refused by the reader.\<close>

theorem file_writer_reader:
  assumes "file_writer_open path fs = Inr s" and "foldR writer_step es s = Inr (w, fs')"
    and "kept = take (length (written_bytes es) - (length (fw_buffer w) - room)) (written_bytes es)"
  shows "mmap_open path (writer_close room (w, fs'))
    = (if kept = [] then Inl (Runtime_Error ''MMapReader: mmap failed'')
       else Inr \<lparr>mr_data = kept, mr_size = length kept\<rparr>)"
proof -
  have s: "fw_path (fst s) = path" "stream s = []" "\<not> fs_refused (snd s) path"
    using assms(1) by (auto simp: file_writer_open_def fopen_wb_def stream_def split: if_splits)
  have w: "fw_path w = path" "stream (w, fs') = written_bytes es" "fs_refused fs' = fs_refused (snd s)"
    using writer_steps_stream [OF assms(2)] s by simp_all
  have "fs_files (writer_close room (w, fs')) path = Some kept"
    using writer_close_file [of room w fs'] w assms(3) by simp
  moreover have "fs_refused (writer_close room (w, fs')) = fs_refused fs'"
    by (simp add: writer_close_def writer_flush_def buffer_out_def Let_def)
  ultimately show ?thesis
    using s(3) w(3) by (simp add: mmap_open_def fopen_rb_def Let_def)
qed

theorem file_writer_reader_witness:
  "\<exists>s w fs'. file_writer_open ''f'' \<lparr>fs_files = Map.empty, fs_refused = (\<lambda>_. False)\<rparr> = Inr s
    \<and> foldR writer_step [Write_Raw 24 (file_header_bytes file_header_default), Library_Out 5] s = Inr (w, fs')
    \<and> mmap_open ''f'' (writer_close 19 (w, fs')) = Inr \<lparr>mr_data = file_header_bytes file_header_default, mr_size = 24\<rparr>
    \<and> mmap_open ''f'' (writer_close 3 (w, fs')) = Inr \<lparr>mr_data = take 8 (file_header_bytes file_header_default), mr_size = 8\<rparr>"
proof -
  let ?fs = "\<lparr>fs_files = Map.empty, fs_refused = (\<lambda>_. False)\<rparr> :: filesys"
  let ?es = "[Write_Raw 24 (file_header_bytes file_header_default), Library_Out 5]"
  have len: "length (file_header_bytes file_header_default) = 24" by (simp add: file_header_bytes_def)
  then have ne: "file_header_bytes file_header_default \<noteq> []" by auto
  obtain s where o: "file_writer_open ''f'' ?fs = Inr s" "fw_buffer (fst s) = []"
    by (simp add: file_writer_open_def fopen_wb_def)
  obtain w fs' where r: "foldR writer_step ?es s = Inr (w, fs')" "length (fw_buffer w) = 19"
    using len o(2) by (cases s) (simp add: write_raw_def Let_def buffer_out_def)
  have "written_bytes ?es = file_header_bytes file_header_default" by (simp add: written_bytes_def)
  then show ?thesis
    using file_writer_reader [OF o(1) r(1) refl, of 19] file_writer_reader [OF o(1) r(1) refl, of 3] o r len ne
    by (intro exI [of _ s] exI [of _ w] exI [of _ fs']) (simp del: foldR.simps)
qed

end
