(* ===== verification/Storage_Handles.thy ===== *)
theory Storage_Handles
  imports File_Storage
begin

text \<open>
  The constructor and the destructor of \<open>MMapReader\<close> (\<open>src/src/storage.cpp\<close>) on the resources of
  the operating system, both branches of the preprocessor: handles (descriptors) and views of files.
  Which calls fail is an argument.  A constructor that throws runs no destructor.
\<close>

section \<open>Handles and views\<close>

datatype os_resource = Os_Handle nat | Os_View nat

fun resource_no :: "os_resource \<Rightarrow> nat" where
  "resource_no (Os_Handle n) = n"
| "resource_no (Os_View n) = n"

text \<open>The live resources, the bytes of each view, and a number that is not in use.\<close>

record os_state =
  os_live :: "os_resource set"
  os_bytes :: "nat \<Rightarrow> byte list"
  os_next :: nat

definition os_handle_new :: "os_state \<Rightarrow> nat \<times> os_state" where
  "os_handle_new s = (os_next s,
     s\<lparr>os_live := insert (Os_Handle (os_next s)) (os_live s), os_next := Suc (os_next s)\<rparr>)"

definition os_view_new :: "byte list \<Rightarrow> os_state \<Rightarrow> nat \<times> os_state" where
  "os_view_new bs s = (os_next s,
     s\<lparr>os_live := insert (Os_View (os_next s)) (os_live s), os_bytes := (os_bytes s)(os_next s := bs),
       os_next := Suc (os_next s)\<rparr>)"

definition os_close :: "nat \<Rightarrow> os_state \<Rightarrow> os_state" where
  "os_close h s = s\<lparr>os_live := os_live s - {Os_Handle h}\<rparr>"

definition os_unmap :: "nat \<Rightarrow> os_state \<Rightarrow> os_state" where
  "os_unmap a s = s\<lparr>os_live := os_live s - {Os_View a}\<rparr>"

text \<open>
  The calls of a constructor after the open: whether the call for the size works, what the size is
  otherwise (a variable without a value), and whether the calls that map work.
\<close>

record os_calls =
  oc_size_ok :: bool
  oc_size_junk :: nat
  oc_mapping_ok :: bool
  oc_view_ok :: bool

definition calls_work :: os_calls where
  "calls_work = \<lparr>oc_size_ok = True, oc_size_junk = 0, oc_mapping_ok = True, oc_view_ok = True\<rparr>"

definition reader_size :: "os_calls \<Rightarrow> byte list \<Rightarrow> nat" where
  "reader_size c content = (if oc_size_ok c then length content else oc_size_junk c)"

section \<open>The branch for Windows\<close>

text \<open>A null pointer is \<open>None\<close>.  No mapping is created of an empty file.\<close>

record win_reader =
  wr_data :: "nat option"
  wr_size :: nat
  wr_file :: "nat option"
  wr_mapping :: "nat option"

definition win_reader_open :: "os_calls \<Rightarrow> string \<Rightarrow> filesys \<Rightarrow> os_state \<Rightarrow> win_reader res \<times> os_state" where
  "win_reader_open c path fs s =
     (case fopen_rb fs path of
        None \<Rightarrow> (Inl (Runtime_Error (''MMapReader: cannot open '' @ path)), s)
      | Some content \<Rightarrow>
          case os_handle_new s of (hFile, s) \<Rightarrow>
          if \<not> oc_mapping_ok c \<or> content = []
          then (Inl (Runtime_Error ''MMapReader: CreateFileMapping failed''), os_close hFile s)
          else
            case os_handle_new s of (hMapping, s) \<Rightarrow>
            if \<not> oc_view_ok c
            then (Inl (Runtime_Error ''MMapReader: MapViewOfFile failed''),
                  os_close hFile (os_close hMapping s))
            else
              case os_view_new content s of (a, s) \<Rightarrow>
                (Inr \<lparr>wr_data = Some a, wr_size = reader_size c content,
                      wr_file = Some hFile, wr_mapping = Some hMapping\<rparr>, s))"

definition win_reader_close :: "win_reader \<Rightarrow> os_state \<Rightarrow> os_state" where
  "win_reader_close r s =
     (let s = (case wr_data r of None \<Rightarrow> s | Some a \<Rightarrow> os_unmap a s);
          s = (case wr_mapping r of None \<Rightarrow> s | Some h \<Rightarrow> os_close h s)
      in case wr_file r of None \<Rightarrow> s | Some h \<Rightarrow> os_close h s)"

definition win_reader_owned :: "win_reader \<Rightarrow> os_resource set" where
  "win_reader_owned r = Os_View ` set_option (wr_data r)
     \<union> Os_Handle ` set_option (wr_mapping r) \<union> Os_Handle ` set_option (wr_file r)"

section \<open>The branch for POSIX\<close>

text \<open>
  \<open>mmap\<close> refuses the length 0; a view longer than the file has no bytes past its end.  The fields
  of the object: \<open>None\<close> is a null pointer or \<open>MAP_FAILED\<close>, and a negative descriptor.
\<close>

record posix_reader =
  pr_data :: "nat option"
  pr_size :: nat
  pr_fd :: "nat option"

definition posix_reader_open :: "os_calls \<Rightarrow> string \<Rightarrow> filesys \<Rightarrow> os_state \<Rightarrow> posix_reader res \<times> os_state" where
  "posix_reader_open c path fs s =
     (case fopen_rb fs path of
        None \<Rightarrow> (Inl (Runtime_Error (''MMapReader: cannot open '' @ path)), s)
      | Some content \<Rightarrow>
          case os_handle_new s of (fd, s) \<Rightarrow>
          let size = reader_size c content in
          if \<not> oc_view_ok c \<or> size = 0
          then (Inl (Runtime_Error ''MMapReader: mmap failed''), os_close fd s)
          else
            case os_view_new (take size content) s of (a, s) \<Rightarrow>
              (Inr \<lparr>pr_data = Some a, pr_size = size, pr_fd = Some fd\<rparr>, s))"

definition posix_reader_close :: "posix_reader \<Rightarrow> os_state \<Rightarrow> os_state" where
  "posix_reader_close r s =
     (let s = (case pr_data r of None \<Rightarrow> s | Some a \<Rightarrow> os_unmap a s)
      in case pr_fd r of None \<Rightarrow> s | Some fd \<Rightarrow> os_close fd s)"

definition posix_reader_owned :: "posix_reader \<Rightarrow> os_resource set" where
  "posix_reader_owned r = Os_View ` set_option (pr_data r) \<union> Os_Handle ` set_option (pr_fd r)"

section \<open>Resources are owned\<close>

text \<open>Live resources have numbers that have been given out.\<close>

definition os_ok :: "os_state \<Rightarrow> bool" where
  "os_ok s \<longleftrightarrow> (\<forall>x\<in>os_live s. resource_no x < os_next s)"

text \<open>An object owns its resources when it has taken them from a state, and its end releases them
  and no others, whatever else has been opened or closed in between.\<close>

locale os_owner =
  fixes acquire :: "os_state \<Rightarrow> 'r res \<times> os_state"
    and dispose :: "'r \<Rightarrow> os_state \<Rightarrow> os_state"
    and owned :: "'r \<Rightarrow> os_resource set"
  assumes acquire_ok: "os_ok s \<Longrightarrow> acquire s = (x, s') \<Longrightarrow> os_ok s'"
    and acquire_throws: "os_ok s \<Longrightarrow> acquire s = (Inl e, s') \<Longrightarrow> os_live s' = os_live s"
    and acquire_returns: "os_ok s \<Longrightarrow> acquire s = (Inr r, s') \<Longrightarrow>
      os_live s' = os_live s \<union> owned r \<and> owned r \<inter> os_live s = {}"
    and dispose_live: "os_live (dispose r t) = os_live t - owned r"
    and dispose_next: "os_next (dispose r t) = os_next t"
begin

lemma dispose_ok: "os_ok t \<Longrightarrow> os_ok (dispose r t)"
  by (simp add: os_ok_def dispose_live dispose_next)

text \<open>From the constructor to the destructor: what was live is live again, and what others opened
  or closed in between stays so.\<close>

lemma lifetime:
  assumes ok: "os_ok s" and run: "acquire s = (Inr r, s1)" and t: "os_live t = (os_live s1 - gone) \<union> new"
    and others: "gone \<inter> owned r = {}" "new \<inter> owned r = {}"
  shows "os_live (dispose r t) = (os_live s - gone) \<union> new"
  using acquire_returns [OF ok run] t others by (auto simp: dispose_live)

text \<open>Two objects of the same kind that are alive together have nothing in common.\<close>

lemma acquire_disjoint:
  assumes "os_ok s" and "acquire s = (Inr r, s1)" and "acquire s1 = (Inr r', s2)"
  shows "owned r \<inter> owned r' = {}"
  using acquire_returns [OF assms(1,2)] acquire_returns [OF acquire_ok [OF assms(1,2)] assms(3)] by auto

end

lemmas os_defs = os_handle_new_def os_view_new_def os_close_def os_unmap_def Let_def

lemma os_ok_fresh: "os_ok s \<Longrightarrow> os_next s \<le> resource_no x \<Longrightarrow> x \<notin> os_live s"
  by (auto simp: os_ok_def)

interpretation win: os_owner "win_reader_open c path fs" win_reader_close win_reader_owned for c path fs
proof unfold_locales
  fix s x s'
  assume ok: "os_ok s" and run: "win_reader_open c path fs s = (x, s')"
  note fresh = os_ok_fresh [OF ok]
  show "os_ok s'"
    using ok run by (fastforce simp: win_reader_open_def os_defs os_ok_def split: option.splits if_splits)
next
  fix s e s'
  assume ok: "os_ok s" and run: "win_reader_open c path fs s = (Inl e, s')"
  then show "os_live s' = os_live s"
    using os_ok_fresh [OF ok] by (auto simp: win_reader_open_def os_defs split: option.splits if_splits)
next
  fix s r s'
  assume ok: "os_ok s" and run: "win_reader_open c path fs s = (Inr r, s')"
  then show "os_live s' = os_live s \<union> win_reader_owned r \<and> win_reader_owned r \<inter> os_live s = {}"
    using os_ok_fresh [OF ok]
    by (auto simp: win_reader_open_def os_defs win_reader_owned_def split: option.splits if_splits)
qed (auto simp: win_reader_close_def win_reader_owned_def os_defs split: option.splits)

interpretation posix: os_owner "posix_reader_open c path fs" posix_reader_close posix_reader_owned for c path fs
proof unfold_locales
  fix s x s'
  assume ok: "os_ok s" and run: "posix_reader_open c path fs s = (x, s')"
  then show "os_ok s'"
    by (fastforce simp: posix_reader_open_def os_defs os_ok_def split: option.splits if_splits)
next
  fix s e s'
  assume ok: "os_ok s" and run: "posix_reader_open c path fs s = (Inl e, s')"
  then show "os_live s' = os_live s"
    using os_ok_fresh [OF ok] by (auto simp: posix_reader_open_def os_defs split: option.splits if_splits)
next
  fix s r s'
  assume ok: "os_ok s" and run: "posix_reader_open c path fs s = (Inr r, s')"
  then show "os_live s' = os_live s \<union> posix_reader_owned r \<and> posix_reader_owned r \<inter> os_live s = {}"
    using os_ok_fresh [OF ok]
    by (auto simp: posix_reader_open_def os_defs posix_reader_owned_def split: option.splits if_splits)
qed (auto simp: posix_reader_close_def posix_reader_owned_def os_defs split: option.splits)

section \<open>Properties\<close>

text \<open>C24: On both platforms, whichever system call fails, a constructor of \<open>MMapReader\<close> that throws
  leaves no handle and no view behind, and one that returns holds resources of its own, which the
  destructor gives back and no others, whatever others have opened and closed in between.  With all
  calls working both give the file as the map that the rest of the development reads, and both refuse
  an empty file.\<close>

theorem mmap_reader_resources:
  assumes "os_ok s"
  shows "(win_reader_open c path fs s = (Inl e, s1) \<or> posix_reader_open c path fs s = (Inl e, s1) \<longrightarrow>
      os_live s1 = os_live s)
    \<and> (win_reader_open c path fs s = (Inr wr, s1)
      \<longrightarrow> gone \<inter> win_reader_owned wr = {} \<longrightarrow> new \<inter> win_reader_owned wr = {}
      \<longrightarrow> os_live t = (os_live s1 - gone) \<union> new
      \<longrightarrow> os_live (win_reader_close wr t) = (os_live s - gone) \<union> new)
    \<and> (posix_reader_open c path fs s = (Inr pr, s1)
      \<longrightarrow> gone \<inter> posix_reader_owned pr = {} \<longrightarrow> new \<inter> posix_reader_owned pr = {}
      \<longrightarrow> os_live t = (os_live s1 - gone) \<union> new
      \<longrightarrow> os_live (posix_reader_close pr t) = (os_live s - gone) \<union> new)
    \<and> (mmap_open path fs = Inr m \<longrightarrow>
        (\<exists>wr pr a a' sw sp. win_reader_open calls_work path fs s = (Inr wr, sw) \<and> wr_data wr = Some a
          \<and> posix_reader_open calls_work path fs s = (Inr pr, sp) \<and> pr_data pr = Some a'
          \<and> os_bytes sw a = mr_data m \<and> wr_size wr = mr_size m
          \<and> os_bytes sp a' = mr_data m \<and> pr_size pr = mr_size m))
    \<and> (mmap_open path fs = Inl e' \<longrightarrow>
        posix_reader_open calls_work path fs s = (Inl e', snd (posix_reader_open calls_work path fs s))
        \<and> (\<exists>e. fst (win_reader_open calls_work path fs s) = Inl e))"
proof (intro conjI impI, goal_cases)
  case 1
  then show ?case using win.acquire_throws [OF assms] posix.acquire_throws [OF assms] by blast
next
  case 2
  show ?case by (rule win.lifetime [OF assms 2(1,4,2,3)])
next
  case 3
  show ?case by (rule posix.lifetime [OF assms 3(1,4,2,3)])
next
  case 4
  then show ?case
    by (auto simp: mmap_open_def win_reader_open_def posix_reader_open_def os_defs calls_work_def reader_size_def
        guardR_def split: option.splits if_splits)
qed (auto simp: mmap_open_def win_reader_open_def posix_reader_open_def os_defs calls_work_def reader_size_def
    guardR_def split: option.splits if_splits)

text \<open>A file of three bytes, in a process that has one descriptor.\<close>

definition os_one :: os_state where
  "os_one = \<lparr>os_live = {Os_Handle 0}, os_bytes = (\<lambda>_. []), os_next = 1\<rparr>"

definition fs_three :: filesys where
  "fs_three = \<lparr>fs_files = [''f'' \<mapsto> [1, 2, 3]], fs_refused = (\<lambda>_. False)\<rparr>"

theorem mmap_reader_resources_witness:
  "os_live (snd (win_reader_open (calls_work\<lparr>oc_view_ok := False\<rparr>) ''f'' fs_three os_one)) = {Os_Handle 0}
    \<and> (\<exists>wr sw a. win_reader_open calls_work ''f'' fs_three os_one = (Inr wr, sw) \<and> wr_data wr = Some a
        \<and> os_bytes sw a = [1, 2, 3] \<and> os_live sw = {Os_Handle 0, Os_Handle 1, Os_Handle 2, Os_View 3}
        \<and> os_live (win_reader_close wr sw) = {Os_Handle 0})"
proof -
  have ok: "os_ok os_one" by (simp add: os_ok_def os_one_def)
  let ?c = "calls_work\<lparr>oc_view_ok := False\<rparr>"
  obtain e s where bad: "win_reader_open ?c ''f'' fs_three os_one = (Inl e, s)"
    by (simp add: win_reader_open_def fopen_rb_def fs_three_def os_defs calls_work_def)
  obtain wr sw where good: "win_reader_open calls_work ''f'' fs_three os_one = (Inr wr, sw)"
    "wr_data wr = Some 3" "os_bytes sw 3 = [1, 2, 3]" "win_reader_owned wr = {Os_Handle 1, Os_Handle 2, Os_View 3}"
    "os_live sw = {Os_Handle 0, Os_Handle 1, Os_Handle 2, Os_View 3}"
    by (auto simp: win_reader_open_def fopen_rb_def fs_three_def os_defs calls_work_def os_one_def win_reader_owned_def
        numeral_2_eq_2 numeral_3_eq_3)
  have "os_live s = {Os_Handle 0}"
    using mmap_reader_resources [OF ok, of ?c "''f''" fs_three e s] bad by (auto simp: os_one_def)
  moreover have "os_live (win_reader_close wr sw) = {Os_Handle 0}"
    using mmap_reader_resources [OF ok, of calls_work "''f''" fs_three _ sw wr "{}" "{}" sw] good(1)
    by (simp add: os_one_def)
  ultimately show ?thesis using bad good by auto
qed

end
