(* ===== verification/Python_Bindings.thy ===== *)
theory Python_Bindings
  imports Hnsw_Store Metadata_Filter
begin

text \<open>
  The Python module (\<open>src/python/bindings.cpp\<close>): the conversions between Python objects and
  JSON, and the methods of the class \<open>Index\<close> that do more than forward.  Python objects are a
  datatype with the kinds the conversions distinguish.  The JSON library and \<open>str()\<close> of Python
  are arguments.
\<close>

section \<open>Python objects\<close>

text \<open>
  \<open>Py_Other b\<close> is an object of any other type; \<open>b\<close> is the string it can be cast to, as bytes
  objects can.  A dictionary is the list of its entries in the order of insertion.
\<close>

datatype py_obj =
    Py_None
  | Py_Bool bool
  | Py_Int int
  | Py_Float fval
  | Py_Str string
  | Py_List "py_obj list"
  | Py_Dict "(py_obj \<times> py_obj) list"
  | Py_Other "string option"

text \<open>An array of floats: its shape, the distance of its elements in floats, and the floats in
  memory from the pointer of its buffer on.\<close>

record np_array =
  np_shape :: "nat list"
  np_step :: nat
  np_buffer :: "f32 list"

section \<open>Building JSON\<close>

text \<open>The rest of the JSON library: making values, and the kinds \<open>json_meta_to_dict\<close> asks for.\<close>

record 'j json_make =
  jm_null :: "'j"
  jm_bool :: "bool \<Rightarrow> 'j"
  jm_int :: "int \<Rightarrow> 'j"
  jm_double :: "fval \<Rightarrow> 'j"
  jm_string :: "string \<Rightarrow> 'j"
  jm_array :: "'j"
  jm_push_back :: "'j \<Rightarrow> 'j \<Rightarrow> 'j"
  jm_object :: "'j"
  jm_assign :: "'j \<Rightarrow> string \<Rightarrow> 'j \<Rightarrow> 'j"
  jm_is_integer :: "'j \<Rightarrow> bool"
  jm_get_int :: "'j \<Rightarrow> int"
  jm_is_float :: "'j \<Rightarrow> bool"
  jm_is_bool :: "'j \<Rightarrow> bool"
  jm_get_bool :: "'j \<Rightarrow> bool"

definition cast_error :: err where
  "cast_error = Runtime_Error ''Unable to cast Python instance''"

text \<open>\<open>cast<int64_t>\<close> refuses an integer that does not fit.\<close>

definition cast_int64 :: "int \<Rightarrow> int res" where
  "cast_int64 n = (if - (2 ^ 63) \<le> n \<and> n < 2 ^ 63 then Inr n else Inl cast_error)"

fun py_to_json :: "'j json_make \<Rightarrow> (py_obj \<Rightarrow> string) \<Rightarrow> py_obj \<Rightarrow> 'j res"
  and py_list_to_json :: "'j json_make \<Rightarrow> (py_obj \<Rightarrow> string) \<Rightarrow> py_obj list \<Rightarrow> 'j \<Rightarrow> 'j res"
  and py_dict_to_json :: "'j json_make \<Rightarrow> (py_obj \<Rightarrow> string) \<Rightarrow> (py_obj \<times> py_obj) list \<Rightarrow> 'j \<Rightarrow> 'j res"
where
  "py_to_json jm str Py_None = Inr (jm_null jm)"
| "py_to_json jm str (Py_Bool b) = Inr (jm_bool jm b)"
| "py_to_json jm str (Py_Int n) = bindR (cast_int64 n) (\<lambda>n. Inr (jm_int jm n))"
| "py_to_json jm str (Py_Float x) = Inr (jm_double jm x)"
| "py_to_json jm str (Py_Str s) = Inr (jm_string jm s)"
| "py_to_json jm str (Py_List items) = py_list_to_json jm str items (jm_array jm)"
| "py_to_json jm str (Py_Dict kvs) = py_dict_to_json jm str kvs (jm_object jm)"
| "py_to_json jm str (Py_Other b) =
     (case b of None \<Rightarrow> Inl cast_error | Some s \<Rightarrow> Inr (jm_string jm s))"
| "py_list_to_json jm str [] arr = Inr arr"
| "py_list_to_json jm str (item # items) arr =
     bindR (py_to_json jm str item) (\<lambda>j. py_list_to_json jm str items (jm_push_back jm arr j))"
| "py_dict_to_json jm str [] obj = Inr obj"
| "py_dict_to_json jm str ((key, val) # kvs) obj =
     bindR (py_to_json jm str val) (\<lambda>j.
       py_dict_to_json jm str kvs (jm_assign jm obj (str key) j))"

definition dict_to_json ::
    "'j json_lib \<Rightarrow> 'j json_make \<Rightarrow> (py_obj \<Rightarrow> string) \<Rightarrow> py_obj \<Rightarrow> string res" where
  "dict_to_json js jm str obj =
     (if obj = Py_None then Inr ''{}'' else bindR (py_to_json jm str obj) (js_dump js))"

section \<open>Arrays\<close>

text \<open>The pointer of the buffer: the distance of the elements is not looked at.\<close>

definition get_ptr :: "np_array \<Rightarrow> nat \<Rightarrow> f32 list res" where
  "get_ptr arr expected_dim =
     bindR (guardR (length (np_shape arr) = 1 \<and> np_shape arr ! 0 = expected_dim)
       (Invalid_Argument (''Expected 1D float32 array of size '' @ decimal expected_dim))) (\<lambda>_.
     Inr (np_buffer arr))"

section \<open>Metadata as a Python dictionary\<close>

text \<open>\<open>md[key] = value\<close>.\<close>

fun md_set :: "string \<Rightarrow> py_obj \<Rightarrow> (string \<times> py_obj) list \<Rightarrow> (string \<times> py_obj) list" where
  "md_set key val [] = [(key, val)]"
| "md_set key val ((k, v) # md) = (if k = key then (k, val) # md else (k, v) # md_set key val md)"

text \<open>
  Bytes become a Python string by strict decoding as UTF-8 (the table of well-formed byte sequences
  of the Unicode standard), which throws on anything else.
\<close>

definition utf8_tail :: "nat \<Rightarrow> bool" where
  "utf8_tail b \<longleftrightarrow> 0x80 \<le> b \<and> b \<le> 0xBF"

fun utf8_bytes :: "nat list \<Rightarrow> bool" where
  "utf8_bytes [] = True"
| "utf8_bytes (a # bs) =
     (if a < 0x80 then utf8_bytes bs
      else if 0xC2 \<le> a \<and> a \<le> 0xDF then
        (case bs of b # bs' \<Rightarrow> utf8_tail b \<and> utf8_bytes bs' | _ \<Rightarrow> False)
      else if 0xE0 \<le> a \<and> a \<le> 0xEF then
        (case bs of
           b # c # bs' \<Rightarrow> (if a = 0xE0 then 0xA0 else 0x80) \<le> b \<and> b \<le> (if a = 0xED then 0x9F else 0xBF)
             \<and> utf8_tail c \<and> utf8_bytes bs'
         | _ \<Rightarrow> False)
      else if 0xF0 \<le> a \<and> a \<le> 0xF4 then
        (case bs of
           b # c # d # bs' \<Rightarrow> (if a = 0xF0 then 0x90 else 0x80) \<le> b \<and> b \<le> (if a = 0xF4 then 0x8F else 0xBF)
             \<and> utf8_tail c \<and> utf8_tail d \<and> utf8_bytes bs'
         | _ \<Rightarrow> False)
      else False)"

definition utf8_valid :: "string \<Rightarrow> bool" where
  "utf8_valid s = utf8_bytes (map of_char s)"

definition to_py_str :: "string \<Rightarrow> py_obj res" where
  "to_py_str s =
     (if utf8_valid s then Inr (Py_Str s) else Inl (Runtime_Error ''UnicodeDecodeError''))"

definition md_value :: "'j json_lib \<Rightarrow> 'j json_make \<Rightarrow> 'j \<Rightarrow> py_obj res" where
  "md_value js jm v =
     (if js_is_string js v then to_py_str (js_string js v)
      else if jm_is_integer jm v then Inr (Py_Int (jm_get_int jm v))
      else if jm_is_float jm v then Inr (Py_Float (js_double js v))
      else if jm_is_bool jm v then Inr (Py_Bool (jm_get_bool jm v))
      else bindR (js_dump js v) to_py_str)"

text \<open>The loop over the items; an exception in it is caught with the entries set so far.\<close>

fun md_items ::
    "'j json_lib \<Rightarrow> 'j json_make \<Rightarrow> (string \<times> 'j) list \<Rightarrow> (string \<times> py_obj) list
      \<Rightarrow> (string \<times> py_obj) list \<times> bool" where
  "md_items js jm [] md = (md, True)"
| "md_items js jm ((k, v) # items) md =
     (case bindR (md_value js jm v) (\<lambda>x. bindR (to_py_str k) (\<lambda>_. Inr x)) of
        Inl _ \<Rightarrow> (md, False)
      | Inr x \<Rightarrow> md_items js jm items (md_set k x md))"

text \<open>The handler stores the whole text, and an exception there leaves the function.\<close>

definition md_raw :: "string \<Rightarrow> (string \<times> py_obj) list \<Rightarrow> (string \<times> py_obj) list res" where
  "md_raw meta md = bindR (to_py_str meta) (\<lambda>x. Inr (md_set ''_raw'' x md))"

definition json_meta_to_dict ::
    "'j json_lib \<Rightarrow> 'j json_make \<Rightarrow> string \<Rightarrow> (string \<times> py_obj) list res" where
  "json_meta_to_dict js jm meta =
     (case js_parse js meta of
        None \<Rightarrow> md_raw meta []
      | Some j \<Rightarrow>
          (case md_items js jm (js_items js j) [] of
             (md, ok) \<Rightarrow> if ok then Inr md else md_raw meta md))"

section \<open>The class Index\<close>

definition py_index_new ::
    "(f32 \<Rightarrow> f32) \<Rightarrow> int \<Rightarrow> string \<Rightarrow> int \<Rightarrow> int \<Rightarrow> int \<Rightarrow> unit hnsw res" where
  "py_index_new logf n metric M ef_construction ef_search =
     (let cfg = \<lparr>cfg_M = M, cfg_ef_construction = ef_construction, cfg_ef_search = ef_search\<rparr> in
      bindR (guardR (\<not> (metric \<noteq> ''cosine'' \<and> metric \<noteq> ''l2''))
        (Invalid_Argument (''metric must be '' @ [CHR 0x27] @ ''cosine'' @ [CHR 0x27] @ '' or ''
          @ [CHR 0x27] @ ''l2'' @ [CHR 0x27]))) (\<lambda>_.
      Inr (hnsw_new logf (nat (n mod 2 ^ 64)) cfg)))"

definition py_index_insert ::
    "'j json_lib \<Rightarrow> 'j json_make \<Rightarrow> (py_obj \<Rightarrow> string)
      \<Rightarrow> (scored list \<Rightarrow> scored list) \<Rightarrow> (f32 \<Rightarrow> f32) \<Rightarrow> f32 \<Rightarrow> 64 word \<Rightarrow> np_array \<Rightarrow> py_obj
      \<Rightarrow> unit hnsw \<times> unit visit_ctx \<Rightarrow> (unit hnsw \<times> unit visit_ctx) res" where
  "py_index_insert js jm str srt logf val i vec metadata = (\<lambda>(h, ctx).
     bindR (get_ptr vec (h_dim h)) (\<lambda>ptr.
     bindR (dict_to_json js jm str metadata) (\<lambda>meta.
     hnsw_insert srt logf val i ptr meta (h, ctx))))"

record py_hit =
  hit_id :: "64 word"
  hit_score :: f32
  hit_metadata :: "(string \<times> py_obj) list"

text \<open>The slot of a result: the first one with its id, or slot 0.\<close>

definition internal_id :: "unit hnsw \<Rightarrow> 64 word \<Rightarrow> nat res" where
  "internal_id h i =
     bindR (find_first (\<lambda>j. j = i) (h_id_map h) (h_num_vectors h mod 2 ^ 32)) (\<lambda>r.
     Inr (case r of None \<Rightarrow> 0 | Some iid \<Rightarrow> iid))"

text \<open>The loop over the results; \<open>wc\<close> is the where clause, if there is one.\<close>

fun collect_hits ::
    "'j json_lib \<Rightarrow> 'j json_make \<Rightarrow> unit hnsw \<Rightarrow> int \<Rightarrow> 'j where_clause option
      \<Rightarrow> (f32 \<times> 64 word) list \<Rightarrow> py_hit list \<Rightarrow> py_hit list res" where
  "collect_hits js jm h k wc [] out = Inr out"
| "collect_hits js jm h k wc ((score, i) # raw) out =
     (if k \<le> int (length out) then Inr out
      else
        bindR (internal_id h i) (\<lambda>iid.
        bindR (nth_r (h_metadata h) iid) (\<lambda>meta.
        bindR (case wc of None \<Rightarrow> Inr True | Some w \<Rightarrow> evaluate_filter js meta w) (\<lambda>pass.
        if \<not> pass then collect_hits js jm h k wc raw out
        else
          bindR (json_meta_to_dict js jm meta) (\<lambda>md.
          collect_hits js jm h k wc raw
            (out @ [\<lparr>hit_id = i, hit_score = score, hit_metadata = md\<rparr>]))))))"

definition py_index_search ::
    "'j json_lib \<Rightarrow> 'j json_make \<Rightarrow> (py_obj \<Rightarrow> string) \<Rightarrow> (scored list \<Rightarrow> scored list)
      \<Rightarrow> unit hnsw \<Rightarrow> np_array \<Rightarrow> int \<Rightarrow> py_obj \<Rightarrow> unit visit_ctx
      \<Rightarrow> (py_hit list \<times> unit visit_ctx) res" where
  "py_index_search js jm str srt h query k where_arg ctx =
     bindR (get_ptr query (h_dim h)) (\<lambda>ptr.
     bindR (if where_arg = Py_None then Inr None
            else bindR (py_to_json jm str where_arg) (\<lambda>j. bindR (parse_where js j) (\<lambda>w. Inr (Some w))))
       (\<lambda>wc.
     bindR (if wc \<noteq> None then int_r (k * 4) else Inr k) (\<lambda>n.
     bindR (hnsw_search srt h ptr n ctx) (\<lambda>(raw_results, ctx).
     bindR (collect_hits js jm h k wc raw_results []) (\<lambda>out.
     Inr (out, ctx))))))"

text \<open>The methods that forward to those of \<open>HNSWIndex\<close>.  \<open>save\<close>, \<open>load\<close>, \<open>__len__\<close>,
  \<open>live_size\<close> and \<open>set_ef_search\<close> are the member functions themselves.\<close>

definition py_index_delete :: "64 word \<Rightarrow> unit hnsw \<Rightarrow> unit hnsw res" where
  "py_index_delete i h = hnsw_delete i h"

definition py_index_is_deleted :: "unit hnsw \<Rightarrow> 64 word \<Rightarrow> bool res" where
  "py_index_is_deleted h i = hnsw_is_deleted h i"

definition py_index_compact ::
    "(scored list \<Rightarrow> scored list) \<Rightarrow> (f32 \<Rightarrow> f32) \<Rightarrow> (nat \<Rightarrow> f32) \<Rightarrow> string \<Rightarrow> string
      \<Rightarrow> unit hnsw \<Rightarrow> unit visit_ctx \<times> filesys \<Rightarrow> unit res \<times> unit visit_ctx \<times> filesys" where
  "py_index_compact srt logf draws index_path log_path h =
     hnsw_compact srt logf draws index_path log_path h"

section \<open>The hits of a search\<close>

text \<open>The first slot with an id, and the hit made of a result.\<close>

definition first_slot :: "unit hnsw \<Rightarrow> 64 word \<Rightarrow> nat" where
  "first_slot h i = length (takeWhile (\<lambda>j. j \<noteq> i) (h_id_map h))"

definition passes :: "'j json_lib \<Rightarrow> 'j where_clause option \<Rightarrow> string \<Rightarrow> bool" where
  "passes js wc meta = (case wc of None \<Rightarrow> True | Some w \<Rightarrow> filter_accepts js meta w)"

definition hit_at :: "'j json_lib \<Rightarrow> 'j json_make \<Rightarrow> unit hnsw \<Rightarrow> (f32 \<times> 64 word) \<times> nat \<Rightarrow> py_hit res" where
  "hit_at js jm h = (\<lambda>((score, i), slot).
     bindR (json_meta_to_dict js jm (h_metadata h ! slot)) (\<lambda>md.
     Inr \<lparr>hit_id = i, hit_score = score, hit_metadata = md\<rparr>))"

lemma first_slot_props:
  assumes "i \<in> set (h_id_map h)"
  shows "first_slot h i < length (h_id_map h)" and "h_id_map h ! first_slot h i = i"
    and "j < first_slot h i \<Longrightarrow> h_id_map h ! j \<noteq> i"
proof -
  show less: "first_slot h i < length (h_id_map h)"
  proof -
    have "dropWhile (\<lambda>j. j \<noteq> i) (h_id_map h) \<noteq> []" using assms by auto
    then have "0 < length (dropWhile (\<lambda>j. j \<noteq> i) (h_id_map h))" by simp
    then show ?thesis
      using arg_cong [OF takeWhile_dropWhile_id [of "\<lambda>j. j \<noteq> i" "h_id_map h"], of length]
      by (simp only: first_slot_def length_append)
  qed
  show "h_id_map h ! first_slot h i = i"
    using nth_length_takeWhile [of "\<lambda>j. j \<noteq> i" "h_id_map h"] less by (simp add: first_slot_def)
  show "j < first_slot h i \<Longrightarrow> h_id_map h ! j \<noteq> i"
    using takeWhile_nth [of j "\<lambda>j. j \<noteq> i" "h_id_map h"] nth_mem [of j "takeWhile (\<lambda>j. j \<noteq> i) (h_id_map h)"]
    by (auto simp: first_slot_def dest: set_takeWhileD)
qed

lemma first_slot_unique:
  assumes "distinct (h_id_map h)" and "j < length (h_id_map h)"
  shows "first_slot h (h_id_map h ! j) = j"
proof -
  have "h_id_map h ! j \<in> set (h_id_map h)" using assms(2) by simp
  then show ?thesis
    using first_slot_props(1,2) [of "h_id_map h ! j" h] assms nth_eq_iff_index_eq by blast
qed

lemma internal_id_first:
  assumes wf: "hnsw_wf h" and num: "h_num_vectors h < 2 ^ 32" and i: "i \<in> set (h_id_map h)"
  shows "internal_id h i = Inr (first_slot h i)"
proof -
  have len: "length (h_id_map h) = h_num_vectors h" using wf by (simp add: hnsw_wf_def hnsw_sizes_def)
  obtain r where r: "find_first (\<lambda>j. j = i) (h_id_map h) (h_num_vectors h) = Inr r"
    using find_first_defined [of "h_num_vectors h" "h_id_map h"] len by auto
  note slot = first_slot_props [OF i]
  have "r = Some (first_slot h i)"
  proof (cases r)
    case None
    then show ?thesis using find_first_None [of "\<lambda>j. j = i" "h_id_map h" "h_num_vectors h"] r slot(1,2) len by auto
  next
    case (Some j)
    then have j: "h_id_map h ! j = i" "\<forall>l<j. h_id_map h ! l \<noteq> i"
      using find_first_Some [of "\<lambda>j. j = i" "h_id_map h" "h_num_vectors h" j] r by auto
    then have "\<not> j < first_slot h i" "\<not> first_slot h i < j" using slot(2,3) by auto
    then show ?thesis using Some by simp
  qed
  then show ?thesis using r num by (simp add: internal_id_def)
qed

lemma collect_hits_step:
  assumes wf: "hnsw_wf h" and num: "h_num_vectors h < 2 ^ 32" and i: "i \<in> set (h_id_map h)"
  shows "collect_hits js jm h k wc ((s, i) # raw) out =
    (if k \<le> int (length out) then Inr out
     else
       bindR (case wc of None \<Rightarrow> Inr True | Some w \<Rightarrow> evaluate_filter js (h_metadata h ! first_slot h i) w) (\<lambda>pass.
       if \<not> pass then collect_hits js jm h k wc raw out
       else bindR (hit_at js jm h ((s, i), first_slot h i)) (\<lambda>hit. collect_hits js jm h k wc raw (out @ [hit]))))"
proof -
  have "first_slot h i < length (h_metadata h)"
    using first_slot_props(1) [OF i] wf by (simp add: hnsw_wf_def hnsw_sizes_def)
  then show ?thesis using internal_id_first [OF wf num i] by (simp add: nth_r_def hit_at_def bindR_assoc cong: if_cong)
qed

text \<open>What comes out when the loop returns: the first of the results that pass, as hits.\<close>

lemma collect_hits_spec:
  assumes wf: "hnsw_wf h" and num: "h_num_vectors h < 2 ^ 32"
    and ids: "snd ` set raw \<subseteq> set (h_id_map h)" and run: "collect_hits js jm h k wc raw out = Inr hits"
  shows "\<exists>new. hits = out @ new \<and> mapR (hit_at js jm h) (take (nat k - length out)
    (filter (\<lambda>rs. passes js wc (h_metadata h ! snd rs)) (map (\<lambda>r. (r, first_slot h (snd r))) raw))) = Inr new"
  using ids run
proof (induction raw arbitrary: out)
  case (Cons r raw)
  obtain s i where r: "r = (s, i)" by (cases r)
  have i: "i \<in> set (h_id_map h)" and raw: "snd ` set raw \<subseteq> set (h_id_map h)" using Cons.prems(1) r by simp_all
  note step = Cons.prems(2) [unfolded r collect_hits_step [OF wf num i]]
  let ?m = "h_metadata h ! first_slot h i"
  show ?case
  proof (cases "k \<le> int (length out)")
    case True
    then show ?thesis using step by simp
  next
    case False
    then have more: "nat k - length out = Suc (nat k - Suc (length out))" by linarith
    obtain pass where eval: "(case wc of None \<Rightarrow> Inr True | Some w \<Rightarrow> evaluate_filter js ?m w) = Inr pass"
      and rest: "(if \<not> pass then collect_hits js jm h k wc raw out
        else bindR (hit_at js jm h ((s, i), first_slot h i)) (\<lambda>hit. collect_hits js jm h k wc raw (out @ [hit])))
        = Inr hits"
      using step False by (auto simp: bindR_Inr_iff)
    have pass: "pass \<longleftrightarrow> passes js wc ?m"
      using eval by (cases wc) (auto simp: passes_def dest: evaluate_filter_accepts)
    show ?thesis
    proof (cases pass)
      case True
      then obtain hit where "hit_at js jm h ((s, i), first_slot h i) = Inr hit"
        "collect_hits js jm h k wc raw (out @ [hit]) = Inr hits"
        using rest by (auto simp: bindR_Inr_iff)
      then show ?thesis using Cons.IH [OF raw, of "out @ [hit]"] True pass more by (auto simp: r bindR_Inr_iff)
    next
      case False
      then show ?thesis using Cons.IH [OF raw, of out] rest pass by (simp add: r)
    qed
  qed
qed simp

text \<open>The loop returns when the filter and the conversion do on every metadata.\<close>

lemma collect_hits_returns:
  assumes wf: "hnsw_wf h" and num: "h_num_vectors h < 2 ^ 32" and ids: "snd ` set raw \<subseteq> set (h_id_map h)"
    and filter: "\<And>m w. m \<in> set (h_metadata h) \<Longrightarrow> wc = Some w \<Longrightarrow> okR (evaluate_filter js m w) (\<lambda>_. True)"
    and dict: "\<And>m. m \<in> set (h_metadata h) \<Longrightarrow> okR (json_meta_to_dict js jm m) (\<lambda>_. True)"
  shows "okR (collect_hits js jm h k wc raw out) (\<lambda>_. True)"
  using ids
proof (induction raw arbitrary: out)
  case (Cons r raw)
  obtain s i where r: "r = (s, i)" by (cases r)
  have i: "i \<in> set (h_id_map h)" using Cons.prems r by simp
  have "h_metadata h ! first_slot h i \<in> set (h_metadata h)"
    using first_slot_props(1) [OF i] wf by (simp add: hnsw_wf_def hnsw_sizes_def)
  then have "okR (case wc of None \<Rightarrow> Inr True | Some w \<Rightarrow> evaluate_filter js (h_metadata h ! first_slot h i) w) (\<lambda>_. True)"
    "okR (hit_at js jm h ((s, i), first_slot h i)) (\<lambda>_. True)"
    using filter dict by (auto simp: hit_at_def split: option.splits)
  then show ?case
    using Cons by (auto simp: r collect_hits_step [OF wf num i] simp del: collect_hits.simps elim!: okR_mono)
qed simp

text \<open>The results of a search carry ids of the index.\<close>

lemma search_ids:
  assumes "desc_sorter srt" and "hnsw_wf h" and "visit_ok ctx" and "h_num_vectors h < 2 ^ 32"
    and "hnsw_search srt h query k ctx = Inr (rs, ctx')"
  shows "\<exists>idxs. map snd rs = map (\<lambda>i. h_id_map h ! i) idxs \<and> distinct idxs \<and> set idxs \<subseteq> set (live_nodes h)"
    and "snd ` set rs \<subseteq> set (h_id_map h)"
proof -
  obtain idxs where idxs: "map snd rs = map (\<lambda>i. h_id_map h ! i) idxs" "distinct idxs" "set idxs \<subseteq> set (live_nodes h)"
    using search_returns_live [OF assms] by blast
  then show "\<exists>idxs. map snd rs = map (\<lambda>i. h_id_map h ! i) idxs \<and> distinct idxs \<and> set idxs \<subseteq> set (live_nodes h)"
    by blast
  have "snd ` set rs = (\<lambda>i. h_id_map h ! i) ` set idxs" using idxs(1) by (simp only: set_map [symmetric])
  then show "snd ` set rs \<subseteq> set (h_id_map h)"
    using idxs(3) assms(2) by (auto simp: live_nodes_def hnsw_wf_def hnsw_sizes_def)
qed

section \<open>Small instances\<close>

text \<open>A JSON library on the values of \<open>jval\<close>, and indexes that differ from the small one in
  their slots, to instantiate the properties.\<close>

fun jassign :: "jval \<Rightarrow> string \<Rightarrow> jval \<Rightarrow> jval" where
  "jassign (JObj kvs) k v = JObj (filter (\<lambda>kv. fst kv \<noteq> k) kvs @ [(k, v)])"
| "jassign j k v = j"

fun jpush :: "jval \<Rightarrow> jval \<Rightarrow> jval" where
  "jpush (JArr js) j = JArr (js @ [j])"
| "jpush j' j = j'"

definition jmake :: "jval json_make" where
  "jmake = \<lparr>jm_null = JStr [], jm_bool = (\<lambda>b. JInt (if b then 1 else 0)), jm_int = JInt,
     jm_double = (\<lambda>_. JInt 0), jm_string = JStr, jm_array = JArr [], jm_push_back = jpush,
     jm_object = JObj [], jm_assign = jassign,
     jm_is_integer = (\<lambda>j. case j of JInt _ \<Rightarrow> True | _ \<Rightarrow> False),
     jm_get_int = (\<lambda>j. case j of JInt n \<Rightarrow> n | _ \<Rightarrow> 0),
     jm_is_float = (\<lambda>_. False), jm_is_bool = (\<lambda>_. False), jm_get_bool = (\<lambda>_. False)\<rparr>"

fun jstr :: "py_obj \<Rightarrow> string" where
  "jstr (Py_Str s) = s"
| "jstr _ = ''object''"

definition query_one :: np_array where
  "query_one = \<lparr>np_shape = [1], np_step = 1, np_buffer = [f32_one]\<rparr>"

definition pair_with :: "64 word list \<Rightarrow> string list \<Rightarrow> bool list \<Rightarrow> unit hnsw" where
  "pair_with ids ms ts = hnsw_pair\<lparr>h_id_map := ids, h_metadata := ms, h_tombstone := ts\<rparr>"

lemma pair_with_fields [simp]:
  "h_id_map (pair_with ids ms ts) = ids" "h_metadata (pair_with ids ms ts) = ms"
  "h_tombstone (pair_with ids ms ts) = ts" "h_num_vectors (pair_with ids ms ts) = 2"
  "h_dim (pair_with ids ms ts) = 1" "h_cfg (pair_with ids ms ts) = cfg_small"
  by (simp_all add: pair_with_def)

lemma pair_with_wf:
  "length ids = 2 \<Longrightarrow> length ms = 2 \<Longrightarrow> length ts = 2 \<Longrightarrow> hnsw_wf (pair_with ids ms ts)"
  using hnsw_pair_wf by (auto simp: hnsw_wf_def hnsw_sizes_def levels_wf_def pair_with_def)

lemma pair_with_search:
  assumes "length ids = 2" and "length ms = 2" and "length ts = 2"
  shows "\<exists>rs ctx' idxs. hnsw_search isort_desc (pair_with ids ms ts) [f32_one] k ctx_new = Inr (rs, ctx')
    \<and> rs = map (result_node (pair_with ids ms ts) [f32_one]) idxs
    \<and> is_top_k (node_score own_vector (pair_with ids ms ts) [f32_one]) (live_nodes (pair_with ids ms ts))
        (result_limit k 2) idxs"
proof -
  let ?h = "pair_with ids ms ts"
  have q: "query_ok ?h [f32_one]"
    using pair_query by (simp add: query_ok_def node_score_def own_vector_def pair_with_def)
  have "links_at ?h 0 0 = [1]" "links_at ?h 0 1 = [0]"
    by (simp_all add: links_at_def pair_with_def hnsw_pair_def)
  then have "reaches ?h 0 0 1" "reaches ?h 0 1 0" by (auto intro: reaches.link [OF reaches.start])
  then have "\<forall>i<2. \<forall>j<2. reaches ?h 0 i j" by (auto simp: all_less_2 intro: reaches.start)
  then show ?thesis
    using exhaustive_search [OF isort.whole.desc_sorter_axioms pair_with_wf [OF assms] ctx_new_ok _ q, of k]
    by (simp add: cfg_small_def)
qed

section \<open>Properties\<close>

text \<open>C25: With a where clause and distinct ids, the hits of a search that returns are the first \<open>k\<close>
  results of a search for \<open>4 * k\<close> whose own metadata the clause accepts, in the order of the search,
  each with its id, its score and the metadata of its own live slot as a dictionary.  The clause is
  applied after the search, so fewer than \<open>k\<close> hits may come back although more vectors match.\<close>

theorem py_index_search_filtered:
  assumes "desc_sorter srt" and "hnsw_wf h" and "visit_ok ctx" and "h_num_vectors h < 2 ^ 32"
    and "distinct (h_id_map h)" and "where_arg \<noteq> Py_None"
    and "py_to_json jm str where_arg = Inr j" and "parse_where js j = Inr w"
    and "py_index_search js jm str srt h query k where_arg ctx = Inr (hits, ctx')"
  shows "\<exists>rs slots. hnsw_search srt h (np_buffer query) (k * 4) ctx = Inr (rs, ctx')
    \<and> map snd rs = map (\<lambda>i. h_id_map h ! i) slots \<and> distinct slots \<and> set slots \<subseteq> set (live_nodes h)
    \<and> list_all2 (\<lambda>(r, i) hit. hit_id hit = snd r \<and> hit_score hit = fst r
          \<and> json_meta_to_dict js jm (h_metadata h ! i) = Inr (hit_metadata hit))
        (take (nat k) (filter (\<lambda>(r, i). filter_accepts js (h_metadata h ! i) w) (zip rs slots))) hits"
proof -
  obtain rs where search: "hnsw_search srt h (np_buffer query) (k * 4) ctx = Inr (rs, ctx')"
    and hits: "collect_hits js jm h k (Some w) rs [] = Inr hits"
    using assms(6-9)
    by (auto simp: py_index_search_def get_ptr_def bindR_Inr_iff int_r_def split: if_splits)
  obtain slots where slots: "map snd rs = map (\<lambda>i. h_id_map h ! i) slots" "distinct slots" "set slots \<subseteq> set (live_nodes h)"
    and ids: "snd ` set rs \<subseteq> set (h_id_map h)"
    using search_ids [OF assms(1-4) search] by blast
  have len: "length rs = length slots" using arg_cong [OF slots(1), of length] by simp
  have below: "i < length (h_id_map h)" if "i \<in> set slots" for i
    using that slots(3) assms(2) by (auto simp: live_nodes_def hnsw_wf_def hnsw_sizes_def)
  have "map (\<lambda>r. first_slot h (snd r)) rs = map (first_slot h) (map snd rs)" by simp
  also have "\<dots> = slots"
    unfolding slots(1) using first_slot_unique [OF assms(5) below] by (simp add: map_idI)
  finally have "zip rs slots = zip rs (map (\<lambda>r. first_slot h (snd r)) rs)" by simp
  then have own: "map (\<lambda>r. (r, first_slot h (snd r))) rs = zip rs slots"
    by (simp add: zip_map2 zip_same_conv_map)
  have "mapR (hit_at js jm h) (take (nat k)
      (filter (\<lambda>rs. passes js (Some w) (h_metadata h ! snd rs)) (zip rs slots))) = Inr hits"
    using collect_hits_spec [OF assms(2,4) ids hits] by (simp add: own)
  moreover have "(\<lambda>rs :: (f32 \<times> 64 word) \<times> nat. passes js (Some w) (h_metadata h ! snd rs)) = (\<lambda>(r, i). filter_accepts js (h_metadata h ! i) w)"
    by (auto simp: passes_def fun_eq_iff)
  ultimately have "list_all2 (\<lambda>rs hit. hit_at js jm h rs = Inr hit)
      (take (nat k) (filter (\<lambda>(r, i). filter_accepts js (h_metadata h ! i) w) (zip rs slots))) hits"
    by (simp only: mapR_Inr_iff)
  then have "list_all2 (\<lambda>(r, i) hit. hit_id hit = snd r \<and> hit_score hit = fst r
          \<and> json_meta_to_dict js jm (h_metadata h ! i) = Inr (hit_metadata hit))
      (take (nat k) (filter (\<lambda>(r, i). filter_accepts js (h_metadata h ! i) w) (zip rs slots))) hits"
    by (rule list_all2_mono) (auto simp: hit_at_def bindR_Inr_iff)
  then show ?thesis using search slots by blast
qed

lemma list_all2_right: "list_all2 P xs ys \<Longrightarrow> y \<in> set ys \<Longrightarrow> \<exists>x\<in>set xs. P x y"
  by (induction rule: list_all2_induct) auto

text \<open>The conversion of the metadata of the small instances.\<close>

lemma small_dicts:
  "json_meta_to_dict jlib jmake ''doc'' = Inr [(''year'', Py_Int 2021), (''tag'', Py_Str ''a'')]"
  "json_meta_to_dict jlib jmake ''b'' = Inr [(''_raw'', Py_Str ''b'')]"
  "json_meta_to_dict jlib jmake ''old'' = Inr [(''_raw'', Py_Str ''old'')]"
  "json_meta_to_dict jlib jmake ''new'' = Inr [(''_raw'', Py_Str ''new'')]"
  by (simp_all add: json_meta_to_dict_def md_raw_def md_value_def to_py_str_def utf8_valid_def jlib_def jmake_def)

theorem py_index_search_filtered_witness:
  "\<exists>hits ctx'. py_index_search jlib jmake jstr isort_desc (pair_with [7, 8] [''doc'', ''b''] [False, False])
      query_one 1 (Py_Dict [(Py_Str ''tag'', Py_Str ''a'')]) ctx_new = Inr (hits, ctx')
    \<and> hit_id ` set hits \<subseteq> {7}"
proof -
  let ?h = "pair_with [7, 8] [''doc'', ''b''] [False, False]"
  let ?w = "[(''tag'', [\<lparr>ff_op = EQ, ff_value = JStr ''a''\<rparr>])]"
  let ?where = "Py_Dict [(Py_Str ''tag'', Py_Str ''a'')]"
  have wf: "hnsw_wf ?h" and num: "h_num_vectors ?h < 2 ^ 32" by (simp_all add: pair_with_wf)
  have json: "py_to_json jmake jstr ?where = Inr (JObj [(''tag'', JStr ''a'')])"
    by (simp add: jmake_def)
  have parsed: "parse_where jlib (JObj [(''tag'', JStr ''a'')]) = Inr ?w"
    by (simp add: parse_where_def parse_spec_def jlib_def)
  obtain rs ctx' where search: "hnsw_search isort_desc ?h [f32_one] 4 ctx_new = Inr (rs, ctx')"
    using pair_with_search [of "[7, 8]" "[''doc'', ''b'']" "[False, False]" 4] by auto
  have "snd ` set rs \<subseteq> set (h_id_map ?h)"
    by (rule search_ids(2) [OF isort.whole.desc_sorter_axioms wf ctx_new_ok num search])
  then have "okR (collect_hits jlib jmake ?h 1 (Some ?w) rs []) (\<lambda>_. True)"
  proof (rule collect_hits_returns [OF wf num])
    have "clause_runs jlib ''doc'' ?w" "clause_runs jlib ''b'' ?w" by code_simp+
    then show "okR (evaluate_filter jlib m w) (\<lambda>_. True)" if "m \<in> set (h_metadata ?h)" "Some ?w = Some w" for m w
      using that evaluate_filter_runs by (auto simp: okR_iff)
  qed (auto simp: small_dicts)
  then obtain hits where "collect_hits jlib jmake ?h 1 (Some ?w) rs [] = Inr hits"
    by (auto simp: okR_iff)
  then have run: "py_index_search jlib jmake jstr isort_desc ?h query_one 1 ?where ctx_new = Inr (hits, ctx')"
    using json parsed search by (simp add: py_index_search_def get_ptr_def query_one_def int_r_def)
  obtain rs slots where slots: "set slots \<subseteq> set (live_nodes ?h)" "map snd rs = map (\<lambda>i. [7, 8] ! i) slots"
    and hits: "list_all2 (\<lambda>(r, i) hit. hit_id hit = snd r \<and> hit_score hit = fst r
          \<and> json_meta_to_dict jlib jmake ([''doc'', ''b''] ! i) = Inr (hit_metadata hit))
        (take (nat 1) (filter (\<lambda>(r, i). filter_accepts jlib ([''doc'', ''b''] ! i) ?w) (zip rs slots))) hits"
    using py_index_search_filtered [OF isort.whole.desc_sorter_axioms wf ctx_new_ok num _ _ json parsed run]
    by auto
  have "hit_id hit = 7" if hit: "hit \<in> set hits" for hit
  proof -
    obtain x where x: "x \<in> set (take (nat 1) (filter (\<lambda>(r, i). filter_accepts jlib ([''doc'', ''b''] ! i) ?w) (zip rs slots)))"
      and x': "case x of (r, i) \<Rightarrow> hit_id hit = snd r \<and> hit_score hit = fst r
          \<and> json_meta_to_dict jlib jmake ([''doc'', ''b''] ! i) = Inr (hit_metadata hit)"
      using list_all2_right [OF hits hit] by (auto simp: case_prod_unfold)
    obtain r i where pair: "x = (r, i)" by (cases x)
    have ri3: "hit_id hit = snd r" using x' by (simp add: pair)
    have "(r, i) \<in> set (take (nat 1) (filter (\<lambda>(r, i). filter_accepts jlib ([''doc'', ''b''] ! i) ?w) (zip rs slots)))"
      using x by (simp add: pair)
    then have "(r, i) \<in> set (filter (\<lambda>(r, i). filter_accepts jlib ([''doc'', ''b''] ! i) ?w) (zip rs slots))"
      by (auto dest: in_set_takeD)
    then have ri: "(r, i) \<in> set (zip rs slots)" "filter_accepts jlib ([''doc'', ''b''] ! i) ?w" by simp_all
    have "\<not> filter_accepts jlib ''b'' ?w" by (simp add: filter_accepts_def jlib_def)
    moreover have "i < 2" using slots(1) set_zip_rightD [OF ri(1)] by (auto simp: live_nodes_def)
    ultimately have "i = 0" using ri(2) by (auto simp: less_2_cases_iff)
    moreover have "snd r = [7, 8] ! i"
      using ri(1) slots(2) by (auto simp: set_zip) (metis length_map nth_map)
    ultimately show ?thesis using ri3 by simp
  qed
  then show ?thesis using run by blast
qed

text \<open>The metadata of a hit is that of the first slot with its id.\<close>

lemma collect_hits_first_slot:
  assumes "hnsw_wf h" and "h_num_vectors h < 2 ^ 32" and "snd ` set raw \<subseteq> set (h_id_map h)"
    and "collect_hits js jm h k wc raw [] = Inr hits" and "hit \<in> set hits"
  shows "json_meta_to_dict js jm (h_metadata h ! first_slot h (hit_id hit)) = Inr (hit_metadata hit)"
proof -
  let ?xs = "take (nat k - length ([] :: py_hit list)) (filter (\<lambda>rs. passes js wc (h_metadata h ! snd rs))
    (map (\<lambda>r. (r, first_slot h (snd r))) raw))"
  have "list_all2 (\<lambda>x hit. hit_at js jm h x = Inr hit) ?xs hits"
    using collect_hits_spec [OF assms(1-4)] by (simp only: mapR_Inr_iff append_Nil) blast
  then obtain x where x: "x \<in> set ?xs" "hit_at js jm h x = Inr hit"
    using assms(5) by (meson list_all2_right)
  have "x \<in> set (map (\<lambda>r. (r, first_slot h (snd r))) raw)"
    using in_set_takeD [OF x(1)] unfolding set_filter by (rule CollectE) (rule conjunct1)
  then obtain r where "x = (r, first_slot h (snd r))" by auto
  with x(2) have "hit_at js jm h (r, first_slot h (snd r)) = Inr hit" by simp
  then show ?thesis by (cases r) (auto simp: hit_at_def bindR_Inr_iff)
qed

text \<open>C38: A hit carries the metadata of the first slot with its id, and is filtered by it, even
  when that slot was deleted and the id inserted again with other metadata.\<close>

theorem py_index_search_stale_metadata:
  assumes "desc_sorter srt" and "hnsw_wf h" and "visit_ok ctx" and "h_num_vectors h < 2 ^ 32"
    and "py_index_search js jm str srt h query k Py_None ctx = Inr (hits, ctx')"
    and "hit \<in> set hits" and "h_id_map h ! i = hit_id hit" and "i < h_num_vectors h"
    and "hit_id hit \<notin> set (take i (h_id_map h))"
  shows "json_meta_to_dict js jm (h_metadata h ! i) = Inr (hit_metadata hit)"
proof -
  obtain rs where search: "hnsw_search srt h (np_buffer query) k ctx = Inr (rs, ctx')"
    and hits: "collect_hits js jm h k None rs [] = Inr hits"
    using assms(5) by (auto simp: py_index_search_def get_ptr_def bindR_Inr_iff split: if_splits)
  have md: "json_meta_to_dict js jm (h_metadata h ! first_slot h (hit_id hit)) = Inr (hit_metadata hit)"
    using collect_hits_first_slot [OF assms(2,4) search_ids(2) [OF assms(1-4) search] hits] assms(6) by simp
  have i: "i < length (h_id_map h)" using assms(2,8) by (simp add: hnsw_wf_def hnsw_sizes_def)
  then have "hit_id hit \<in> set (h_id_map h)" using assms(7) by (metis nth_mem)
  note first = first_slot_props [OF this]
  have "\<not> first_slot h (hit_id hit) < i"
    using first(1,2) assms(9) by (auto simp: in_set_conv_nth)
  moreover have "\<not> i < first_slot h (hit_id hit)" using first(3) assms(7) by blast
  ultimately show ?thesis using md by (metis linorder_neqE_nat)
qed

theorem py_index_search_stale_metadata_witness:
  "\<exists>hit ctx'. py_index_search jlib jmake jstr isort_desc (pair_with [7, 7] [''old'', ''new''] [True, False])
      query_one 1 Py_None ctx_new = Inr ([hit], ctx')
    \<and> hit_metadata hit = [(''_raw'', Py_Str ''old'')]"
proof -
  let ?h = "pair_with [7, 7] [''old'', ''new''] [True, False]"
  have wf: "hnsw_wf ?h" and num: "h_num_vectors ?h < 2 ^ 32" by (simp_all add: pair_with_wf)
  have live: "live_nodes ?h = [1]" by (simp add: live_nodes_def numeral_2_eq_2)
  obtain rs ctx' idxs where search: "hnsw_search isort_desc ?h [f32_one] 1 ctx_new = Inr (rs, ctx')"
    and rs: "rs = map (result_node ?h [f32_one]) idxs" and top: "set idxs \<subseteq> {1}" "length idxs = 1"
    using pair_with_search [of "[7, 7]" "[''old'', ''new'']" "[True, False]" 1]
    by (auto simp: live is_top_k_def result_limit_def)
  have "idxs = [1]" using top by (auto simp: length_Suc_conv)
  then obtain score where raw: "snd ` set rs \<subseteq> set (h_id_map ?h)" "rs = [(score, 7)]"
    by (simp add: rs result_node_def)
  have "\<exists>hit. collect_hits jlib jmake ?h 1 None rs [] = Inr [hit] \<and> hit_id hit = 7"
    using collect_hits_step [OF wf num, of 7 jlib jmake 1 None score "[]" "[]"] raw(2)
    by (auto simp: hit_at_def first_slot_def small_dicts simp del: collect_hits.simps(2))
  then obtain hit where hit: "collect_hits jlib jmake ?h 1 None rs [] = Inr [hit]" "hit_id hit = 7" by blast
  then have run: "py_index_search jlib jmake jstr isort_desc ?h query_one 1 Py_None ctx_new = Inr ([hit], ctx')"
    using search by (simp add: py_index_search_def get_ptr_def query_one_def)
  have "json_meta_to_dict jlib jmake (h_metadata ?h ! 0) = Inr (hit_metadata hit)"
    using py_index_search_stale_metadata [OF isort.whole.desc_sorter_axioms wf ctx_new_ok num run, of hit 0]
      hit(2) by simp
  then have "hit_metadata hit = [(''_raw'', Py_Str ''old'')]" by (simp add: small_dicts)
  then show ?thesis using run by blast
qed

text \<open>A search refuses an array that is not one-dimensional of the size of the index before
  anything else, and an unknown operator of the where clause before it searches; with a where clause
  it multiplies \<open>k\<close> by four in \<open>int\<close>, which is undefined for \<open>k\<close> of \<open>2 ^ 29\<close> on.\<close>

theorem py_index_search_errors:
  assumes "py_to_json jm str where_arg = Inr j" and "where_arg \<noteq> Py_None"
  shows "(np_shape query \<noteq> [h_dim h] \<longrightarrow> py_index_search js jm str srt h query k where_arg ctx
      = Inl (Invalid_Argument (''Expected 1D float32 array of size '' @ decimal (h_dim h))))
    \<and> (np_shape query = [h_dim h] \<longrightarrow> parse_where js j = Inl e
      \<longrightarrow> py_index_search js jm str srt h query k where_arg ctx = Inl e)
    \<and> (np_shape query = [h_dim h] \<longrightarrow> parse_where js j = Inr w \<longrightarrow> 2 ^ 29 \<le> k
      \<longrightarrow> py_index_search js jm str srt h query k where_arg ctx = Inl Undefined_Behaviour)"
proof -
  have "np_shape query = [h_dim h] \<longleftrightarrow> length (np_shape query) = 1 \<and> np_shape query ! 0 = h_dim h"
    by (cases "np_shape query") auto
  then show ?thesis
    using assms by (auto simp: py_index_search_def get_ptr_def guardR_def int_r_def)
qed

theorem py_index_search_errors_witness:
  "py_index_search jlib jmake jstr isort_desc hnsw_pair query_one (2 ^ 29) (Py_Dict []) ctx_new
      = Inl Undefined_Behaviour
    \<and> py_index_search jlib jmake jstr isort_desc hnsw_pair (query_one\<lparr>np_shape := [1, 1]\<rparr>) 1 (Py_Dict []) ctx_new
      = Inl (Invalid_Argument ''Expected 1D float32 array of size 1'')"
proof -
  have json: "py_to_json jmake jstr (Py_Dict []) = Inr (JObj [])" by (simp add: jmake_def)
  have parsed: "parse_where jlib (JObj []) = Inr []" by (simp add: parse_where_def jlib_def)
  have "decimal 1 = ''1''" by code_simp
  then show ?thesis
    using py_index_search_errors [OF json, of query_one hnsw_pair jlib isort_desc "2 ^ 29" ctx_new _ "[]"]
      py_index_search_errors [OF json, of "query_one\<lparr>np_shape := [1, 1]\<rparr>" hnsw_pair jlib isort_desc 1 ctx_new] parsed
    by (simp add: query_one_def)
qed

end
