(* ===== verification/Hnsw_Complete.thy ===== *)
theory Hnsw_Complete
  imports Hnsw_Properties
begin

text \<open>
  Small indexes are exact.  While an index has at most \<open>M + 1\<close> nodes, an insertion links the new
  node to all the others on layer 0 and no list of links is pruned, so layer 0 is a complete
  graph and a search with a beam as wide as the index finds the exact answer.
\<close>

section \<open>Layer 0\<close>

definition complete_below :: "nat \<Rightarrow> 's hnsw \<Rightarrow> bool" where
  "complete_below q h \<longleftrightarrow> (\<forall>i<q. \<forall>j<q. i \<noteq> j \<longrightarrow> j \<in> set (links_at h 0 i))"

lemma complete_reaches:
  assumes "complete_below q h" and "i < q" and "j < q"
  shows "reaches h 0 i j"
  using assms by (cases "i = j") (auto simp: complete_below_def intro: reaches.intros)

lemma complete_below_links:
  "links_at h' 0 = links_at h 0 \<Longrightarrow> complete_below q h' = complete_below q h"
  by (simp add: complete_below_def)

text \<open>The layers above leave it as it is.\<close>
lemma links_at_frame:
  assumes "nb < length (h_graph h)" and "0 < n"
    and "levels = h_graph h ! nb \<or> levels = resize [] m (h_graph h ! nb) \<and> length (h_graph h ! nb) \<le> m"
  shows "links_at (h\<lparr>h_graph := (h_graph h)[nb := levels[n := ls]]\<rparr>) 0 = links_at h 0"
  using assms by (cases "h_graph h ! nb") (auto simp: links_at_def fun_eq_iff nth_list_update resize_def nth_append)

lemma link_back_layer_0:
  assumes "link_back srt q lc nb (h, ctx) = Inr (h', ctx')" and "0 < lc"
  shows "links_at h' 0 = links_at h 0"
proof -
  let ?levels = "if int (length (h_graph h ! nb)) \<le> lc then resize [] (nat (lc + 1)) (h_graph h ! nb) else h_graph h ! nb"
  obtain ls where nb: "nb < length (h_graph h)"
    and h': "h' = h\<lparr>h_graph := (h_graph h)[nb := ?levels[nat lc := ls]]\<rparr>"
    using assms(1) by (auto simp: link_back_def nth_r_def Let_def bindR_Inr_iff split: if_splits)
  show ?thesis
    unfolding h' by (rule links_at_frame [OF nb]) (use assms(2) in auto)
qed

lemma link_backs_layer_0:
  assumes "foldR (link_back srt q lc) nbs (h, ctx) = Inr (h', ctx')" and "0 < lc"
  shows "links_at h' 0 = links_at h 0"
  using assms(1)
proof (induction nbs arbitrary: h ctx)
  case (Cons nb nbs)
  then obtain h2 ctx2 where "link_back srt q lc nb (h, ctx) = Inr (h2, ctx2)"
    "foldR (link_back srt q lc) nbs (h2, ctx2) = Inr (h', ctx')"
    by (auto simp: bindR_Inr_iff)
  then show ?case using Cons.IH link_back_layer_0 [OF _ assms(2)] by metis
qed simp

lemma connect_layer_layer_0:
  assumes "connect_layer srt vec q lc (h, ep, ctx) = Inr (h', ep', ctx')" and "0 < lc"
  shows "links_at h' 0 = links_at h 0"
proof -
  obtain nbs h2 ctx1 where set: "set_links q lc nbs h = Inr h2"
    and backs: "foldR (link_back srt q lc) nbs (h2, ctx1) = Inr (h', ctx')"
    using assms(1) by (auto simp: connect_layer_def Let_def bindR_Inr_iff)
  have "links_at h2 0 = links_at h 0"
    using set links_at_frame [of q h "nat lc" "h_graph h ! q"] assms(2)
    by (auto simp: set_links_def nth_r_def upd_r_def bindR_Inr_iff split: if_splits)
  then show ?thesis using link_backs_layer_0 [OF backs assms(2)] by simp
qed

text \<open>On layer 0 of a small index a link back is added, and nothing is pruned.\<close>

lemma link_back_small:
  assumes inv: "back_inv h1 q 0 ys h" and cfg: "cfg_ok (h_cfg h1)" and small: "int q \<le> cfg_M (h_cfg h1)"
    and q: "length (h_graph h1) = Suc q"
    and nb: "nb < q" "0 < length (h_graph h1 ! nb)" "nb \<notin> set ys"
    and run: "link_back srt q 0 nb (h, ctx) = Inr (h', ctx')"
  shows "links_at h' 0 i = (if i = nb then links_at h 0 i @ [q] else links_at h 0 i)"
proof -
  obtain g where h: "h = h1\<lparr>h_graph := g\<rparr>"
    and g: "shape g = shape (h_graph h1)" "graph_wf (cfg_M (h_cfg h1)) g"
      "\<forall>i<length g. 0 < length (g ! i) \<longrightarrow> q \<in> set (g ! i ! 0) \<longrightarrow> i \<in> set ys"
    using inv unfolding back_inv_def by blast
  have nb': "nb < length g" "0 < length (g ! nb)" and len: "length g = Suc q"
    using nb q shape_length [OF g(1)] shape_levels [OF g(1)] by simp_all
  have "q \<notin> set (g ! nb ! 0)" using g(3) nb' nb(3) by blast
  then have "set (g ! nb ! 0) \<subseteq> {..<q} - {nb}"
    using graph_wfD(3) [OF g(2) nb'] len by (fastforce simp: less_Suc_eq)
  then have "card (set (g ! nb ! 0)) \<le> card ({..<q} - {nb})" by (intro card_mono) auto
  then have "length (g ! nb ! 0) < q"
    using graph_wfD(1) [OF g(2) nb'] nb(1) by (simp add: distinct_card)
  then have short: "\<not> degree_bound (cfg_M (h_cfg h1)) 0 < int (length (g ! nb ! 0 @ [q]))"
    using small by (simp add: degree_bound_def)
  have "h' = h1\<lparr>h_graph := g[nb := (g ! nb)[0 := g ! nb ! 0 @ [q]]]\<rparr>"
    using run nb' short mmax_degree_bound [OF cfg, of 0]
    by (auto simp: link_back_def h nth_r_def Let_def)
  then show ?thesis
    using nb' by (auto simp: links_at_def h nth_list_update)
qed


lemma link_backs_small:
  assumes srt: "desc_sorter srt" and cfg: "cfg_ok (h_cfg h1)" and small: "int q \<le> cfg_M (h_cfg h1)"
    and q: "length (h_graph h1) = Suc q" "0 < length (h_graph h1 ! q)"
    and nbs: "distinct nbs" "set nbs = {..<q}" and levels: "\<forall>i<q. 0 < length (h_graph h1 ! i)"
    and start: "back_inv h1 q 0 [] h" "visit_ok ctx" "set (links_at h 0 q) = {..<q}" "complete_below q h"
    and run: "foldR (link_back srt q 0) nbs (h, ctx) = Inr (h', ctx')"
  shows "complete_below (Suc q) h'"
proof -
  let ?P = "\<lambda>ys (h, ctx). back_inv h1 q 0 ys h \<and> visit_ok ctx \<and> set (links_at h 0 q) = {..<q}
    \<and> complete_below q h \<and> (\<forall>i\<in>set ys. q \<in> set (links_at h 0 i))"
  have "holdsR False (foldR (link_back srt q 0) nbs (h, ctx)) (?P nbs)"
  proof (rule holdsR_foldR_prefix)
    show "?P [] (h, ctx)" using start by simp
  next
    fix ys nb zs and s :: "'a hnsw \<times> 'a visit_ctx"
    assume split: "nbs = ys @ nb # zs" and P: "?P ys s"
    obtain h2 c2 where s: "s = (h2, c2)" by (cases s)
    have nb: "nb < q" "nb \<notin> set ys" using split nbs by auto
    have inv: "holdsR False (link_back srt q (int 0) nb (h2, c2))
        (\<lambda>(h', ctx'). back_inv h1 q 0 (ys @ [nb]) h' \<and> visit_ok ctx')"
      by (rule link_back_spec [OF srt _ cfg]) (use P s nb q levels in auto)
    then have inv: "holdsR False (link_back srt q 0 nb (h2, c2))
        (\<lambda>(h', ctx'). back_inv h1 q 0 (ys @ [nb]) h' \<and> visit_ok ctx')"
      by simp
    show "holdsR False (link_back srt q 0 nb s) (?P (ys @ [nb]))"
      unfolding s
    proof (rule holdsR_mono [OF inv], clarify, intro conjI)
      fix h3 c3
      assume "link_back srt q 0 nb (h2, c2) = Inr (h3, c3)"
      note small_step = link_back_small [OF _ cfg small q(1) nb(1) _ nb(2) this]
      have links: "links_at h3 0 i = (if i = nb then links_at h2 0 i @ [q] else links_at h2 0 i)" for i
        by (rule small_step) (use P s levels nb in auto)
      show "set (links_at h3 0 q) = {..<q}" using links [of q] P s nb by auto
      show "complete_below q h3" using links P s by (auto simp: complete_below_def)
      show "\<forall>i\<in>set (ys @ [nb]). q \<in> set (links_at h3 0 i)" using links P s by auto
    qed
  qed
  then show ?thesis
    using run nbs(2) by (auto simp: complete_below_def less_Suc_eq)
qed

lemma connect_layer_small:
  assumes srt: "desc_sorter srt" and inv: "layer_inv h1 q (Suc 0) h" and ctx: "visit_ok ctx"
    and ep: "entry_inv h1 q (Suc 0) ep" and cfg: "cfg_ok (h_cfg h1)" and small: "int q \<le> cfg_M (h_cfg h1)"
    and q: "length (h_graph h1) = Suc q" "0 < length (h_graph h1 ! q)"
    and levels: "\<forall>i<q. 0 < length (h_graph h1 ! i)"
    and proper: "proper_vectors h1" "new_node h1 q vec" and complete: "complete_below q h"
    and run: "connect_layer srt vec q 0 (h, ep, ctx) = Inr (h', ep', ctx')"
  shows "complete_below (Suc q) h'"
proof -
  let ?ef = "max (cfg_ef_construction (h_cfg h)) (cfg_M (h_cfg h))"
  have hM: "h_cfg h = h_cfg h1" using inv by (auto simp: layer_inv_def)
  have ep': "ep < q" "0 < length (h_graph h1 ! ep)" using ep by (auto simp: entry_inv_def Suc_le_eq)
  obtain out ctx1 nbs h2 where search: "search_layer srt h vec ep ?ef 0 ctx = Inr (out, ctx1)"
    and select: "select_neighbours srt out (cfg_M (h_cfg h)) = Inr nbs"
    and set: "set_links q 0 nbs h = Inr h2"
    and backs: "foldR (link_back srt q 0) nbs (h2, ctx1) = Inr (h', ctx')"
    using run by (auto simp: connect_layer_def Let_def bindR_Inr_iff)
  have "holdsR True (search_layer srt h vec ep ?ef 0 ctx) (\<lambda>(out, ctx').
      visit_ok ctx' \<and> layer_sound h 0 ep ?ef out
      \<and> (True \<longrightarrow> True \<and> layer_best (node_score own_vector h vec) h 0 ep ?ef out))"
    by (rule own.search_layer_inv [OF srt ctx TrueI])
      (use insert_searchable(1) [OF inv ep' q(1) proper] in simp)
  then have ctx1: "visit_ok ctx1" and sound: "layer_sound h 0 ep ?ef out"
    and best: "layer_best (node_score own_vector h vec) h 0 ep ?ef out"
    using search by simp_all
  have "reaches h 0 ep i \<longleftrightarrow> i < q" for i
    using insert_reaches [OF inv ep' q(1), of i] complete_reaches [OF complete ep'(1)] by auto
  then have R: "{i. reaches h 0 ep i} = {..<q}" by auto
  have all: "snd ` set out = {..<q}"
    using layer_exhaustive [OF sound best] small by (simp add: R hM)
  have dist: "distinct (map snd out)" using sound by (simp add: layer_sound_def)
  then have "length out = q" by (metis all card_lessThan distinct_card length_map list.set_map)
  have "holdsR False (select_neighbours srt out (cfg_M (h_cfg h))) (\<lambda>nbs. distinct nbs
      \<and> set nbs \<subseteq> snd ` set out \<and> length nbs = min (nat (cfg_M (h_cfg h))) (length out))"
    by (rule select_neighbours_spec [OF srt _ dist]) simp
  then have nbs: "distinct nbs" "set nbs \<subseteq> {..<q}" "length nbs = q"
    using select small all \<open>length out = q\<close> by (simp_all add: hM)
  then have nbs_all: "set nbs = {..<q}"
    by (intro card_subset_eq) (simp_all add: distinct_card)
  have "okR (set_links q (int 0) nbs h) (back_inv h1 q 0 [])"
    using small nbs levels by (intro set_links_spec [OF inv q]) (auto simp: degree_bound_def)
  then have "back_inv h1 q 0 [] h2" using set by simp
  moreover have links: "links_at h2 0 i = (if i = q then nbs else links_at h 0 i)" for i
    using set by (auto simp: set_links_def nth_r_def upd_r_def bindR_Inr_iff links_at_def nth_list_update split: if_splits)
  then have "set (links_at h2 0 q) = {..<q}" "complete_below q h2"
    using nbs_all complete by (auto simp: complete_below_def)
  ultimately show ?thesis
    using link_backs_small [OF srt cfg small q nbs(1) nbs_all levels _ ctx1 _ _ backs] by blast
qed

section \<open>Insertion\<close>

lemma hnsw_insert_small:
  fixes h :: "'s hnsw"
  assumes srt: "desc_sorter srt" and wf: "hnsw_wf h" and ctx: "visit_ok ctx"
    and num: "h_num_vectors h < 2 ^ 32" and small: "int (h_num_vectors h) \<le> cfg_M (h_cfg h)"
    and level: "random_layer logf val (h_mL h) = Inr level" "0 \<le> level"
    and vec: "h_dim h \<le> length vec" and own: "h_vec_accessor h = None"
    and nn: "no_nan_scores (h_dim h) (take (h_dim h) vec # stored_vectors h)"
    and complete: "complete_below (h_num_vectors h) h"
    and run: "hnsw_insert srt logf val i vec meta (h, ctx) = Inr (h', ctx')"
  shows "complete_below (h_num_vectors h') h'"
proof (cases "h_num_vectors h = 0")
  case True
  then show ?thesis
    using hnsw_insert_spec [OF srt wf ctx num level, of False vec i meta] run
    by (simp add: inserted_def complete_below_def)
next
  case False
  let ?q = "h_num_vectors h"
  have sizes: "hnsw_sizes h" using wf by (simp add: hnsw_wf_def)
  have q: "?q mod 2 ^ 32 = ?q" using num by simp
  have "holdsR False (new_slot i vec meta level h) (\<lambda>h1. h_dim h \<le> length vec \<and> inserted i vec meta h h1
      \<and> hnsw_sizes h1 \<and> h_graph h1 = h_graph h @ [replicate (nat (level + 1)) []]
      \<and> h_max_layer h1 = h_max_layer h \<and> h_entry_point h1 = h_entry_point h)"
    using new_slot_spec [OF sizes level(2), of False i vec meta] by simp
  then obtain h1 where slot: "new_slot i vec meta level h = Inr h1" and ins: "inserted i vec meta h h1"
    and sizes1: "hnsw_sizes h1" and g1: "h_graph h1 = h_graph h @ [replicate (nat (level + 1)) []]"
    and same: "h_max_layer h1 = h_max_layer h" "h_entry_point h1 = h_entry_point h"
    using run level(1) by (auto simp: hnsw_insert_def Let_def bindR_Inr_iff)
  note start = inserted_start [OF wf ins vec g1]
  obtain ep1 ctx1 h2 ep2 where loops: "foldR (descend srt h1 vec) (rev [level + 1..h_max_layer h]) (h_entry_point h, ctx)
        = Inr (ep1, ctx1)"
      "foldR (connect_layer srt vec ?q) (rev [0..min level (h_max_layer h)]) (h1, ep1, ctx1) = Inr (h2, ep2, ctx')"
    and h': "h_graph h' = h_graph h2" "h_num_vectors h' = h_num_vectors h2"
    using run False q slot level(1) same
    by (auto simp: hnsw_insert_def Let_def bindR_Inr_iff split: if_splits)
  have h1: "h_cfg h1 = h_cfg h" "h_num_vectors h1 = Suc ?q" "h_dim h1 = h_dim h" "h_vec_accessor h1 = h_vec_accessor h"
    using ins by (simp_all add: inserted_def)
  have proper: "proper_vectors h1"
    using nn proper_vectors_stored [OF sizes1] stored_inserted [OF sizes ins vec] h1 own
    by (simp add: no_nan_scores_def)
  have levels: "\<forall>j<?q. 0 < length (h_graph h1 ! j)"
    using wf by (auto simp: hnsw_wf_def levels_wf_def hnsw_sizes_def g1 nth_append Suc_le_eq)
  have old: "complete_below ?q h1"
    using complete sizes
    by (auto simp: complete_below_def links_at_def g1 nth_append hnsw_sizes_def split: if_splits)
  let ?R = "\<lambda>(k :: nat) (h2 :: 's hnsw). if k = 0 then complete_below (Suc ?q) h2 else complete_below ?q h2"
  have len_q: "int (length (h_graph h1 ! ?q)) = level + 1" using start(4) level(2) by simp
  have "holdsR True (bindR (foldR (descend srt h1 vec) (rev [level + 1..h_max_layer h]) (h_entry_point h, ctx)) (\<lambda>(ep, ctx).
      foldR (connect_layer srt vec ?q) (rev [0..min level (h_max_layer h)]) (h1, ep, ctx)))
    (\<lambda>(h, ep, ctx). layer_inv h1 ?q 0 h \<and> visit_ok ctx \<and> ?R 0 h)"
  proof (rule insert_loops [where R = ?R, OF srt _ start(1) start(2) start(3) len_q level(2) _ _ _ ctx])
    fix k h2 ep c h3 ep3 c3
    assume inv: "layer_inv h1 ?q (Suc k) h2" "entry_inv h1 ?q (Suc k) ep" "visit_ok c"
      and R: "?R (Suc k) h2" and step: "connect_layer srt vec ?q (int k) (h2, ep, c) = Inr (h3, ep3, c3)"
    show "?R k h3"
    proof (cases "k = 0")
      case True
      then show ?thesis
        using connect_layer_small [OF srt _ inv(3) _ _ _ start(3) _ levels proper start(5), of h2 ep h3 ep3 c3]
          inv R step wf small start(4) level(2) h1 by (simp add: hnsw_wf_def)
    next
      case False
      then show ?thesis
        using R complete_below_links [OF connect_layer_layer_0 [OF step], of ?q] by simp
    qed
  qed (use wf h1 start(5) start(6) [OF False] proper old in \<open>simp_all add: hnsw_wf_def\<close>)
  then have "complete_below (Suc ?q) h2 \<and> layer_inv h1 ?q 0 h2" using loops by simp
  then show ?thesis using h' h1(2) by (auto simp: complete_below_def links_at_def layer_inv_def)
qed


section \<open>Building an index\<close>

text \<open>The arguments of one insertion, with the draw of its level.\<close>

record build_item =
  bi_draw :: f32
  bi_id :: "64 word"
  bi_vec :: "f32 list"
  bi_meta :: string

definition insert_item ::
    "(scored list \<Rightarrow> scored list) \<Rightarrow> (f32 \<Rightarrow> f32) \<Rightarrow> build_item \<Rightarrow> 's hnsw \<times> 's visit_ctx
      \<Rightarrow> ('s hnsw \<times> 's visit_ctx) res" where
  "insert_item srt logf e = hnsw_insert srt logf (bi_draw e) (bi_id e) (bi_vec e) (bi_meta e)"

definition build ::
    "(scored list \<Rightarrow> scored list) \<Rightarrow> (f32 \<Rightarrow> f32) \<Rightarrow> nat \<Rightarrow> hnsw_config \<Rightarrow> build_item list
      \<Rightarrow> 's visit_ctx \<Rightarrow> ('s hnsw \<times> 's visit_ctx) res" where
  "build srt logf n cfg es ctx = foldR (insert_item srt logf) es (hnsw_new logf n cfg, ctx)"

text \<open>Every buffer holds a vector, every draw gives a level, no similarity is a not-a-number.\<close>

definition items_ok :: "(f32 \<Rightarrow> f32) \<Rightarrow> nat \<Rightarrow> hnsw_config \<Rightarrow> build_item list \<Rightarrow> bool" where
  "items_ok logf n cfg es \<longleftrightarrow>
     (\<forall>e\<in>set es. n \<le> length (bi_vec e) \<and> okR (random_layer logf (bi_draw e)
        (f32_div f32_one (logf (f32_of_int (cfg_M cfg))))) (\<lambda>level. 0 \<le> level))
     \<and> no_nan_scores n (map (take n \<circ> bi_vec) es)"

definition built :: "(f32 \<Rightarrow> f32) \<Rightarrow> nat \<Rightarrow> hnsw_config \<Rightarrow> build_item list \<Rightarrow> 's hnsw \<Rightarrow> bool" where
  "built logf n cfg es h \<longleftrightarrow>
     hnsw_wf h \<and> h_dim h = n \<and> h_cfg h = cfg \<and> h_vec_accessor h = None
     \<and> h_mL h = f32_div f32_one (logf (f32_of_int (cfg_M cfg)))
     \<and> h_num_vectors h = length es \<and> h_id_map h = map bi_id es
     \<and> h_tombstone h = replicate (length es) False
     \<and> stored_vectors h = map (take n \<circ> bi_vec) es"

lemma built_new: "cfg_ok cfg \<Longrightarrow> built logf n cfg [] (hnsw_new logf n cfg)"
  by (simp add: built_def hnsw_wf_new) (simp add: hnsw_new_def stored_vectors_def)

lemma insert_item_spec:
  assumes srt: "desc_sorter srt" and built: "built logf n cfg es h" and ctx: "visit_ok ctx"
    and ok: "items_ok logf n cfg (es @ [e])" and num: "length es < 2 ^ 32"
  shows "okR (insert_item srt logf e (h, ctx)) (\<lambda>(h', ctx').
    built logf n cfg (es @ [e]) h' \<and> visit_ok ctx'
    \<and> (int (length es) \<le> cfg_M cfg \<longrightarrow> complete_below (length es) h \<longrightarrow> complete_below (Suc (length es)) h'))"
proof -
  have wf: "hnsw_wf h" and vec: "h_dim h \<le> length (bi_vec e)" and own: "h_vec_accessor h = None"
    and h: "h_num_vectors h = length es" "h_dim h = n" "h_cfg h = cfg"
    using built ok by (simp_all add: built_def items_ok_def)
  obtain level where level: "random_layer logf (bi_draw e) (h_mL h) = Inr level" "0 \<le> level"
    using built ok by (auto simp: built_def items_ok_def okR_iff)
  have nn: "no_nan_scores (h_dim h) (take (h_dim h) (bi_vec e) # stored_vectors h)"
    using built ok by (simp add: built_def items_ok_def no_nan_scores_def)
  have num': "h_num_vectors h < 2 ^ 32" using num h by simp
  obtain h' ctx' where run: "insert_item srt logf e (h, ctx) = Inr (h', ctx')" and wf': "hnsw_wf h'"
    and ins: "inserted (bi_id e) (bi_vec e) (bi_meta e) h h'" and ctx': "visit_ok ctx'"
    using hnsw_insert_spec [OF srt wf ctx num' level, of True "bi_vec e" "bi_id e" "bi_meta e"] vec own nn
    by (auto simp: insert_item_def holdsR_total okR_iff)
  have "built logf n cfg (es @ [e]) h'"
    using built wf' ins stored_inserted [OF _ ins vec] wf
    by (simp add: built_def inserted_def hnsw_wf_def replicate_append_same)
  moreover have "complete_below (Suc (length es)) h'"
    if "int (length es) \<le> cfg_M cfg" "complete_below (length es) h"
    using hnsw_insert_small [OF srt wf ctx num' _ level vec own nn _ run [unfolded insert_item_def]] that h ins
    by (simp add: inserted_def)
  ultimately show ?thesis using run ctx' by simp
qed

lemma items_ok_prefix: "items_ok logf n cfg (xs @ ys) \<Longrightarrow> items_ok logf n cfg xs"
  by (auto simp: items_ok_def no_nan_scores_def)

lemma build_spec:
  assumes srt: "desc_sorter srt" and cfg: "cfg_ok cfg" and ctx: "visit_ok ctx"
    and ok: "items_ok logf n cfg es" and num: "length es \<le> 2 ^ 32"
  shows "okR (build srt logf n cfg es ctx) (\<lambda>(h, ctx'). built logf n cfg es h \<and> visit_ok ctx'
    \<and> (int (length es) \<le> cfg_M cfg + 1 \<longrightarrow> complete_below (length es) h))"
proof -
  let ?P = "\<lambda>ys (h, ctx'). built logf n cfg ys h \<and> visit_ok ctx'
    \<and> (int (length ys) \<le> cfg_M cfg + 1 \<longrightarrow> complete_below (length ys) h)"
  have "okR (foldR (insert_item srt logf) es (hnsw_new logf n cfg, ctx)) (?P es)"
  proof (rule okR_foldR_prefix)
    show "?P [] (hnsw_new logf n cfg, ctx)" using built_new [OF cfg] ctx by (simp add: complete_below_def)
  next
    fix ys e zs and s :: "'a hnsw \<times> 'a visit_ctx"
    assume split: "es = ys @ e # zs" and P: "?P ys s"
    obtain h c where s: "s = (h, c)" by (cases s)
    have "items_ok logf n cfg (ys @ [e])" using ok items_ok_prefix [of logf n cfg "ys @ [e]" zs] split by simp
    moreover have "length ys < 2 ^ 32" using num split by simp
    ultimately have "okR (insert_item srt logf e (h, c)) (\<lambda>(h', ctx').
        built logf n cfg (ys @ [e]) h' \<and> visit_ok ctx'
        \<and> (int (length ys) \<le> cfg_M cfg \<longrightarrow> complete_below (length ys) h \<longrightarrow> complete_below (Suc (length ys)) h'))"
      using P s by (intro insert_item_spec [OF srt]) simp_all
    then show "okR (insert_item srt logf e s) (?P (ys @ [e]))"
      unfolding s by (rule okR_mono) (use P s in auto)
  qed
  then show ?thesis by (simp add: build_def)
qed

section \<open>Search\<close>

text \<open>The beam may be changed after the index is built.\<close>

lemma built_own_vector:
  assumes "built logf n cfg es h" and "i < length es"
  shows "own_vector h i = take n (bi_vec (es ! i))"
proof -
  have "stored_vectors h ! i = own_vector h i" using assms by (simp add: built_def stored_vectors_def)
  then show ?thesis using assms by (simp add: built_def)
qed

lemma set_ef_search_fields [simp]:
  "h_dim (set_ef_search ef h) = h_dim h" "h_num_vectors (set_ef_search ef h) = h_num_vectors h"
  "h_graph (set_ef_search ef h) = h_graph h" "h_id_map (set_ef_search ef h) = h_id_map h"
  "h_tombstone (set_ef_search ef h) = h_tombstone h" "h_raw_vectors (set_ef_search ef h) = h_raw_vectors h"
  "h_vec_accessor (set_ef_search ef h) = h_vec_accessor h" "cfg_ef_search (h_cfg (set_ef_search ef h)) = ef"
  "own_vector (set_ef_search ef h) = own_vector h" "links_at (set_ef_search ef h) = links_at h"
  by (simp_all add: set_ef_search_def own_vector_def links_at_def fun_eq_iff)

lemma set_ef_search_wf: "hnsw_wf h \<Longrightarrow> hnsw_wf (set_ef_search ef h)"
proof -
  have "levels_wf (set_ef_search ef h) = levels_wf h" "hnsw_sizes (set_ef_search ef h) = hnsw_sizes h"
    "cfg_M (h_cfg (set_ef_search ef h)) = cfg_M (h_cfg h)"
    by (simp_all add: levels_wf_def hnsw_sizes_def set_ef_search_def)
  then show "hnsw_wf h \<Longrightarrow> ?thesis" by (simp add: hnsw_wf_def cfg_ok_def)
qed

definition item_score :: "nat \<Rightarrow> f32 list \<Rightarrow> build_item list \<Rightarrow> nat \<Rightarrow> f32" where
  "item_score n query es i = score_of n query (take n (bi_vec (es ! i)))"

lemma small_search:
  assumes srt: "desc_sorter srt" and built: "built logf n cfg es h" and complete: "complete_below (length es) h"
    and ctx: "visit_ok ctx" and num: "length es < 2 ^ 32" and ef: "int (length es) \<le> ef"
    and query: "n \<le> length query" and nn: "\<forall>i<length es. \<not> is_nan (item_score n query es i)"
  shows "\<exists>rs ctx' idxs. hnsw_search srt (set_ef_search ef h) query k ctx = Inr (rs, ctx') \<and> visit_ok ctx'
    \<and> rs = map (\<lambda>i. (item_score n query es i, bi_id (es ! i))) idxs
    \<and> is_top_k (item_score n query es) [0..<length es] (result_limit k (length es)) idxs"
proof -
  let ?h = "set_ef_search ef h"
  have h: "h_num_vectors h = length es" "h_dim h = n" "h_vec_accessor h = None"
    "h_id_map h = map bi_id es" "h_tombstone h = replicate (length es) False"
    using built by (simp_all add: built_def)
  have wf: "hnsw_wf ?h" using built set_ef_search_wf [of h ef] by (simp add: built_def)
  have score: "node_score own_vector ?h query i = item_score n query es i" if "i < length es" for i
    using that built_own_vector [OF built] h by (simp add: node_score_def item_score_def)
  have q: "query_ok ?h query" using query nn score h by (simp add: query_ok_def)
  have "complete_below (length es) ?h"
    using complete complete_below_links [of ?h h] by simp
  then have "\<forall>i<h_num_vectors ?h. \<forall>j<h_num_vectors ?h. reaches ?h 0 i j"
    using complete_reaches [of "length es" ?h] h by simp
  then obtain rs ctx' idxs where run: "hnsw_search srt ?h query k ctx = Inr (rs, ctx')"
    and rs: "rs = map (result_node ?h query) idxs"
    and top: "is_top_k (node_score own_vector ?h query) (live_nodes ?h) (result_limit k (length es)) idxs"
    using exhaustive_search [OF srt wf ctx _ q, of k] num ef h by auto
  have "visit_ok ctx'"
    using hnsw_search_spec [OF srt wf ctx, of False query k] num h run by simp
  have live: "live_nodes ?h = [0..<length es]" using h by (simp add: live_nodes_def filter_id_conv)
  have idxs: "i < length es" if "i \<in> set idxs" for i
    using top that unfolding is_top_k_def live by auto
  have "rs = map (\<lambda>i. (item_score n query es i, bi_id (es ! i))) idxs"
    unfolding rs by (rule map_cong [OF refl]) (use idxs score h in \<open>simp add: result_node_def\<close>)
  moreover have "is_top_k (item_score n query es) [0..<length es] (result_limit k (length es)) idxs"
    using top score idxs unfolding is_top_k_def live
    by (auto simp: sorted_wrt_iff_nth_less)
  ultimately show ?thesis using run \<open>visit_ok ctx'\<close> by blast
qed

section \<open>Properties\<close>

text \<open>C3: Inserting at most \<open>M + 1\<close> vectors into a new index, with any ids, metadata and levels,
  always succeeds, and a search with \<open>ef_search\<close> at least their number is then exact, with no
  assumption on the graph: it returns the \<open>k\<close> best of the vectors with their cosine similarities
  and ids, best first.\<close>

theorem hnsw_small_exact:
  assumes "desc_sorter srt" and "cfg_ok cfg" and "visit_ok ctx" and "items_ok logf n cfg es"
    and "int (length es) \<le> cfg_M cfg + 1" and "int (length es) \<le> ef" and "n \<le> length query"
    and "\<forall>i<length es. \<not> is_nan (item_score n query es i)"
  shows "\<exists>h ctx1 rs ctx2 idxs. build srt logf n cfg es ctx = Inr (h, ctx1)
    \<and> hnsw_search srt (set_ef_search ef h) query k ctx1 = Inr (rs, ctx2)
    \<and> rs = map (\<lambda>i. (item_score n query es i, bi_id (es ! i))) idxs
    \<and> is_top_k (item_score n query es) [0..<length es] (result_limit k (length es)) idxs"
proof -
  have num: "length es < 2 ^ 32" using assms(2,5) by (simp add: cfg_ok_def)
  then obtain h ctx1 where "build srt logf n cfg es ctx = Inr (h, ctx1)" "built logf n cfg es h"
    "visit_ok ctx1" "complete_below (length es) h"
    using build_spec [OF assms(1-4)] assms(5) by (auto simp: okR_iff)
  then show ?thesis using small_search [OF assms(1) _ _ _ num assms(6-8), of logf cfg h ctx1 k] by blast
qed

definition pair_items :: "build_item list" where
  "pair_items =
     [\<lparr>bi_draw = F32 0x3F000000, bi_id = 7, bi_vec = [- f32_one], bi_meta = ''a''\<rparr>,
      \<lparr>bi_draw = F32 0x3F000000, bi_id = 8, bi_vec = [f32_one], bi_meta = ''b''\<rparr>]"

lemma pair_items_ok: "items_ok log_two 1 cfg_small pair_items"
  using level_two unit_scores
  by (simp add: items_ok_def pair_items_def cfg_small_def no_nan_scores_def unit_similarities)

theorem hnsw_small_exact_witness:
  "\<exists>h ctx1 ctx2. build isort_desc log_two 1 cfg_small pair_items ctx_new = Inr (h, ctx1)
    \<and> hnsw_search isort_desc (set_ef_search 5 h) [f32_one] 1 ctx1 = Inr ([(f32_one, 8)], ctx2)"
proof -
  have len: "length pair_items = 2" by (simp add: pair_items_def)
  have sc: "item_score 1 [f32_one] pair_items 0 = - f32_one" "item_score 1 [f32_one] pair_items 1 = f32_one"
    using unit_scores by (simp_all add: item_score_def pair_items_def)
  then have nn: "\<forall>i<length pair_items. \<not> is_nan (item_score 1 [f32_one] pair_items i)"
    using unit_scores by (simp add: len all_less_2 unit_similarities)
  obtain h ctx1 rs ctx2 idxs where run: "build isort_desc log_two 1 cfg_small pair_items ctx_new = Inr (h, ctx1)"
      "hnsw_search isort_desc (set_ef_search 5 h) [f32_one] 1 ctx1 = Inr (rs, ctx2)"
    and rs: "rs = map (\<lambda>i. (item_score 1 [f32_one] pair_items i, bi_id (pair_items ! i))) idxs"
    and top: "is_top_k (item_score 1 [f32_one] pair_items) [0..<length pair_items] (result_limit 1 (length pair_items)) idxs"
    using hnsw_small_exact [OF isort.whole.desc_sorter_axioms _ ctx_new_ok pair_items_ok _ _ _ nn, of 5 1]
    by (auto simp: len cfg_ok_def cfg_small_def)
  have "length idxs = 1" "set idxs \<subseteq> {0, 1}"
    using top by (auto simp: is_top_k_def len result_limit_def)
  then obtain i where i: "idxs = [i]" "i = 0 \<or> i = 1" by (auto simp: length_Suc_conv)
  have "\<forall>i\<in>set idxs. \<forall>j\<in>{0..<2} - set idxs.
      \<not> item_score 1 [f32_one] pair_items i < item_score 1 [f32_one] pair_items j"
    using top unfolding is_top_k_def len set_upt by blast
  then have "\<not> - f32_one < f32_one \<or> i \<noteq> 0" using i(1) sc by force
  moreover have "- f32_one < f32_one" by code_simp
  ultimately have "i = 1" using i(2) by blast
  then have "rs = [(f32_one, 8)]" using sc by (simp add: rs i(1) pair_items_def)
  then show ?thesis using run by blast
qed

end
