(* ===== verification/Python_Metadata.thy ===== *)
theory Python_Metadata
  imports Python_Bindings Hnsw_Complete
begin

text \<open>
  The way of metadata through the Python module: \<open>insert\<close> stores a dictionary as the text of a
  JSON object, and \<open>search\<close> reads the text back into a dictionary.
\<close>

section \<open>What is relied on of the JSON library\<close>

text \<open>A value that is neither a string nor a number nor a truth value.\<close>

definition json_plain :: "'j json_lib \<Rightarrow> 'j json_make \<Rightarrow> 'j \<Rightarrow> bool" where
  "json_plain js jm j \<longleftrightarrow>
     \<not> js_is_string js j \<and> \<not> jm_is_integer jm j \<and> \<not> jm_is_float jm j \<and> \<not> jm_is_bool jm j"

text \<open>
  Values are of the kind they were made of and give back what they were made of, integers within the
  64 bits of the library; a push keeps an array an array, an assignment keeps an object an object,
  which has one item for each key, the one assigned last.
\<close>

definition json_values :: "'j json_lib \<Rightarrow> 'j json_make \<Rightarrow> bool" where
  "json_values js jm \<longleftrightarrow>
     (\<forall>s. js_is_string js (jm_string jm s) \<and> js_string js (jm_string jm s) = s)
     \<and> (\<forall>n. - (2 ^ 63) \<le> n \<and> n < 2 ^ 63 \<longrightarrow> \<not> js_is_string js (jm_int jm n)
          \<and> jm_is_integer jm (jm_int jm n) \<and> jm_get_int jm (jm_int jm n) = n)
     \<and> (\<forall>x. \<not> js_is_string js (jm_double jm x) \<and> \<not> jm_is_integer jm (jm_double jm x)
          \<and> jm_is_float jm (jm_double jm x) \<and> js_double js (jm_double jm x) = x)
     \<and> (\<forall>b. \<not> js_is_string js (jm_bool jm b) \<and> \<not> jm_is_integer jm (jm_bool jm b)
          \<and> \<not> jm_is_float jm (jm_bool jm b) \<and> jm_is_bool jm (jm_bool jm b) \<and> jm_get_bool jm (jm_bool jm b) = b)
     \<and> json_plain js jm (jm_null jm)
     \<and> js_is_array js (jm_array jm) \<and> (\<forall>a. js_is_array js a \<longrightarrow> json_plain js jm a)
     \<and> (\<forall>a j. js_is_array js a \<longrightarrow> js_is_array js (jm_push_back jm a j))
     \<and> js_is_object js (jm_object jm) \<and> (\<forall>a. js_is_object js a \<longrightarrow> json_plain js jm a)
     \<and> js_items js (jm_object jm) = []
     \<and> (\<forall>a k j. js_is_object js a \<longrightarrow> js_is_object js (jm_assign jm a k j)
          \<and> map_of (js_items js (jm_assign jm a k j)) = (map_of (js_items js a))(k \<mapsto> j)
          \<and> (distinct (map fst (js_items js a)) \<longrightarrow> distinct (map fst (js_items js (jm_assign jm a k j)))))"

lemma json_valuesD:
  assumes "json_values js jm"
  shows "js_is_string js (jm_string jm s)" "js_string js (jm_string jm s) = s"
    and "\<lbrakk>- (2 ^ 63) \<le> n; n < 2 ^ 63\<rbrakk> \<Longrightarrow> \<not> js_is_string js (jm_int jm n)"
      "\<lbrakk>- (2 ^ 63) \<le> n; n < 2 ^ 63\<rbrakk> \<Longrightarrow> jm_is_integer jm (jm_int jm n)"
      "\<lbrakk>- (2 ^ 63) \<le> n; n < 2 ^ 63\<rbrakk> \<Longrightarrow> jm_get_int jm (jm_int jm n) = n"
    and "\<not> js_is_string js (jm_double jm x)" "\<not> jm_is_integer jm (jm_double jm x)"
      "jm_is_float jm (jm_double jm x)" "js_double js (jm_double jm x) = x"
    and "\<not> js_is_string js (jm_bool jm b)" "\<not> jm_is_integer jm (jm_bool jm b)"
      "\<not> jm_is_float jm (jm_bool jm b)" "jm_is_bool jm (jm_bool jm b)" "jm_get_bool jm (jm_bool jm b) = b"
    and "json_plain js jm (jm_null jm)" "js_is_array js (jm_array jm)" "js_is_object js (jm_object jm)"
    and "js_is_array js a \<Longrightarrow> json_plain js jm a" "js_is_object js a \<Longrightarrow> json_plain js jm a"
    and "js_is_array js a \<Longrightarrow> js_is_array js (jm_push_back jm a j)"
    and "js_items js (jm_object jm) = []"
    and "js_is_object js a \<Longrightarrow> js_is_object js (jm_assign jm a k j)"
    and "js_is_object js a \<Longrightarrow> map_of (js_items js (jm_assign jm a k j)) = (map_of (js_items js a))(k \<mapsto> j)"
    and "js_is_object js a \<Longrightarrow> distinct (map fst (js_items js a))
      \<Longrightarrow> distinct (map fst (js_items js (jm_assign jm a k j)))"
  using assms by (simp_all add: json_values_def)

text \<open>
  A value \<open>x\<close> and what is read back of its text: strings, integers, finite floats and truth values
  come back as such with their value.  Everything else comes back as something that is none of these
  and prints the same.  This is also so for a float that is not finite, which is written as \<open>null\<close>.
\<close>

definition reads_back :: "'j json_lib \<Rightarrow> 'j json_make \<Rightarrow> 'j \<Rightarrow> 'j \<Rightarrow> bool" where
  "reads_back js jm x x' \<longleftrightarrow>
     (if js_is_string js x then js_is_string js x' \<and> js_string js x' = js_string js x
      else if jm_is_integer jm x then
        \<not> js_is_string js x' \<and> jm_is_integer jm x' \<and> jm_get_int jm x' = jm_get_int jm x
      else if jm_is_float jm x \<and> fv_finite (js_double js x) then
        \<not> js_is_string js x' \<and> \<not> jm_is_integer jm x' \<and> jm_is_float jm x' \<and> js_double js x' = js_double js x
      else if \<not> jm_is_float jm x \<and> jm_is_bool jm x then
        \<not> js_is_string js x' \<and> \<not> jm_is_integer jm x' \<and> \<not> jm_is_float jm x'
        \<and> jm_is_bool jm x' \<and> jm_get_bool jm x' = jm_get_bool jm x
      else json_plain js jm x' \<and> js_dump js x' = js_dump js x)"

text \<open>
  Printing and parsing.  Printing may throw, and does on a string that is not UTF-8, also when it is
  part of what is printed.  The text of an object that prints parses to an object with the same keys
  whose values are those printed, read back.
\<close>

definition json_text :: "'j json_lib \<Rightarrow> 'j json_make \<Rightarrow> bool" where
  "json_text js jm \<longleftrightarrow>
     js_dump js (jm_null jm) = Inr ''null''
     \<and> (\<forall>x. \<not> fv_finite x \<longrightarrow> js_dump js (jm_double jm x) = Inr ''null'')
     \<and> (\<forall>j t. js_dump js j = Inr t \<longrightarrow> utf8_valid t \<and> (js_is_string js j \<longrightarrow> utf8_valid (js_string js j)))
     \<and> (\<forall>j t. js_is_object js j \<longrightarrow> js_dump js j = Inr t \<longrightarrow>
          (\<forall>(k, x)\<in>set (js_items js j). utf8_valid k \<and> prints js x))
     \<and> (\<forall>j t. js_is_object js j \<longrightarrow> distinct (map fst (js_items js j)) \<longrightarrow> js_dump js j = Inr t \<longrightarrow>
          (\<exists>j'. js_parse js t = Some j' \<and> distinct (map fst (js_items js j'))
             \<and> fst ` set (js_items js j') = fst ` set (js_items js j)
             \<and> (\<forall>(k, x)\<in>set (js_items js j). \<exists>x'. map_of (js_items js j') k = Some x' \<and> reads_back js jm x x')))"

lemma json_textD:
  assumes "json_text js jm"
  shows "js_dump js (jm_null jm) = Inr ''null''"
    and "\<not> fv_finite d \<Longrightarrow> js_dump js (jm_double jm d) = Inr ''null''"
    and "js_dump js j = Inr t \<Longrightarrow> utf8_valid t"
    and "js_dump js j = Inr t \<Longrightarrow> js_is_string js j \<Longrightarrow> utf8_valid (js_string js j)"
    and "js_is_object js j \<Longrightarrow> js_dump js j = Inr t \<Longrightarrow> (k, x) \<in> set (js_items js j) \<Longrightarrow> utf8_valid k \<and> prints js x"
    and "js_is_object js j \<Longrightarrow> distinct (map fst (js_items js j)) \<Longrightarrow> js_dump js j = Inr t \<Longrightarrow>
      \<exists>j'. js_parse js t = Some j' \<and> distinct (map fst (js_items js j'))
        \<and> fst ` set (js_items js j') = fst ` set (js_items js j)
        \<and> (\<forall>(k, x)\<in>set (js_items js j). \<exists>x'. map_of (js_items js j') k = Some x' \<and> reads_back js jm x x')"
  using assms by (auto simp: json_text_def)

section \<open>Conversion of the parts\<close>

lemma list_to_json_array:
  "json_values js jm \<Longrightarrow> js_is_array js a \<Longrightarrow> py_list_to_json jm str items a = Inr j \<Longrightarrow> js_is_array js j"
  by (induction items arbitrary: a) (auto simp: bindR_Inr_iff intro: json_valuesD(20))

lemma dict_to_json_object:
  "json_values js jm \<Longrightarrow> js_is_object js a \<Longrightarrow> py_dict_to_json jm str kvs a = Inr j \<Longrightarrow> js_is_object js j"
proof (induction kvs arbitrary: a)
  case (Cons kv kvs)
  then obtain x where "py_dict_to_json jm str kvs (jm_assign jm a (str (fst kv)) x) = Inr j"
    by (cases kv) (auto simp: bindR_Inr_iff)
  then show ?case using Cons.IH json_valuesD(22) [OF Cons.prems(1,2)] Cons.prems(1) by blast
qed simp

text \<open>The items of the object made from a dictionary.\<close>

lemma dict_to_json_items:
  assumes "json_values js jm" and "js_is_object js a" and "distinct (map fst (js_items js a))"
    and "py_dict_to_json jm str kvs a = Inr j" and "distinct (map (\<lambda>kv. str (fst kv)) kvs)"
  shows "distinct (map fst (js_items js j))
    \<and> (\<forall>(k, v)\<in>set kvs. \<exists>x. py_to_json jm str v = Inr x \<and> map_of (js_items js j) (str k) = Some x)
    \<and> (\<forall>k. k \<notin> (\<lambda>kv. str (fst kv)) ` set kvs \<longrightarrow> map_of (js_items js j) k = map_of (js_items js a) k)"
  using assms(2-5)
proof (induction kvs arbitrary: a)
  case (Cons kv kvs)
  obtain k v where kv: "kv = (k, v)" by (cases kv)
  obtain x where x: "py_to_json jm str v = Inr x"
    and rest: "py_dict_to_json jm str kvs (jm_assign jm a (str k) x) = Inr j"
    using Cons.prems(3) by (auto simp: kv bindR_Inr_iff)
  note laws = json_valuesD(22-24) [OF assms(1) Cons.prems(1), of "str k" x]
  have IH: "distinct (map fst (js_items js j))"
    "\<forall>(k, v)\<in>set kvs. \<exists>x. py_to_json jm str v = Inr x \<and> map_of (js_items js j) (str k) = Some x"
    "\<forall>k'. k' \<notin> (\<lambda>kv. str (fst kv)) ` set kvs \<longrightarrow>
      map_of (js_items js j) k' = map_of (js_items js (jm_assign jm a (str k) x)) k'"
    using Cons.IH [OF laws(1) laws(3) [OF Cons.prems(2)] rest] Cons.prems(4) by auto
  have "str k \<notin> (\<lambda>kv. str (fst kv)) ` set kvs" using Cons.prems(4) by (auto simp: kv)
  then have "map_of (js_items js j) (str k) = Some x" using IH(3) laws(2) by simp
  then show ?case using IH x laws(2) by (auto simp: kv)
qed simp

text \<open>
  How a value comes back: truth values, integers, finite floats and strings as they are; \<open>None\<close> and
  floats that are not finite as the string \<open>null\<close>, lists and dictionaries as the text of their JSON
  value.
\<close>

definition comes_back :: "'j json_lib \<Rightarrow> 'j json_make \<Rightarrow> (py_obj \<Rightarrow> string) \<Rightarrow> py_obj \<Rightarrow> py_obj \<Rightarrow> bool" where
  "comes_back js jm str v w \<longleftrightarrow>
     (case v of
        Py_None \<Rightarrow> w = Py_Str ''null''
      | Py_Bool b \<Rightarrow> w = v
      | Py_Int n \<Rightarrow> w = v
      | Py_Float x \<Rightarrow> w = (if fv_finite x then v else Py_Str ''null'')
      | Py_Str s \<Rightarrow> w = v
      | Py_Other b \<Rightarrow> (\<exists>s. b = Some s \<and> w = Py_Str s)
      | _ \<Rightarrow> (\<exists>j t. py_to_json jm str v = Inr j \<and> js_dump js j = Inr t \<and> w = Py_Str t))"

lemma to_py_str_valid: "utf8_valid s \<Longrightarrow> to_py_str s = Inr (Py_Str s)"
  by (simp add: to_py_str_def)

lemma md_value_back:
  assumes laws: "json_values js jm" and parse: "json_text js jm" and x: "py_to_json jm str v = Inr x"
    and t: "js_dump js x = Inr t" and again: "reads_back js jm x x'"
  shows "\<exists>w. md_value js jm x' = Inr w \<and> comes_back js jm str v w"
proof -
  note D = json_valuesD [OF laws] and T = json_textD [OF parse]
  have plain: "md_value js jm x' = Inr (Py_Str t)"
    if "\<not> js_is_string js x" "\<not> jm_is_integer jm x" "\<not> (jm_is_float jm x \<and> fv_finite (js_double js x))"
      "jm_is_float jm x \<or> \<not> jm_is_bool jm x"
    using that again t to_py_str_valid [OF T(3) [OF t]]
    by (auto simp: reads_back_def json_plain_def md_value_def)
  have plain': "md_value js jm x' = Inr (Py_Str t)" if "json_plain js jm x"
    using that plain by (simp add: json_plain_def)
  have string: "md_value js jm x' = Inr (Py_Str (js_string js x))" if "js_is_string js x"
    using that again to_py_str_valid [OF T(4) [OF t]] by (simp add: reads_back_def md_value_def)
  show ?thesis
  proof (cases v)
    case Py_None
    then show ?thesis using plain' x D(15) T(1) t by (auto simp: comes_back_def)
  next
    case (Py_Float d)
    then have d: "x = jm_double jm d" using x by simp
    show ?thesis
    proof (cases "fv_finite d")
      case True
      then show ?thesis using again D(6-9) by (simp add: d Py_Float comes_back_def reads_back_def md_value_def)
    next
      case False
      then show ?thesis using plain D(6-9) T(2) [OF False] t by (auto simp: d Py_Float comes_back_def)
    qed
  next
    case (Py_Str s)
    then show ?thesis using string x D(1,2) by (auto simp: comes_back_def)
  next
    case (Py_List items)
    then show ?thesis using plain' t x D(18) [OF list_to_json_array [OF laws D(16)]] by (auto simp: comes_back_def)
  next
    case (Py_Dict kvs)
    then show ?thesis using plain' t x D(19) [OF dict_to_json_object [OF laws D(17)]] by (auto simp: comes_back_def)
  next
    case (Py_Other s)
    then show ?thesis using string x D(1,2) by (auto simp: comes_back_def split: option.splits)
  qed (use again x D in \<open>auto simp: reads_back_def md_value_def comes_back_def cast_int64_def bindR_Inr_iff split: if_splits\<close>)
qed

section \<open>Reading the items\<close>

lemma map_of_md_set: "map_of (md_set k x md) = (map_of md)(k \<mapsto> x)"
  by (induction k x md rule: md_set.induct) (auto simp: fun_upd_twist)

lemma keys_md_set: "fst ` set (md_set k x md) = insert k (fst ` set md)"
  by (induction k x md rule: md_set.induct) auto

lemma md_items_all:
  assumes "distinct (map fst items)" and "\<forall>(k, x)\<in>set items. utf8_valid k \<and> (\<exists>w. md_value js jm x = Inr w)"
  shows "\<exists>md'. md_items js jm items md = (md', True) \<and> fst ` set md' = fst ` set items \<union> fst ` set md
    \<and> (\<forall>(k, v)\<in>set items. \<exists>w. md_value js jm v = Inr w \<and> map_of md' k = Some w)
    \<and> (\<forall>k. k \<notin> fst ` set items \<longrightarrow> map_of md' k = map_of md k)"
  using assms
proof (induction items arbitrary: md)
  case (Cons kv items)
  obtain k v where kv: "kv = (k, v)" by (cases kv)
  obtain w where w: "md_value js jm v = Inr w" and k: "to_py_str k = Inr (Py_Str k)"
    using Cons.prems(2) kv to_py_str_valid by auto
  have d: "distinct (map fst items)" and v: "\<forall>(k, x)\<in>set items. utf8_valid k \<and> (\<exists>w. md_value js jm x = Inr w)"
    using Cons.prems by auto
  obtain md' where md': "md_items js jm items (md_set k w md) = (md', True)"
    "fst ` set md' = fst ` set items \<union> fst ` set (md_set k w md)"
    "\<forall>(k, v)\<in>set items. \<exists>w. md_value js jm v = Inr w \<and> map_of md' k = Some w"
    "\<forall>k'. k' \<notin> fst ` set items \<longrightarrow> map_of md' k' = map_of (md_set k w md) k'"
    using Cons.IH [OF d v, where md = "md_set k w md"] by blast
  have "k \<notin> fst ` set items" using Cons.prems(1) by (auto simp: kv)
  then show ?case
    using md' w k by (auto simp: kv map_of_md_set keys_md_set intro!: exI [of _ md'])
qed simp

text \<open>A dictionary through \<open>dict_to_json\<close> and back.\<close>

lemma dict_back:
  assumes laws: "json_values js jm" and parse: "json_text js jm" and str: "distinct (map (\<lambda>kv. str (fst kv)) kvs)"
    and meta: "dict_to_json js jm str (Py_Dict kvs) = Inr meta"
  shows "\<exists>md. json_meta_to_dict js jm meta = Inr md \<and> fst ` set md = (\<lambda>kv. str (fst kv)) ` set kvs
    \<and> (\<forall>(k, v)\<in>set kvs. \<exists>w. map_of md (str k) = Some w \<and> comes_back js jm str v w)"
proof -
  obtain j where j: "py_dict_to_json jm str kvs (jm_object jm) = Inr j" and t: "js_dump js j = Inr meta"
    using meta by (auto simp: dict_to_json_def bindR_Inr_iff)
  note D = json_valuesD(17,21) [OF laws]
  have obj: "js_is_object js j" by (rule dict_to_json_object [OF laws D(1) j])
  have items: "distinct (map fst (js_items js j))"
    "\<forall>(k, v)\<in>set kvs. \<exists>x. py_to_json jm str v = Inr x \<and> map_of (js_items js j) (str k) = Some x"
    "\<forall>k. k \<notin> (\<lambda>kv. str (fst kv)) ` set kvs \<longrightarrow> map_of (js_items js j) k = None"
    using dict_to_json_items [OF laws D(1) _ j str] D(2) by auto
  have keys: "fst ` set (js_items js j) = (\<lambda>kv. str (fst kv)) ` set kvs"
  proof
    show "fst ` set (js_items js j) \<subseteq> (\<lambda>kv. str (fst kv)) ` set kvs"
      using items(3) by (metis map_of_eq_None_iff subsetI)
    show "(\<lambda>kv. str (fst kv)) ` set kvs \<subseteq> fst ` set (js_items js j)"
      using items(2) by (force dest: map_of_SomeD)
  qed
  obtain j' where j': "js_parse js meta = Some j'" "distinct (map fst (js_items js j'))"
    "fst ` set (js_items js j') = fst ` set (js_items js j)"
    and again: "\<forall>(k, x)\<in>set (js_items js j). \<exists>x'. map_of (js_items js j') k = Some x' \<and> reads_back js jm x x'"
    using json_textD(6) [OF parse obj items(1) t] by blast
  have home: "\<exists>x' w. map_of (js_items js j') (str k) = Some x' \<and> md_value js jm x' = Inr w \<and> comes_back js jm str v w"
    if kv: "(k, v) \<in> set kvs" for k v
  proof -
    obtain x where x: "py_to_json jm str v = Inr x" "map_of (js_items js j) (str k) = Some x"
      using items(2) kv by force
    have mem: "(str k, x) \<in> set (js_items js j)" by (rule map_of_SomeD [OF x(2)])
    then obtain x' where "map_of (js_items js j') (str k) = Some x'" "reads_back js jm x x'" using again by blast
    moreover obtain t' where "js_dump js x = Inr t'"
      using json_textD(5) [OF parse obj t mem] by (auto simp: prints_def split: sum.splits)
    ultimately show ?thesis using md_value_back [OF laws parse x(1)] by blast
  qed
  have read: "utf8_valid k \<and> (\<exists>w. md_value js jm x = Inr w)" if x: "(k, x) \<in> set (js_items js j')" for k x
  proof -
    have "k \<in> fst ` set (js_items js j)" using x j'(3) by force
    then have valid: "utf8_valid k" using json_textD(5) [OF parse obj t] by auto
    obtain k' v where kv: "(k', v) \<in> set kvs" "k = str k'" using \<open>k \<in> _\<close> keys by auto
    have "map_of (js_items js j') k = Some x" using x j'(2) by simp
    then show ?thesis using home [OF kv(1)] valid kv(2) by auto
  qed
  have "\<forall>(k, x)\<in>set (js_items js j'). utf8_valid k \<and> (\<exists>w. md_value js jm x = Inr w)" using read by blast
  from md_items_all [OF j'(2) this, where md = "[]"]
  obtain md where md: "md_items js jm (js_items js j') [] = (md, True)"
    "fst ` set md = fst ` set (js_items js j')"
    "\<forall>(k, x)\<in>set (js_items js j'). \<exists>w. md_value js jm x = Inr w \<and> map_of md k = Some w"
    by auto
  have "\<exists>w. map_of md (str k) = Some w \<and> comes_back js jm str v w" if kv: "(k, v) \<in> set kvs" for k v
    using home [OF kv] md(3) by (fastforce dest: map_of_SomeD)
  moreover have "json_meta_to_dict js jm meta = Inr md" using j'(1) md(1) by (simp add: json_meta_to_dict_def)
  ultimately show ?thesis using md(2) j'(3) keys by auto
qed

section \<open>Properties\<close>

text \<open>The results behind the hits of a search.\<close>

lemma py_search_hits:
  assumes "py_index_search js jm str srt h query k where_arg ctx = Inr (hits, ctx')"
  shows "\<exists>rs n wc. hnsw_search srt h (np_buffer query) n ctx = Inr (rs, ctx')
    \<and> collect_hits js jm h k wc rs [] = Inr hits"
  using assms by (auto simp: py_index_search_def get_ptr_def bindR_Inr_iff split: if_splits)

text \<open>C26: Metadata given to \<open>insert\<close> and handed out by \<open>search\<close>.  When a dictionary was inserted with an
  id that was not in the index, every hit with this id, of any search that returns, with or without
  a where clause, also after further slots have been appended, has a dictionary with exactly the keys that
  went in (each as its string).  Truth values, integers, finite floats and strings come back with
  their value and their type.  \<open>None\<close> and floats that are not finite (NaN, the infinities) come back as
  the string \<open>null\<close>, lists and nested dictionaries as the string of their JSON text.\<close>

theorem py_metadata_types:
  assumes "json_values js jm" and "json_text js jm" and "distinct (map (\<lambda>kv. str (fst kv)) kvs)"
    and "desc_sorter srt" and "hnsw_wf h" and "visit_ok ctx" and "h_num_vectors h < 2 ^ 32"
    and "random_layer logf val (h_mL h) = Inr level" and "0 \<le> level" and "i \<notin> set (h_id_map h)"
    and "py_index_insert js jm str srt logf val i vec (Py_Dict kvs) (h, ctx) = Inr (h1, ctx1)"
    and "hnsw_wf h2" and "h_num_vectors h2 < 2 ^ 32" and "visit_ok ctx2"
    and "h_id_map h2 = h_id_map h1 @ ids" and "h_metadata h2 = h_metadata h1 @ metas"
    and "py_index_search js jm str srt h2 query k where_arg ctx2 = Inr (hits, ctx3)"
    and "hit \<in> set hits" and "hit_id hit = i"
  shows "fst ` set (hit_metadata hit) = (\<lambda>kv. str (fst kv)) ` set kvs
    \<and> (\<forall>(k, v)\<in>set kvs. \<exists>w. map_of (hit_metadata hit) (str k) = Some w \<and> comes_back js jm str v w)"
proof -
  obtain ptr meta where meta: "dict_to_json js jm str (Py_Dict kvs) = Inr meta"
    and ins: "hnsw_insert srt logf val i ptr meta (h, ctx) = Inr (h1, ctx1)"
    using assms(11) by (auto simp: py_index_insert_def bindR_Inr_iff)
  have "inserted i ptr meta h h1" using hnsw_insert_wf [OF assms(4-9) ins] by simp
  then have new: "h_id_map h1 = h_id_map h @ [i]" "h_metadata h1 = h_metadata h @ [meta]"
    and len: "length (h_id_map h) = length (h_metadata h)"
    using assms(5) by (simp_all add: inserted_def hnsw_wf_def hnsw_sizes_def)
  have "takeWhile (\<lambda>j. j \<noteq> i) (h_id_map h) = h_id_map h" using assms(10) by (auto simp: takeWhile_eq_all_conv)
  then have "first_slot h2 i = length (h_id_map h)"
    using assms(10,15) new(1) by (auto simp: first_slot_def takeWhile_append)
  then have slot: "h_metadata h2 ! first_slot h2 i = meta" using assms(16) new(2) len by (simp add: nth_append)
  obtain rs n wc where search: "hnsw_search srt h2 (np_buffer query) n ctx2 = Inr (rs, ctx3)"
    and hits: "collect_hits js jm h2 k wc rs [] = Inr hits"
    using py_search_hits [OF assms(17)] by blast
  have ids: "snd ` set rs \<subseteq> set (h_id_map h2)" by (rule search_ids(2) [OF assms(4,12,14,13) search])
  have "json_meta_to_dict js jm meta = Inr (hit_metadata hit)"
    using collect_hits_first_slot [OF assms(12,13) ids hits assms(18)] assms(19) slot by simp
  then show ?thesis using dict_back [OF assms(1-3) meta] by auto
qed

section \<open>A library of JSON values\<close>

datatype jvalue = JV_Null | JV_Bool bool | JV_Int int | JV_Float fval | JV_Str string | JV_Arr "jvalue list"
  | JV_Obj "(string \<times> jvalue) list"

fun jv_set :: "string \<Rightarrow> jvalue \<Rightarrow> (string \<times> jvalue) list \<Rightarrow> (string \<times> jvalue) list" where
  "jv_set k x [] = [(k, x)]"
| "jv_set k x ((k', y) # kvs) = (if k' = k then (k, x) # kvs else (k', y) # jv_set k x kvs)"

text \<open>The object of the example, its text, and what the text parses to.  Of the other objects, the
  arrays and the finite floats this library prints none.\<close>

definition jv_example :: jvalue where
  "jv_example = JV_Obj [(''flag'', JV_Bool True), (''n'', JV_Int 3), (''none'', JV_Null),
     (''nan'', JV_Float FNan), (''s'', JV_Str ''abc'')]"

definition jv_reread :: jvalue where
  "jv_reread = JV_Obj [(''flag'', JV_Bool True), (''n'', JV_Int 3), (''none'', JV_Null),
     (''nan'', JV_Null), (''s'', JV_Str ''abc'')]"

definition jv_text :: string where
  "jv_text = ''{flag:true,n:3,none:null,nan:null,s:abc}''"

definition jv_error :: "string res" where
  "jv_error = Inl (Runtime_Error ''type_error.316'')"

definition jv_dump :: "jvalue \<Rightarrow> string res" where
  "jv_dump j =
     (case j of
        JV_Null \<Rightarrow> Inr ''null''
      | JV_Bool b \<Rightarrow> Inr (if b then ''true'' else ''false'')
      | JV_Int n \<Rightarrow> if n = 3 then Inr ''3'' else jv_error
      | JV_Float x \<Rightarrow> if fv_finite x then jv_error else Inr ''null''
      | JV_Str s \<Rightarrow> if utf8_valid s then Inr s else jv_error
      | JV_Arr xs \<Rightarrow> jv_error
      | JV_Obj kvs \<Rightarrow> if j = jv_example then Inr jv_text else jv_error)"

definition jv_lib :: "jvalue json_lib" where
  "jv_lib = \<lparr>js_is_number = (\<lambda>j. case j of JV_Int _ \<Rightarrow> True | JV_Float _ \<Rightarrow> True | _ \<Rightarrow> False),
     js_double = (\<lambda>j. case j of JV_Float x \<Rightarrow> x | _ \<Rightarrow> FNan),
     js_is_string = (\<lambda>j. case j of JV_Str _ \<Rightarrow> True | _ \<Rightarrow> False),
     js_string = (\<lambda>j. case j of JV_Str s \<Rightarrow> s | _ \<Rightarrow> []),
     js_is_array = (\<lambda>j. case j of JV_Arr _ \<Rightarrow> True | _ \<Rightarrow> False),
     js_elems = (\<lambda>j. case j of JV_Arr xs \<Rightarrow> xs | _ \<Rightarrow> []),
     js_is_object = (\<lambda>j. case j of JV_Obj _ \<Rightarrow> True | _ \<Rightarrow> False),
     js_items = (\<lambda>j. case j of JV_Obj kvs \<Rightarrow> kvs | _ \<Rightarrow> []),
     js_find = (\<lambda>j k. case j of JV_Obj kvs \<Rightarrow> map_of kvs k | _ \<Rightarrow> None),
     js_dump = jv_dump,
     js_parse = (\<lambda>s. if s = jv_text then Some jv_reread else None)\<rparr>"

definition jv_make :: "jvalue json_make" where
  "jv_make = \<lparr>jm_null = JV_Null, jm_bool = JV_Bool, jm_int = JV_Int, jm_double = JV_Float, jm_string = JV_Str,
     jm_array = JV_Arr [], jm_push_back = (\<lambda>a j. case a of JV_Arr xs \<Rightarrow> JV_Arr (xs @ [j]) | _ \<Rightarrow> a),
     jm_object = JV_Obj [], jm_assign = (\<lambda>a k j. case a of JV_Obj kvs \<Rightarrow> JV_Obj (jv_set k j kvs) | _ \<Rightarrow> a),
     jm_is_integer = (\<lambda>j. case j of JV_Int _ \<Rightarrow> True | _ \<Rightarrow> False),
     jm_get_int = (\<lambda>j. case j of JV_Int n \<Rightarrow> n | _ \<Rightarrow> 0),
     jm_is_float = (\<lambda>j. case j of JV_Float _ \<Rightarrow> True | _ \<Rightarrow> False),
     jm_is_bool = (\<lambda>j. case j of JV_Bool _ \<Rightarrow> True | _ \<Rightarrow> False),
     jm_get_bool = (\<lambda>j. case j of JV_Bool b \<Rightarrow> b | _ \<Rightarrow> False)\<rparr>"

lemma map_of_jv_set: "map_of (jv_set k x kvs) = (map_of kvs)(k \<mapsto> x)"
  by (induction k x kvs rule: jv_set.induct) (auto simp: fun_upd_twist)

lemma keys_jv_set: "fst ` set (jv_set k x kvs) = insert k (fst ` set kvs)"
  by (induction k x kvs rule: jv_set.induct) auto

lemma distinct_jv_set: "distinct (map fst kvs) \<Longrightarrow> distinct (map fst (jv_set k x kvs))"
  by (induction k x kvs rule: jv_set.induct) (auto simp: keys_jv_set)

lemma jv_json_values: "json_values jv_lib jv_make"
  by (auto simp: json_values_def json_plain_def jv_lib_def jv_make_def map_of_jv_set distinct_jv_set
      split: jvalue.splits)

lemma jv_utf8:
  "utf8_valid ''null''" "utf8_valid ''true''" "utf8_valid ''false''" "utf8_valid ''3''" "utf8_valid jv_text"
  "utf8_valid ''flag''" "utf8_valid ''n''" "utf8_valid ''none''" "utf8_valid ''nan''" "utf8_valid ''s''"
  "utf8_valid ''abc''"
  by code_simp+

lemma jv_object_dumps: "js_is_object jv_lib j \<Longrightarrow> js_dump jv_lib j = Inr t \<Longrightarrow> j = jv_example \<and> t = jv_text"
  by (auto simp: jv_lib_def jv_dump_def jv_error_def split: jvalue.splits if_splits)

lemma jv_items:
  "js_items jv_lib jv_example = [(''flag'', JV_Bool True), (''n'', JV_Int 3), (''none'', JV_Null),
      (''nan'', JV_Float FNan), (''s'', JV_Str ''abc'')]"
  "js_items jv_lib jv_reread = [(''flag'', JV_Bool True), (''n'', JV_Int 3), (''none'', JV_Null),
      (''nan'', JV_Null), (''s'', JV_Str ''abc'')]"
  by (simp_all add: jv_lib_def jv_example_def jv_reread_def)

lemma jv_dump_utf8:
  "js_dump jv_lib j = Inr t \<Longrightarrow> utf8_valid t \<and> (js_is_string jv_lib j \<longrightarrow> utf8_valid (js_string jv_lib j))"
  by (cases j) (auto simp: jv_lib_def jv_dump_def jv_error_def jv_utf8 split: if_splits)

lemma jv_parts: "(k, x) \<in> set (js_items jv_lib jv_example) \<Longrightarrow> utf8_valid k \<and> prints jv_lib x"
  unfolding jv_items by (auto simp: jv_utf8 prints_def jv_lib_def jv_dump_def jv_example_def fv_finite_def)

lemma jv_again:
  "\<forall>(k, x)\<in>set (js_items jv_lib jv_example).
    \<exists>x'. map_of (js_items jv_lib jv_reread) k = Some x' \<and> reads_back jv_lib jv_make x x'"
  unfolding jv_items
  by (simp add: reads_back_def json_plain_def jv_lib_def jv_make_def jv_dump_def fv_finite_def)

lemma jv_json_text: "json_text jv_lib jv_make"
proof -
  have dumps: "js_dump jv_lib (jm_null jv_make) = Inr ''null''"
    "\<forall>x. \<not> fv_finite x \<longrightarrow> js_dump jv_lib (jm_double jv_make x) = Inr ''null''"
    "\<forall>j t. js_dump jv_lib j = Inr t \<longrightarrow> utf8_valid t \<and> (js_is_string jv_lib j \<longrightarrow> utf8_valid (js_string jv_lib j))"
    using jv_dump_utf8 by (simp_all add: jv_lib_def jv_make_def jv_dump_def)
  have parse: "js_parse jv_lib jv_text = Some jv_reread" by (simp add: jv_lib_def)
  have keys: "distinct (map fst (js_items jv_lib jv_reread))"
    "fst ` set (js_items jv_lib jv_reread) = fst ` set (js_items jv_lib jv_example)"
    unfolding jv_items by simp_all
  show ?thesis
    unfolding json_text_def
  proof (intro conjI)
    show "\<forall>j t. js_is_object jv_lib j \<longrightarrow> js_dump jv_lib j = Inr t \<longrightarrow>
        (\<forall>(k, x)\<in>set (js_items jv_lib j). utf8_valid k \<and> prints jv_lib x)"
    proof (intro allI impI)
      fix j t
      assume "js_is_object jv_lib j" "js_dump jv_lib j = Inr t"
      then have "j = jv_example" using jv_object_dumps by blast
      then show "\<forall>(k, x)\<in>set (js_items jv_lib j). utf8_valid k \<and> prints jv_lib x" using jv_parts by auto
    qed
    show "\<forall>j t. js_is_object jv_lib j \<longrightarrow> distinct (map fst (js_items jv_lib j)) \<longrightarrow> js_dump jv_lib j = Inr t \<longrightarrow>
        (\<exists>j'. js_parse jv_lib t = Some j' \<and> distinct (map fst (js_items jv_lib j'))
          \<and> fst ` set (js_items jv_lib j') = fst ` set (js_items jv_lib j)
          \<and> (\<forall>(k, x)\<in>set (js_items jv_lib j). \<exists>x'. map_of (js_items jv_lib j') k = Some x' \<and> reads_back jv_lib jv_make x x'))"
    proof (intro allI impI)
      fix j t
      assume "js_is_object jv_lib j" "js_dump jv_lib j = Inr t"
      then have j: "j = jv_example" "t = jv_text" using jv_object_dumps by blast+
      show "\<exists>j'. js_parse jv_lib t = Some j' \<and> distinct (map fst (js_items jv_lib j'))
          \<and> fst ` set (js_items jv_lib j') = fst ` set (js_items jv_lib j)
          \<and> (\<forall>(k, x)\<in>set (js_items jv_lib j). \<exists>x'. map_of (js_items jv_lib j') k = Some x' \<and> reads_back jv_lib jv_make x x')"
        unfolding j by (intro exI [of _ jv_reread] conjI parse keys jv_again)
    qed
  qed (fact dumps)+
qed

text \<open>An index of one vector, inserted with the example as its metadata.\<close>

definition py_example :: py_obj where
  "py_example = Py_Dict [(Py_Str ''flag'', Py_Bool True), (Py_Str ''n'', Py_Int 3), (Py_Str ''none'', Py_None),
     (Py_Str ''nan'', Py_Float FNan), (Py_Str ''s'', Py_Str ''abc'')]"

definition one_item :: build_item where
  "one_item = \<lparr>bi_draw = F32 0x3F000000, bi_id = 9, bi_vec = [f32_one], bi_meta = jv_text\<rparr>"

lemma one_items_ok: "items_ok log_two 1 cfg_small [one_item]"
  using level_two unit_scores
  by (simp add: items_ok_def one_item_def cfg_small_def no_nan_scores_def unit_similarities)

lemma py_example_text: "dict_to_json jv_lib jv_make jstr py_example = Inr jv_text"
proof -
  have "py_to_json jv_make jstr py_example = Inr jv_example"
    by (simp add: py_example_def jv_make_def jv_example_def cast_int64_def)
  moreover have "js_dump jv_lib jv_example = Inr jv_text"
    by (simp add: jv_lib_def jv_dump_def jv_example_def)
  ultimately show ?thesis by (simp add: dict_to_json_def py_example_def)
qed

lemma py_example_dict: "okR (json_meta_to_dict jv_lib jv_make jv_text) (\<lambda>_. True)"
  by code_simp

theorem py_metadata_types_witness:
  "\<exists>h1 ctx1 hit ctx3. py_index_insert jv_lib jv_make jstr isort_desc log_two (F32 0x3F000000) 9 query_one py_example
        (hnsw_new log_two 1 cfg_small, ctx_new) = Inr (h1, ctx1)
    \<and> py_index_search jv_lib jv_make jstr isort_desc (set_ef_search 5 h1) query_one 1 Py_None ctx1 = Inr ([hit], ctx3)
    \<and> map_of (hit_metadata hit) ''flag'' = Some (Py_Bool True) \<and> map_of (hit_metadata hit) ''n'' = Some (Py_Int 3)
    \<and> map_of (hit_metadata hit) ''none'' = Some (Py_Str ''null'')
    \<and> map_of (hit_metadata hit) ''nan'' = Some (Py_Str ''null'') \<and> map_of (hit_metadata hit) ''s'' = Some (Py_Str ''abc'')"
proof -
  let ?h = "hnsw_new log_two 1 cfg_small :: unit hnsw"
  let ?kvs = "[(Py_Str ''flag'', Py_Bool True), (Py_Str ''n'', Py_Int 3), (Py_Str ''none'', Py_None),
     (Py_Str ''nan'', Py_Float FNan), (Py_Str ''s'', Py_Str ''abc'')]"
  have cfg: "cfg_ok cfg_small" by (simp add: cfg_ok_def cfg_small_def)
  obtain h1 ctx1 where run: "build isort_desc log_two 1 cfg_small [one_item] ctx_new = Inr (h1, ctx1)"
    and built: "built log_two 1 cfg_small [one_item] h1" and ctx1: "visit_ok ctx1" and complete: "complete_below 1 h1"
    using build_spec [OF isort.whole.desc_sorter_axioms cfg ctx_new_ok one_items_ok]
    by (auto simp: okR_iff cfg_small_def)
  have added: "hnsw_insert isort_desc log_two (F32 0x3F000000) 9 [f32_one] jv_text (?h, ctx_new) = Inr (h1, ctx1)"
    using run by (simp add: build_def insert_item_def one_item_def bindR_Inr_iff)
  have ins: "py_index_insert jv_lib jv_make jstr isort_desc log_two (F32 0x3F000000) 9 query_one (Py_Dict ?kvs)
      (?h, ctx_new) = Inr (h1, ctx1)"
    using added py_example_text
    by (simp add: py_index_insert_def get_ptr_def query_one_def hnsw_new_def py_example_def)
  let ?h2 = "set_ef_search 5 h1"
  have h2: "h_num_vectors ?h2 = 1" "h_id_map ?h2 = [9]" "h_id_map ?h2 = h_id_map h1" "h_metadata ?h2 = h_metadata h1"
    "h_dim ?h2 = 1"
    using built by (simp_all add: built_def set_ef_search_def one_item_def)
  have wf2: "hnsw_wf ?h2" using built set_ef_search_wf [of h1 5] by (simp add: built_def)
  have nn: "\<forall>i<length [one_item]. \<not> is_nan (item_score 1 [f32_one] [one_item] i)"
    using unit_scores by (simp add: item_score_def one_item_def unit_similarities)
  obtain rs ctx3 idxs where search: "hnsw_search isort_desc ?h2 [f32_one] 1 ctx1 = Inr (rs, ctx3)"
    and rs: "rs = map (\<lambda>i. (item_score 1 [f32_one] [one_item] i, bi_id ([one_item] ! i))) idxs"
    and top: "is_top_k (item_score 1 [f32_one] [one_item]) [0..<1] (result_limit 1 1) idxs"
    using small_search [OF isort.whole.desc_sorter_axioms built _ ctx1 _ _ _ nn, of 5 1] complete by auto
  have "length idxs = 1" "set idxs \<subseteq> {0}" using top by (simp_all add: is_top_k_def result_limit_def)
  then have "idxs = [0]" by (auto simp: length_Suc_conv)
  then obtain score where rs: "rs = [(score, 9)]" by (simp add: rs one_item_def)
  have meta: "h_metadata h1 = [jv_text]"
    using hnsw_insert_inserted [OF added] by (auto simp: inserted_def hnsw_new_def)
  have small: "h_num_vectors ?h2 < 2 ^ 32" using built by (simp add: built_def)
  obtain md where md: "json_meta_to_dict jv_lib jv_make jv_text = Inr md" using py_example_dict by (auto simp: okR_iff)
  have ids1: "h_id_map h1 = [9]" "h_dim h1 = 1" using built by (simp_all add: built_def one_item_def)
  let ?hit = "\<lparr>hit_id = 9, hit_score = score, hit_metadata = md\<rparr>"
  have "collect_hits jv_lib jv_make ?h2 1 None rs [] = Inr [?hit]"
    using collect_hits_step [OF wf2 small, of 9 jv_lib jv_make 1 None score "[]" "[]"] md
    by (simp add: rs h2 ids1 meta hit_at_def first_slot_def del: collect_hits.simps(2))
  then have found: "py_index_search jv_lib jv_make jstr isort_desc ?h2 query_one 1 Py_None ctx1 = Inr ([?hit], ctx3)"
    using search ids1 by (simp add: py_index_search_def get_ptr_def query_one_def)
  have "random_layer log_two (F32 0x3F000000) (h_mL ?h) = Inr 0"
    using level_two by (simp add: hnsw_new_def cfg_small_def)
  note home = py_metadata_types [OF jv_json_values jv_json_text _ isort.whole.desc_sorter_axioms hnsw_wf_new [OF cfg]
      ctx_new_ok _ this _ _ ins wf2 small ctx1 _ _ found, of "[]" "[]" ?hit]
  have "map_of md ''flag'' = Some (Py_Bool True)" "map_of md ''n'' = Some (Py_Int 3)"
    "map_of md ''none'' = Some (Py_Str ''null'')" "map_of md ''nan'' = Some (Py_Str ''null'')"
    "map_of md ''s'' = Some (Py_Str ''abc'')"
    using home by (simp_all add: h2 comes_back_def fv_finite_def hnsw_new_def)
  then have "map_of (hit_metadata ?hit) ''flag'' = Some (Py_Bool True) \<and> map_of (hit_metadata ?hit) ''n'' = Some (Py_Int 3)
      \<and> map_of (hit_metadata ?hit) ''none'' = Some (Py_Str ''null'')
      \<and> map_of (hit_metadata ?hit) ''nan'' = Some (Py_Str ''null'') \<and> map_of (hit_metadata ?hit) ''s'' = Some (Py_Str ''abc'')"
    by simp
  then show ?thesis using ins found unfolding py_example_def by blast
qed

end
