(* ===== verification/Cli_Input.thy ===== *)
theory Cli_Input
  imports Byte_Codec "HOL-Library.Sublist"
begin

text \<open>
  The input of the command line tool (\<open>src/src/cli.cpp\<close>): the options, the \<open>.npy\<close> reader and
  the generated vectors.
\<close>

section \<open>Options\<close>

text \<open>\<open>strtoul\<close> and \<open>strtol\<close> in base 10: white space, a sign, digits; the rest is ignored.\<close>

definition is_space :: "char \<Rightarrow> bool" where
  "is_space c = (of_char c = (32 :: nat) \<or> 9 \<le> (of_char c :: nat) \<and> of_char c \<le> (13 :: nat))"

definition is_digit :: "char \<Rightarrow> bool" where
  "is_digit c = (48 \<le> (of_char c :: nat) \<and> of_char c \<le> (57 :: nat))"

definition digits_value :: "string \<Rightarrow> nat" where
  "digits_value ds = foldl (\<lambda>n c. 10 * n + (of_char c - 48)) 0 ds"

definition strto :: "string \<Rightarrow> (bool \<times> nat) option" where
  "strto s =
     (let s = dropWhile is_space s;
          neg = (s \<noteq> [] \<and> hd s = CHR ''-'');
          s = (if s \<noteq> [] \<and> (hd s = CHR ''-'' \<or> hd s = CHR ''+'') then tl s else s);
          ds = takeWhile is_digit s
      in if ds = [] then None else Some (neg, digits_value ds))"

text \<open>A minus sign is no error for an unsigned number: it is negated in 64 bits.\<close>

definition stoul :: "string \<Rightarrow> nat res" where
  "stoul s =
     (case strto s of
        None \<Rightarrow> Inl (Invalid_Argument ''stoul'')
      | Some (neg, v) \<Rightarrow>
          if 2 ^ 64 \<le> v then Inl (Out_Of_Range ''stoul'')
          else Inr (if neg then (2 ^ 64 - v) mod 2 ^ 64 else v))"

definition stoi :: "string \<Rightarrow> int res" where
  "stoi s =
     (case strto s of
        None \<Rightarrow> Inl (Invalid_Argument ''stoi'')
      | Some (neg, v) \<Rightarrow>
          let n = (if neg then - int v else int v) in
          if - (2 ^ 31) \<le> n \<and> n < 2 ^ 31 then Inr n else Inl (Out_Of_Range ''stoi''))"

record cli_options =
  co_emb_path :: string
  co_query_path :: string
  co_dim :: nat
  co_n :: nat
  co_k :: int
  co_bench :: bool

definition cli_defaults :: cli_options where
  "cli_defaults = \<lparr>co_emb_path = [], co_query_path = [], co_dim = 0, co_n = 100000, co_k = 10,
     co_bench = False\<rparr>"

text \<open>One pass of the loop over \<open>argv\<close>; what is no option is ignored.\<close>

definition parse_option :: "string \<Rightarrow> cli_options \<Rightarrow> cli_options res" where
  "parse_option a opts =
     (if a = ''bench'' then Inr (opts\<lparr>co_bench := True\<rparr>)
      else if prefix ''--embeddings='' a then Inr (opts\<lparr>co_emb_path := drop 13 a\<rparr>)
      else if prefix ''--queries='' a then Inr (opts\<lparr>co_query_path := drop 10 a\<rparr>)
      else if prefix ''--dim='' a then bindR (stoul (drop 6 a)) (\<lambda>d. Inr (opts\<lparr>co_dim := d\<rparr>))
      else if prefix ''--n='' a then bindR (stoul (drop 4 a)) (\<lambda>n. Inr (opts\<lparr>co_n := n\<rparr>))
      else if prefix ''--k='' a then bindR (stoi (drop 4 a)) (\<lambda>k. Inr (opts\<lparr>co_k := k\<rparr>))
      else Inr opts)"

definition parse_options :: "string list \<Rightarrow> cli_options res" where
  "parse_options argv = foldR parse_option (tl argv) cli_defaults"

section \<open>Vectors from a file\<close>

text \<open>The largest number of floats a vector may have.\<close>

definition max_floats :: nat where
  "max_floats = 2 ^ 61 - 1"

text \<open>
  The prologue of a file shorter than 10 bytes is used uninitialised.  The size of the body wraps
  when the header is longer than the file, and the last bytes of a body that is not a multiple
  of 4 are read past the end of the vector.
\<close>

definition load_npy :: "string \<Rightarrow> nat \<Rightarrow> filesys \<Rightarrow> (f32 list \<times> nat \<times> nat) res" where
  "load_npy path d fs =
     (case fopen_rb fs path of
        None \<Rightarrow> Inl (Runtime_Error (''Cannot open '' @ path))
      | Some bs \<Rightarrow>
          let file_size = length bs in
          bindR (guardR (10 \<le> file_size) Undefined_Behaviour) (\<lambda>_.
          let h_len = le_nat (take 2 (drop 8 bs));
              data_offset = 10 + h_len;
              body_size = nat ((int file_size - int data_offset) mod 2 ^ 64) in
          bindR (guardR (body_size div 4 \<le> max_floats) Length_Error) (\<lambda>_.
          bindR (guardR (body_size mod 4 = 0) Undefined_Behaviour) (\<lambda>_.
          let data = f32s_of_bytes (body_size div 4) (drop data_offset bs);
              d = (if d = 0 then 384 else d) in
          Inr (data, length data div d, d)))))"

section \<open>Generated vectors\<close>

text \<open>A vector of draws of the normal distribution, divided by its norm.\<close>

definition rand_vec :: "(nat \<Rightarrow> f32) \<Rightarrow> nat \<Rightarrow> f32 list" where
  "rand_vec draw d =
     (let v = map draw [0..<d];
          n = foldl (\<lambda>n x. f32_add n (f32_mul x x)) 0 v;
          n = f32_sqrt n
      in map (\<lambda>x. f32_div x n) v)"

text \<open>The cast of a size to \<open>int\<close>.\<close>

definition to_int :: "nat \<Rightarrow> int" where
  "to_int n = (int n + 2 ^ 31) mod 2 ^ 32 - 2 ^ 31"

text \<open>\<open>n\<close> vectors from the seeds \<open>(int)i + seed\<close>.  The size of the buffer wraps, the copies
  into it do not.\<close>

definition rand_data :: "(int \<Rightarrow> nat \<Rightarrow> f32) \<Rightarrow> int \<Rightarrow> nat \<Rightarrow> nat \<Rightarrow> f32 list res" where
  "rand_data draw seed n d =
     bindR (guardR ((n * d) mod 2 ^ 64 \<le> max_floats) Length_Error) (\<lambda>_.
     bindR (guardR (n * d < 2 ^ 64) Undefined_Behaviour) (\<lambda>_.
     Inr (concat (map (\<lambda>i. rand_vec (draw (to_int i + seed)) d) [0..<n]))))"

text \<open>The training vectors and the queries: the first file sets the dimension of the second.\<close>

definition train_input ::
    "(int \<Rightarrow> nat \<Rightarrow> f32) \<Rightarrow> filesys \<Rightarrow> cli_options \<Rightarrow> (f32 list \<times> nat \<times> nat) res" where
  "train_input draw fs opts =
     (if co_emb_path opts \<noteq> [] then load_npy (co_emb_path opts) (co_dim opts) fs
      else
        let d = (if co_dim opts = 0 then 768 else co_dim opts) in
        bindR (rand_data draw 0 (co_n opts) d) (\<lambda>data. Inr (data, co_n opts, d)))"

definition query_input ::
    "(int \<Rightarrow> nat \<Rightarrow> f32) \<Rightarrow> filesys \<Rightarrow> cli_options \<Rightarrow> nat \<Rightarrow> (f32 list \<times> nat \<times> nat) res" where
  "query_input draw fs opts d =
     (if co_query_path opts \<noteq> [] then load_npy (co_query_path opts) d fs
      else
        let d = (if d = 0 then 768 else d) in
        bindR (rand_data draw 999999 100 d) (\<lambda>data. Inr (data, 100, d)))"

section \<open>Decimal numbers are read back\<close>

lemma decimal_digits: "set (decimal n) \<subseteq> {c. is_digit c}"
proof (induction n rule: decimal.induct)
  case (1 n)
  then show ?case
    by (subst decimal.simps) (auto simp: is_digit_def)
qed

lemma decimal_not_empty [simp]: "decimal n \<noteq> []"
  by (subst decimal.simps) simp

lemma digits_value_decimal: "digits_value (decimal n) = n"
proof (induction n rule: decimal.induct)
  case (1 n)
  then show ?case
    by (subst decimal.simps) (auto simp: digits_value_def)
qed

lemma strto_decimal: "strto (decimal n) = Some (False, n)" "strto (CHR ''-'' # decimal n) = Some (True, n)"
proof -
  have digit: "is_digit c" if "c \<in> set (decimal n)" for c using that decimal_digits by auto
  have hd: "is_digit (hd (decimal n))" by (rule digit) simp
  then have other: "\<not> is_space (hd (decimal n))" "hd (decimal n) \<noteq> CHR ''-''" "hd (decimal n) \<noteq> CHR ''+''"
    by (auto simp: is_space_def is_digit_def)
  then have "dropWhile is_space (decimal n) = decimal n"
    by (cases "decimal n") auto
  moreover have whole: "takeWhile is_digit (decimal n) = decimal n" using digit by simp
  ultimately show "strto (decimal n) = Some (False, n)"
    using other by (simp add: strto_def Let_def digits_value_decimal whole del: takeWhile_eq_all_conv)
  show "strto (CHR ''-'' # decimal n) = Some (True, n)"
    by (simp add: strto_def Let_def digits_value_decimal is_space_def whole del: takeWhile_eq_all_conv)
qed

lemma stoul_decimal: "n < 2 ^ 64 \<Longrightarrow> stoul (decimal n) = Inr n"
  by (simp add: stoul_def strto_decimal)

lemma stoi_decimal: "int k < 2 ^ 31 \<Longrightarrow> stoi (decimal k) = Inr (int k)"
  by (simp add: stoi_def strto_decimal)

text \<open>A negative count is taken modulo \<open>2 ^ 64\<close>.\<close>

lemma stoul_negative: "0 < n \<Longrightarrow> n < 2 ^ 64 \<Longrightarrow> stoul (CHR ''-'' # decimal n) = Inr (2 ^ 64 - n)"
  by (simp add: stoul_def strto_decimal)

lemma parse_options_decimal:
  assumes "d < 2 ^ 64" and "n < 2 ^ 64" and "int k < 2 ^ 31"
  shows "parse_options [exe, ''bench'', ''--embeddings='' @ emb, ''--queries='' @ query,
      ''--dim='' @ decimal d, ''--n='' @ decimal n, ''--k='' @ decimal k]
    = Inr \<lparr>co_emb_path = emb, co_query_path = query, co_dim = d, co_n = n, co_k = int k, co_bench = True\<rparr>"
  using assms
  by (simp add: parse_options_def parse_option_def cli_defaults_def stoul_decimal stoi_decimal)

section \<open>Properties\<close>

text \<open>The reader of \<open>.npy\<close> files gives back the floats that follow a header of the announced
  length, whatever the header says, with as many vectors as fit; a header longer than the file is
  an error, and a body that is not a whole number of floats overruns the buffer.\<close>

theorem load_npy_file:
  assumes "fopen_rb fs path = Some (pre @ le_bytes 2 m @ rest)" and "length pre = 8" and "m < 2 ^ 16"
    and "length rest \<le> 4 * max_floats" and "d' = (if d = 0 then 384 else d)"
  shows "(rest = header @ f32s_bytes v \<longrightarrow> length header = m \<longrightarrow>
      load_npy path d fs = Inr (v, length v div d', d'))
    \<and> (length rest < m \<longrightarrow> load_npy path d fs = Inl Length_Error)
    \<and> (m \<le> length rest \<longrightarrow> (length rest - m) mod 4 \<noteq> 0 \<longrightarrow> load_npy path d fs = Inl Undefined_Behaviour)"
proof -
  let ?bs = "pre @ le_bytes 2 m @ rest"
  let ?body = "nat ((int (length ?bs) - int (10 + m)) mod 2 ^ 64)"
  have len: "le_nat (take 2 (drop 8 ?bs)) = m"
    using assms(2,3) by (simp add: le_nat_le_bytes)
  have drop: "drop (10 + m) ?bs = drop m rest" using assms(2) by simp
  have long: "(10 \<le> length ?bs) = True" using assms(2) by simp
  have load: "load_npy path d fs =
      bindR (guardR (?body div 4 \<le> max_floats) Length_Error) (\<lambda>_.
      bindR (guardR (?body mod 4 = 0) Undefined_Behaviour) (\<lambda>_.
      let data = f32s_of_bytes (?body div 4) (drop m rest) in Inr (data, length data div d', d')))"
    by (simp only: load_npy_def assms(1,5) option.case Let_def len drop long guardR_def [of True]
        if_True bindR_simps)
  have body: "?body = length rest - m" if "m \<le> length rest"
    using that assms(2,4) by (simp add: max_floats_def nat_mod_as_int)
  have wrap: "?body = 2 ^ 64 - (m - length rest)" if "length rest < m"
  proof -
    have "(int (length rest) - int m) mod 2 ^ 64 = (int (length rest) - int m + 2 ^ 64) mod 2 ^ 64" by simp
    also have "\<dots> = int (length rest) - int m + 2 ^ 64"
      using that assms(3) by (intro mod_pos_pos_trivial) auto
    finally show ?thesis using that assms(2) by simp
  qed
  have "load_npy path d fs = Inr (v, length v div d', d')" if "rest = header @ f32s_bytes v" "length header = m"
    using that body assms(4) by (simp add: load f32s_of_bytes_inverse guardR_def Let_def)
  moreover have "load_npy path d fs = Inl Length_Error" if "length rest < m"
    using wrap [OF that] that assms(3) by (simp add: load guardR_def max_floats_def)
  moreover have "load_npy path d fs = Inl Undefined_Behaviour"
    if "m \<le> length rest" "(length rest - m) mod 4 \<noteq> 0"
    using body that assms(4) by (simp add: load guardR_def)
  ultimately show ?thesis by blast
qed

theorem load_npy_file_witness:
  "\<exists>fs. fopen_rb fs ''v.npy'' = Some (replicate 8 0 @ le_bytes 2 3 @ [1, 2, 3] @ f32s_bytes [F32 5, F32 6])
    \<and> load_npy ''v.npy'' 2 fs = Inr ([F32 5, F32 6], 1, 2)"
proof -
  let ?rest = "[1, 2, 3] @ f32s_bytes [F32 5, F32 6]"
  define fs where "fs = \<lparr>fs_files = [''v.npy'' \<mapsto> replicate 8 0 @ le_bytes 2 3 @ ?rest], fs_refused = (\<lambda>_. False)\<rparr>"
  have content: "fopen_rb fs ''v.npy'' = Some (replicate 8 0 @ le_bytes 2 3 @ ?rest)"
    by (simp add: fs_def fopen_rb_def)
  then have "load_npy ''v.npy'' 2 fs = Inr ([F32 5, F32 6], 1, 2)"
    using load_npy_file [OF content, of 2 2 "[1, 2, 3]" "[F32 5, F32 6]"] by (simp add: max_floats_def)
  then show ?thesis using content by blast
qed

end
