(* ===== verification/Cli_Bench.thy ===== *)
theory Cli_Bench
  imports Cli_Input Hnsw_Complete
begin

text \<open>
  The benchmark of the command line tool (\<open>src/src/cli.cpp\<close>): it builds an HNSW index and a flat
  index on the same vectors, searches both, and prints the share of the exact results that the
  HNSW search found.  The clock, the memory size and the printing are left out.
\<close>

section \<open>Building the indexes\<close>

definition bench_cfg :: hnsw_config where
  "bench_cfg = \<lparr>cfg_M = 16, cfg_ef_construction = 200, cfg_ef_search = 50\<rparr>"

text \<open>
  The loop that fills the HNSW index is parallel: \<open>order\<close> is the order in which the insertions run,
  one after the other, and \<open>draws i\<close> is the draw of the level of vector \<open>i\<close>.
\<close>

definition bench_hnsw ::
    "(scored list \<Rightarrow> scored list) \<Rightarrow> (f32 \<Rightarrow> f32) \<Rightarrow> (nat \<Rightarrow> f32) \<Rightarrow> nat \<Rightarrow> f32 list \<Rightarrow> nat list
      \<Rightarrow> unit visit_ctx \<Rightarrow> (unit hnsw \<times> unit visit_ctx) res" where
  "bench_hnsw srt logf draws d data order ctx =
     foldR (\<lambda>i. hnsw_insert srt logf (draws i) (word_of_nat i) (drop (i * d) data) ''{}'') order
       (hnsw_new logf d bench_cfg, ctx)"

definition bench_flat :: "nat \<Rightarrow> f32 list \<Rightarrow> nat \<Rightarrow> flat_index res" where
  "bench_flat d data n =
     foldR (\<lambda>i fi. flat_insert fi (word_of_nat i) (drop (i * d) data) ''{}'') [0..<n] (flat_new d)"

section \<open>Measuring\<close>

definition compute_recall :: "64 word list \<Rightarrow> (f32 \<times> 64 word) list \<Rightarrow> int \<Rightarrow> f32" where
  "compute_recall truth results k =
     (let found = length (filter (\<lambda>r. snd r \<in> set truth) results)
      in f32_div (f32_of_int (int found)) (f32_of_int k))"

text \<open>One query: the recall is added to the total.\<close>

definition bench_query ::
    "(scored list \<Rightarrow> scored list) \<Rightarrow> (nat \<Rightarrow> scored list \<Rightarrow> scored list) \<Rightarrow> unit hnsw \<Rightarrow> flat_index
      \<Rightarrow> nat \<Rightarrow> f32 list \<Rightarrow> int \<Rightarrow> nat \<Rightarrow> f32 \<times> unit visit_ctx \<Rightarrow> (f32 \<times> unit visit_ctx) res" where
  "bench_query srt ps h fi d queries k qi = (\<lambda>(total, ctx).
     let qptr = drop (qi * d) queries in
     bindR (hnsw_search srt h qptr k ctx) (\<lambda>(found, ctx).
     bindR (flat_search ps fi qptr k) (\<lambda>truth_res.
     let truth = map sr_id truth_res in
     Inr (f32_add total (compute_recall truth found k), ctx))))"

text \<open>One width of the beam, over all queries.\<close>

definition bench_ef ::
    "(scored list \<Rightarrow> scored list) \<Rightarrow> (nat \<Rightarrow> scored list \<Rightarrow> scored list) \<Rightarrow> unit hnsw \<Rightarrow> flat_index
      \<Rightarrow> nat \<Rightarrow> f32 list \<Rightarrow> nat \<Rightarrow> int \<Rightarrow> int \<Rightarrow> unit visit_ctx \<Rightarrow> (f32 \<times> unit hnsw \<times> unit visit_ctx) res" where
  "bench_ef srt ps h fi d queries n_query k ef ctx =
     (let h = set_ef_search ef h in
      bindR (foldR (bench_query srt ps h fi d queries k) [0..<n_query] (0, ctx)) (\<lambda>(total_recall, ctx).
      Inr (f32_div total_recall (f32_of_int (int n_query)), h, ctx)))"

fun bench_rows ::
    "(scored list \<Rightarrow> scored list) \<Rightarrow> (nat \<Rightarrow> scored list \<Rightarrow> scored list) \<Rightarrow> flat_index
      \<Rightarrow> nat \<Rightarrow> f32 list \<Rightarrow> nat \<Rightarrow> int \<Rightarrow> int list \<Rightarrow> unit hnsw \<Rightarrow> unit visit_ctx \<Rightarrow> (int \<times> f32) list res" where
  "bench_rows srt ps fi d queries n_query k [] h ctx = Inr []"
| "bench_rows srt ps fi d queries n_query k (ef # efs) h ctx =
     bindR (bench_ef srt ps h fi d queries n_query k ef ctx) (\<lambda>(recall, h, ctx).
     bindR (bench_rows srt ps fi d queries n_query k efs h ctx) (\<lambda>rows.
     Inr ((ef, recall) # rows)))"

text \<open>
  The whole run; \<open>order m\<close> is the order of the parallel loop over \<open>m\<close> vectors, whose counter is an
  \<open>int\<close>.  Without \<open>bench\<close> the tool prints its usage.
\<close>

definition cli_main ::
    "(scored list \<Rightarrow> scored list) \<Rightarrow> (nat \<Rightarrow> scored list \<Rightarrow> scored list) \<Rightarrow> (f32 \<Rightarrow> f32) \<Rightarrow> (nat \<Rightarrow> f32)
      \<Rightarrow> (int \<Rightarrow> nat \<Rightarrow> f32) \<Rightarrow> (nat \<Rightarrow> nat list) \<Rightarrow> filesys \<Rightarrow> unit visit_ctx \<Rightarrow> string list
      \<Rightarrow> (int \<times> f32) list option res" where
  "cli_main srt ps logf draws draw order fs ctx argv =
     bindR (parse_options argv) (\<lambda>opts.
     if \<not> co_bench opts then Inr None
     else
       bindR (train_input draw fs opts) (\<lambda>(train_data, n, d).
       bindR (query_input draw fs opts d) (\<lambda>(query_data, n_query, d).
       bindR (bench_hnsw srt logf draws d train_data (order (nat (to_int n))) ctx) (\<lambda>(h, ctx).
       bindR (bench_flat d train_data n) (\<lambda>flat.
       bindR (bench_rows srt ps flat d query_data n_query (co_k opts) [10, 50, 100, 200, 500] h ctx) (\<lambda>rows.
       Inr (Some rows)))))))"

section \<open>Two rankings with the same scores\<close>

text \<open>When no two candidates have the same score, the best \<open>k\<close> are the same whatever the order
  in which the candidates are numbered.\<close>

lemma top_k_names:
  assumes top1: "is_top_k s1 c1 k i1" and top2: "is_top_k s2 c2 k i2"
    and dist: "distinct c1" "distinct c2" and names: "mset (map f1 c1) = mset (map f2 c2)"
    and s1: "\<And>i. i \<in> set c1 \<Longrightarrow> s1 i = s (f1 i)" and s2: "\<And>i. i \<in> set c2 \<Longrightarrow> s2 i = s (f2 i)"
    and nn: "\<And>x. x \<in> f1 ` set c1 \<Longrightarrow> \<not> is_nan (s x)" and inj: "inj_on (f32_key \<circ> s) (f1 ` set c1)"
  shows "map f1 i1 = map f2 i2"
proof -
  have same: "f1 ` set c1 = f2 ` set c2" using mset_eq_setD [OF names] by simp
  have sub: "set i1 \<subseteq> set c1" "set i2 \<subseteq> set c2" using top1 top2 by (simp_all add: is_top_k_def)
  have k1: "map (f32_key \<circ> s1) i1 = take k (rev (sort (map (f32_key \<circ> s1) c1)))"
    using top_k_keys [OF top1 _ dist(1)] s1 nn by simp
  have k2: "map (f32_key \<circ> s2) i2 = take k (rev (sort (map (f32_key \<circ> s2) c2)))"
  proof (rule top_k_keys [OF top2 _ dist(2)], intro ballI)
    fix i assume "i \<in> set c2"
    then show "\<not> is_nan (s2 i)" using s2 nn [of "f2 i"] same by auto
  qed
  have m1: "map (f32_key \<circ> s1) c1 = map (f32_key \<circ> s) (map f1 c1)" using s1 by simp
  have m2: "map (f32_key \<circ> s2) c2 = map (f32_key \<circ> s) (map f2 c2)" using s2 by simp
  have "mset (map (f32_key \<circ> s1) c1) = mset (map (f32_key \<circ> s2) c2)"
    unfolding m1 m2 mset_map [of "f32_key \<circ> s"] names ..
  then have "sort (map (f32_key \<circ> s1) c1) = sort (map (f32_key \<circ> s2) c2)"
    by (intro properties_for_sort) simp_all
  then have "map (f32_key \<circ> s1) i1 = map (f32_key \<circ> s2) i2" using k1 k2 by simp
  moreover have "map (f32_key \<circ> s1) i1 = map (f32_key \<circ> s) (map f1 i1)"
    "map (f32_key \<circ> s2) i2 = map (f32_key \<circ> s) (map f2 i2)"
    using s1 s2 sub by auto
  ultimately have "map (f32_key \<circ> s) (map f1 i1) = map (f32_key \<circ> s) (map f2 i2)" by simp
  moreover have "set (map f1 i1) \<union> set (map f2 i2) \<subseteq> f1 ` set c1"
    using sub same by (simp add: image_mono) (metis image_mono)
  ultimately show ?thesis by (intro map_inj_on [OF _ inj_on_subset [OF inj]])
qed

section \<open>The flat index of the benchmark\<close>

definition bench_vector :: "nat \<Rightarrow> f32 list \<Rightarrow> nat \<Rightarrow> f32 list" where
  "bench_vector d data i = take d (drop (i * d) data)"

definition bench_entry :: "nat \<Rightarrow> f32 list \<Rightarrow> nat \<Rightarrow> vector" where
  "bench_entry d data i = \<lparr>vec_id = word_of_nat i, vec_metadata = ''{}'', vec_data = bench_vector d data i,
     vec_deleted = False\<rparr>"

lemma bench_buffer: "n * d \<le> length data \<Longrightarrow> i < n \<Longrightarrow> d \<le> length (drop (i * d) data)"
  using mult_le_mono1 [of "Suc i" n d] by simp

lemma bench_flat_entries:
  assumes "n * d \<le> length data"
  shows "bench_flat d data n = Inr \<lparr>fi_dim = d, fi_vectors = map (bench_entry d data) [0..<n]\<rparr>"
proof -
  let ?P = "\<lambda>ys fi. fi = \<lparr>fi_dim = d, fi_vectors = map (bench_entry d data) ys\<rparr>"
  have "okR (bench_flat d data n) (?P [0..<n])"
    unfolding bench_flat_def
  proof (rule okR_foldR_prefix)
    show "?P [] (flat_new d)" by (simp add: flat_new_def)
  next
    fix ys i zs fi
    assume split: "[0..<n] = ys @ i # zs" and fi: "?P ys fi"
    have "i < n" using upt_split [OF split] by simp
    then show "okR (flat_insert fi (word_of_nat i) (drop (i * d) data) ''{}'') (?P (ys @ [i]))"
      using bench_buffer [OF assms] fi
      by (simp add: flat_insert_def slice_r_def bench_entry_def bench_vector_def)
  qed
  then show ?thesis by (auto simp: okR_iff)
qed

section \<open>One query\<close>

definition bench_item :: "(nat \<Rightarrow> f32) \<Rightarrow> nat \<Rightarrow> f32 list \<Rightarrow> nat \<Rightarrow> build_item" where
  "bench_item draws d data i =
     \<lparr>bi_draw = draws i, bi_id = word_of_nat i, bi_vec = drop (i * d) data, bi_meta = ''{}''\<rparr>"

lemma foldR_map: "foldR f (map g xs) s = foldR (\<lambda>x. f (g x)) xs s"
  by (induction xs arbitrary: s) (auto intro: bindR_cong)

lemma bench_hnsw_build:
  "bench_hnsw srt logf draws d data order ctx = build srt logf d bench_cfg (map (bench_item draws d data) order) ctx"
  by (simp add: bench_hnsw_def build_def foldR_map insert_item_def bench_item_def)

definition bench_score :: "nat \<Rightarrow> f32 list \<Rightarrow> f32 list \<Rightarrow> nat \<Rightarrow> f32" where
  "bench_score d data query i = score_of d query (bench_vector d data i)"

text \<open>The query has a proper score on every vector, and no two of them are equal.\<close>

definition ranks :: "nat \<Rightarrow> f32 list \<Rightarrow> nat \<Rightarrow> f32 list \<Rightarrow> bool" where
  "ranks d data n query \<longleftrightarrow> d \<le> length query
     \<and> (\<forall>i<n. \<not> is_nan (bench_score d data query i) \<and> bench_score d data query i \<noteq> - f32_infinity)
     \<and> inj_on (f32_key \<circ> bench_score d data query) {..<n}"

lemma bench_flat_search:
  assumes ps: "partial_sorter ps" and data: "n * d \<le> length data" and q: "ranks d data n query" and k: "1 \<le> k"
    and fi: "fi = \<lparr>fi_dim = d, fi_vectors = map (bench_entry d data) [0..<n]\<rparr>"
  shows "\<exists>frs fidxs. flat_search ps fi query k = Inr frs
    \<and> map (\<lambda>r. (sr_score r, sr_id r)) frs = map (\<lambda>i. (bench_score d data query i, word_of_nat i)) fidxs
    \<and> is_top_k (flat_score fi query) [0..<n] (nat k) fidxs"
    and "i < n \<Longrightarrow> flat_score fi query i = bench_score d data query i"
proof -
  show score: "flat_score fi query i = bench_score d data query i" if "i < n" for i
    using that
    by (simp add: fi flat_score_def bench_score_def score_of_def bench_entry_def split: sum.split)
  have el: "eligible (\<lambda>v. \<not> vec_deleted v) fi = [0..<n]"
    by (simp add: eligible_def fi bench_entry_def filter_id_conv)
  have "flat_wf fi"
    using bench_buffer [OF data] by (simp add: flat_wf_def fi bench_entry_def bench_vector_def list_all_iff)
  moreover have "fi_dim fi \<le> length query" using q by (simp add: ranks_def fi)
  moreover have "\<forall>i\<in>set (eligible (\<lambda>v. \<not> vec_deleted v) fi). \<not> is_nan (flat_score fi query i)"
    using q score by (simp add: el ranks_def)
  ultimately obtain frs where run: "flat_search_with ps (\<lambda>v. \<not> vec_deleted v) fi query k = Inr frs"
    using flat_search_with_defined [OF ps, of fi query k] k by fastforce
  obtain fidxs where frs: "frs = map (result_of fi query) fidxs"
    and top: "is_top_k (flat_score fi query) [0..<n] (nat k) fidxs"
    using flat_search_with_top_k [OF ps run] q score by (auto simp: el ranks_def)
  have "set fidxs \<subseteq> {0..<n}" using top by (simp add: is_top_k_def)
  then have "map (\<lambda>r. (sr_score r, sr_id r)) frs = map (\<lambda>i. (bench_score d data query i, word_of_nat i)) fidxs"
    using score by (auto simp: frs result_of_def fi bench_entry_def)
  then show "\<exists>frs fidxs. flat_search ps fi query k = Inr frs
    \<and> map (\<lambda>r. (sr_score r, sr_id r)) frs = map (\<lambda>i. (bench_score d data query i, word_of_nat i)) fidxs
    \<and> is_top_k (flat_score fi query) [0..<n] (nat k) fidxs"
    using run top by (auto simp: flat_search_def)
qed

definition full_recall :: "nat \<Rightarrow> int \<Rightarrow> f32" where
  "full_recall n k = f32_div (f32_of_int (min (int n) k)) (f32_of_int k)"

text \<open>Both indexes give the same results, scores and ids in the same order.\<close>

lemma bench_same_results:
  assumes srt: "desc_sorter srt" and ps: "partial_sorter ps" and ctx: "visit_ok ctx"
    and order: "mset order = mset [0..<n]" and n: "n < 2 ^ 32" "int n \<le> ef" and k: "1 \<le> k"
    and built: "built logf d cfg (map (bench_item draws d data) order) h" and complete: "complete_below n h"
    and data: "n * d \<le> length data" and q: "ranks d data n query"
    and fi: "fi = \<lparr>fi_dim = d, fi_vectors = map (bench_entry d data) [0..<n]\<rparr>"
  shows "\<exists>frs ctx'. flat_search ps fi query k = Inr frs \<and> length frs = min (nat k) n
    \<and> hnsw_search srt (set_ef_search ef h) query k ctx = Inr (map (\<lambda>r. (sr_score r, sr_id r)) frs, ctx')
    \<and> visit_ok ctx'"
proof -
  let ?es = "map (bench_item draws d data) order"
  have len: "length order = n" using mset_eq_length [OF order] by simp
  have set: "set order = {..<n}" using mset_eq_setD [OF order] by (simp add: lessThan_atLeast0)
  have score: "item_score d query ?es i = bench_score d data query (order ! i)" if "i < n" for i
    using that len by (simp add: item_score_def bench_score_def bench_vector_def bench_item_def)
  have nth: "order ! i < n" if "i < n" for i
    using nth_mem [of i order] that unfolding len set by simp
  have es: "length ?es = n" by (simp add: len)
  have qn: "d \<le> length query" using q unfolding ranks_def by blast
  have nn: "\<forall>i<length ?es. \<not> is_nan (item_score d query ?es i)"
    using q score nth unfolding ranks_def es by metis
  obtain rs ctx' idxs where run: "hnsw_search srt (set_ef_search ef h) query k ctx = Inr (rs, ctx')" "visit_ok ctx'"
    and rs: "rs = map (\<lambda>i. (item_score d query ?es i, bi_id (?es ! i))) idxs"
    and top: "is_top_k (item_score d query ?es) [0..<n] (result_limit k n) idxs"
    using small_search [OF srt built _ ctx _ _ qn nn, of ef k] complete n unfolding es by auto
  obtain frs fidxs where flat: "flat_search ps fi query k = Inr frs"
    and truth: "map (\<lambda>r. (sr_score r, sr_id r)) frs = map (\<lambda>i. (bench_score d data query i, word_of_nat i)) fidxs"
    and ftop: "is_top_k (flat_score fi query) [0..<n] (nat k) fidxs"
    using bench_flat_search(1) [OF ps data q k fi] by blast
  have "map ((!) order) idxs = map (\<lambda>i. i) fidxs"
  proof (rule top_k_names [OF _ ftop, where s = "bench_score d data query"])
    show "is_top_k (item_score d query ?es) [0..<n] (nat k) idxs" using top k by (simp add: result_limit_def)
    show "mset (map ((!) order) [0..<n]) = mset (map (\<lambda>i. i) [0..<n])"
      using order map_nth [of order] by (simp add: len)
    have "(!) order ` set [0..<n] = {..<n}"
      using set map_nth [of order] len by (metis set_map)
    then show "inj_on (f32_key \<circ> bench_score d data query) ((!) order ` set [0..<n])"
      and "\<And>x. x \<in> (!) order ` set [0..<n] \<Longrightarrow> \<not> is_nan (bench_score d data query x)"
      using q by (auto simp: ranks_def)
  qed (use score bench_flat_search(2) [OF ps data q k fi] in auto)
  then have names: "map ((!) order) idxs = fidxs" by simp
  have idxs: "set idxs \<subseteq> {0..<n}" "length idxs = min (nat k) n"
    using top k by (simp_all add: is_top_k_def result_limit_def)
  have "rs = map (\<lambda>i. (bench_score d data query i, word_of_nat i)) (map ((!) order) idxs)"
    using idxs(1) len score by (auto simp: rs bench_item_def)
  then have same: "rs = map (\<lambda>r. (sr_score r, sr_id r)) frs" by (simp only: names truth)
  have "length rs = length frs" by (simp add: same)
  moreover have "length rs = length idxs" by (simp add: rs)
  ultimately have "length frs = min (nat k) n" using idxs(2) by simp
  then show ?thesis using run flat same by blast
qed

lemma bench_query_exact:
  assumes flat: "flat_search ps fi (drop (qi * d) queries) k = Inr frs" and len: "length frs = min (nat k) n"
    and same: "hnsw_search srt h (drop (qi * d) queries) k ctx = Inr (map (\<lambda>r. (sr_score r, sr_id r)) frs, ctx')"
    and k: "1 \<le> k"
  shows "bench_query srt ps h fi d queries k qi (acc, ctx) = Inr (f32_add acc (full_recall n k), ctx')"
proof -
  let ?rs = "map (\<lambda>r. (sr_score r, sr_id r)) frs"
  have "filter (\<lambda>r. snd r \<in> set (map sr_id frs)) ?rs = ?rs" by (auto simp: filter_id_conv)
  moreover have "int (length ?rs) = min (int n) k" using len k by simp
  ultimately have "compute_recall (map sr_id frs) ?rs k = full_recall n k"
    by (simp add: compute_recall_def full_recall_def)
  then show ?thesis using same flat by (simp add: bench_query_def)
qed

section \<open>Properties\<close>

lemma full_recall_one:
  assumes "1 \<le> k" and "k \<le> int n" and "n \<le> 17"
  shows "full_recall n k = f32_one"
proof -
  have "list_all (\<lambda>k. f32_div (f32_of_int k) (f32_of_int k) = f32_one) [1..17]" by code_simp
  then have "\<forall>k\<in>{1..17}. f32_div (f32_of_int k) (f32_of_int k) = f32_one"
    by (simp only: list_all_iff set_upto)
  then show ?thesis using assms by (simp add: full_recall_def)
qed

lemma items_ok_set:
  assumes "set es = set es'"
  shows "items_ok logf n cfg es \<longleftrightarrow> items_ok logf n cfg es'"
  using assms by (simp add: items_ok_def no_nan_scores_def)

text \<open>C27: The benchmark on at most 17 vectors, for a beam \<open>ef\<close> of at least the number of vectors,
  \<open>k\<close> of at least 1, and queries that score every vector properly (no NaN, no minus infinity) and no
  two of them alike.  In whatever order the parallel loop inserts the vectors, building both indexes
  and running all queries succeeds, and for every query the search of the graph returns exactly what
  the flat index returns: the same \<open>min k n\<close> ids with the same scores in the same order.  So every
  query adds the same recall, 1 when \<open>k \<le> n\<close>.  For a larger \<open>k\<close> it is \<open>n / k\<close>: there the exact answer
  counts as a loss.\<close>

theorem bench_small_exact:
  assumes "desc_sorter srt" and "partial_sorter ps" and "visit_ok ctx" and "mset order = mset [0..<n]"
    and "n \<le> 17" and "int n \<le> ef" and "1 \<le> k" and "n * d \<le> length data"
    and "items_ok logf d bench_cfg (map (bench_item draws d data) [0..<n])"
    and "\<forall>qi<n_query. ranks d data n (drop (qi * d) queries)"
  shows "\<exists>h ctx1 fi ctx2. bench_hnsw srt logf draws d data order ctx = Inr (h, ctx1)
    \<and> bench_flat d data n = Inr fi
    \<and> (\<forall>qi<n_query. \<forall>c. visit_ok c \<longrightarrow> (\<exists>found c'. flat_search ps fi (drop (qi * d) queries) k = Inr found
        \<and> length found = min (nat k) n
        \<and> hnsw_search srt (set_ef_search ef h) (drop (qi * d) queries) k c
          = Inr (map (\<lambda>r. (sr_score r, sr_id r)) found, c')))
    \<and> bench_ef srt ps h fi d queries n_query k ef ctx1
      = Inr (f32_div (((\<lambda>t. f32_add t (full_recall n k)) ^^ n_query) 0) (f32_of_int (int n_query)),
          set_ef_search ef h, ctx2)
    \<and> (k \<le> int n \<longrightarrow> full_recall n k = f32_one)"
proof -
  let ?es = "map (bench_item draws d data) order"
  let ?fi = "\<lparr>fi_dim = d, fi_vectors = map (bench_entry d data) [0..<n]\<rparr>"
  have len: "length order = n" using mset_eq_length [OF assms(4)] by simp
  have "set ?es = set (map (bench_item draws d data) [0..<n])"
    using mset_eq_setD [OF assms(4)] by simp
  then have ok: "items_ok logf d bench_cfg ?es" using assms(9) items_ok_set by blast
  have cfg: "cfg_ok bench_cfg" by (simp add: cfg_ok_def bench_cfg_def)
  have "length ?es \<le> 2 ^ 32" and small: "int (length ?es) \<le> cfg_M bench_cfg + 1"
    using assms(5) by (simp_all add: len bench_cfg_def)
  then obtain h ctx1 where run: "bench_hnsw srt logf draws d data order ctx = Inr (h, ctx1)"
    and built: "built logf d bench_cfg ?es h" and ctx1: "visit_ok ctx1" and complete: "complete_below n h"
    using build_spec [OF assms(1) cfg assms(3) ok] by (auto simp: bench_hnsw_build okR_iff len)
  have n: "n < 2 ^ 32" using assms(5) by simp
  have same: "\<exists>found c'. flat_search ps ?fi (drop (qi * d) queries) k = Inr found \<and> length found = min (nat k) n
      \<and> hnsw_search srt (set_ef_search ef h) (drop (qi * d) queries) k c
        = Inr (map (\<lambda>r. (sr_score r, sr_id r)) found, c') \<and> visit_ok c'"
    if "qi < n_query" "visit_ok c" for qi c
    using bench_same_results [OF assms(1,2) that(2) assms(4) n assms(6,7) built complete assms(8) _ refl]
      assms(10) that(1) by blast
  let ?P = "\<lambda>ys (t, c). t = ((\<lambda>t. f32_add t (full_recall n k)) ^^ length ys) 0 \<and> visit_ok c"
  have "okR (foldR (bench_query srt ps (set_ef_search ef h) ?fi d queries k) [0..<n_query] (0, ctx1))
      (?P [0..<n_query])"
  proof (rule okR_foldR_prefix)
    show "?P [] (0, ctx1)" using ctx1 by simp
  next
    fix ys qi zs and s :: "f32 \<times> unit visit_ctx"
    assume split: "[0..<n_query] = ys @ qi # zs" and P: "?P ys s"
    obtain acc c where s: "s = (acc, c)" by (cases s)
    have "qi < n_query" using upt_split [OF split] by simp
    moreover have "visit_ok c" using P s by simp
    ultimately obtain c' where "bench_query srt ps (set_ef_search ef h) ?fi d queries k qi (acc, c)
        = Inr (f32_add acc (full_recall n k), c')" "visit_ok c'"
      using same bench_query_exact [OF _ _ _ assms(7)] by blast
    then show "okR (bench_query srt ps (set_ef_search ef h) ?fi d queries k qi s) (?P (ys @ [qi]))"
      using P s by simp
  qed
  then obtain ctx2 where "foldR (bench_query srt ps (set_ef_search ef h) ?fi d queries k) [0..<n_query] (0, ctx1)
      = Inr (((\<lambda>t. f32_add t (full_recall n k)) ^^ n_query) 0, ctx2)"
    by (auto simp: okR_iff)
  then show ?thesis
    using run bench_flat_entries [OF assms(8)] full_recall_one [OF assms(7) _ assms(5)] same
    by (auto simp: bench_ef_def) blast
qed

text \<open>A logarithm with the float value of \<open>log 16\<close> and, for the draws, \<open>-1/4\<close>.\<close>

definition log_sixteen :: "f32 \<Rightarrow> f32" where
  "log_sixteen x = (if x = F32 0x41800000 then F32 0x40317218 else F32 0xBE800000)"

lemma level_sixteen:
  "random_layer log_sixteen (F32 0x3F000000) (f32_div f32_one (log_sixteen (f32_of_int 16))) = Inr 0"
  by code_simp

theorem bench_small_exact_witness:
  "\<exists>h ctx1 fi ctx2. bench_hnsw isort_desc log_sixteen (\<lambda>_. F32 0x3F000000) 1 [- f32_one, f32_one] [1, 0] ctx_new
      = Inr (h, ctx1)
    \<and> bench_flat 1 [- f32_one, f32_one] 2 = Inr fi
    \<and> bench_ef isort_desc (\<lambda>_. isort_desc) h fi 1 [f32_one] 1 1 10 ctx1
      = Inr (f32_one, set_ef_search 10 h, ctx2)"
proof -
  let ?data = "[- f32_one, f32_one]"
  have sc: "bench_score 1 ?data [f32_one] 0 = - f32_one" "bench_score 1 ?data [f32_one] 1 = f32_one"
    "bench_score 1 ?data [f32_one] (Suc 0) = f32_one"
    using unit_scores by (simp_all add: bench_score_def bench_vector_def)
  have "f32_key f32_one \<noteq> f32_key (- f32_one)" "- f32_one \<noteq> - f32_infinity" "f32_one \<noteq> - f32_infinity"
    "\<not> is_nan f32_one" "\<not> is_nan (- f32_one)"
    by code_simp+
  then have ranks: "ranks 1 ?data 2 [f32_one]"
    using sc by (simp add: ranks_def all_less_2 lessThan_Suc numeral_2_eq_2 all_upt_2)
  have "items_ok log_sixteen 1 bench_cfg (map (bench_item (\<lambda>_. F32 0x3F000000) 1 ?data) [0..<2])"
    using level_sixteen unit_scores
    by (simp add: items_ok_def bench_item_def bench_cfg_def no_nan_scores_def unit_similarities numeral_2_eq_2)
  moreover have "mset [1, 0] = mset [0..<2]" by (simp add: numeral_2_eq_2)
  moreover have "f32_div (((\<lambda>t. f32_add t (full_recall 2 1)) ^^ 1) 0) (f32_of_int (int 1)) = f32_one"
    by code_simp
  ultimately show ?thesis
    using bench_small_exact [OF isort.whole.desc_sorter_axioms isort.partial_sorter_axioms ctx_new_ok, of
        "[1, 0]" 2 10 1 1 ?data log_sixteen "\<lambda>_. F32 0x3F000000" 1 "[f32_one]"] ranks
    by simp blast
qed

end
