(* ===== verification/Spec2Isabelle.thy ===== *)
theory Spec2Isabelle
  imports Wal Hnsw_Store Hnsw_Interleave Hnsw_Race Hnsw_Table Hnsw_Access Metadata_Filter Paged_Index Paged_Failures
    Paged_Platforms Storage_Handles Python_Metadata Cli_Bench
begin

text \<open>
  Verification of NeuralDB, a vector database in C++: an approximate index (HNSW), an exact one,
  a store that keeps vectors in a file, a write-ahead log, a metadata filter, a Python module and
  a benchmark.

  The program and its model.  An operation of a class is a function on a record of its fields; it
  returns \<open>Inr\<close> with its result and the new state, or \<open>Inl\<close> with an error: the exception it
  throws, \<open>Terminated\<close> where an exception leaves a \<open>noexcept\<close> function, \<open>Undefined_Behaviour\<close>
  where the C++ standard leaves the behaviour undefined (an index out of range, a buffer read past
  its end, a comparator that is no order, signed overflow, a null handle).  So a theorem that an
  operation returns also says that it stays in bounds.  \<open>float\<close> and \<open>double\<close> are IEEE 754 values
  with every rounding step, integers are words or \<open>nat\<close> and \<open>int\<close> with the conversions written
  out, a file is its bytes.

  The theories, from the bottom.
  \<^item> \<open>Prelude\<close>: results and their composition, checked access to vectors, loops as folds, and the
    judgements \<open>okR\<close> (returns and), \<open>postR\<close> (if it returns then) and \<open>holdsR b\<close> (either) in which
    the lemmas on operations are stated.
  \<^item> \<open>Binary32\<close>: decoding, encoding and rounded arithmetic of floats, their order and keys.
  \<^item> \<open>Byte_Codec\<close>: numbers, floats and strings as bytes, readers, decimal numbers, the file system.
  \<^item> \<open>Std_Algo\<close>: \<open>std::sort\<close>, \<open>std::partial_sort\<close> and \<open>std::priority_queue\<close>.  The locales
    \<open>desc_sorter\<close>, \<open>partial_sorter\<close> and \<open>queue_order\<close> state what the C++ standard promises; the
    sorts are parameters of the operations, so results hold for every conforming library, and are
    interpreted by an insertion sort.
  \<^item> \<open>Distance\<close> (\<open>src/src/distance.cpp\<close>, \<open>src/kernels/\<close>): the AVX2, NEON and scalar kernels over an
    arithmetic that is a parameter.  Over the reals they agree and are the cosine and the squared
    distance (locale \<open>exact_arith\<close>); over floats the AVX2 cosine is symmetric (locale
    \<open>commutative_arith\<close>) and reads in range exactly when both buffers hold \<open>dim\<close> floats.
  \<^item> \<open>Slot_Index\<close>: what the two indexes share, one slot per insertion with an id and a mark; the
    locale \<open>slot_index\<close> is interpreted by both.
  \<^item> \<open>Vector_Store\<close> (\<open>src/src/vector_store.cpp\<close>): \<open>FlatIndex\<close>; search is exact.
  \<^item> \<open>Wal\<close> (\<open>src/src/wal.cpp\<close>): append, replay and checkpoint; replay of a log, of a log cut at any
    byte, and of a log that was written on behind a torn record.
  \<^item> \<open>Hnsw_Layer\<close>, \<open>Hnsw\<close> (\<open>src/src/hnsw.cpp\<close>, \<open>src/include/hnsw.hpp\<close>): the state of \<open>HNSWIndex\<close>,
    the search of a layer with its thread-local table of visited nodes, insertion, deletion, search.
    The accessor for vectors is a function on a state of its own.
  \<^item> \<open>Hnsw_Beam\<close>: what a layer search returns, for every source of vectors that meets the locale
    \<open>vector_source\<close>; interpreted here by the own buffer of the index, and by the paged store below.
  \<^item> \<open>Hnsw_Insert\<close>, \<open>Hnsw_Search\<close>, \<open>Hnsw_Slots\<close>, \<open>Hnsw_Properties\<close>: the invariant \<open>hnsw_wf\<close>, its
    preservation, and what insertion, deletion and search promise.
    \<open>Hnsw_Access\<close>: the accessors by slot give back what was inserted.
  \<^item> \<open>Hnsw_Complete\<close>: with at most \<open>M + 1\<close> vectors layer 0 is complete and search is exact.
  \<^item> \<open>Hnsw_Threads\<close>: \<open>insert\<close>, \<open>search\<close> and \<open>delete_vector\<close> of several threads.  A thread is its place
    in the code with its local variables; a step is one section under \<open>index_mutex_\<close>, with the local
    computation after it, or one read of the atomic counter; \<open>sys_step\<close> lets any thread move.
    \<open>Hnsw_Progress\<close>: every step lowers a rank, so schedules are finite.  \<open>Hnsw_Alone\<close>: without
    interference the steps add up to the functions of \<open>Hnsw\<close> (locale \<open>lone_thread\<close>).
    \<open>Hnsw_Shared\<close>, \<open>Hnsw_Interleave\<close>: the invariant of the shared state and of every place, which no
    step of another thread breaks (\<open>grown\<close>).  \<open>Hnsw_Race\<close>: a schedule that loses a vector.
    \<open>Hnsw_Table\<close>: schedules in which a search reads outside its table of visited nodes.
  \<^item> \<open>Hnsw_Env\<close>: the locale \<open>accessor_invariant\<close>: what an accessor keeps, the index keeps.
  \<^item> \<open>Hnsw_Store\<close>: \<open>save\<close>, \<open>load\<close> and \<open>compact\<close>; the parts of the format are interpretations of the
    locale \<open>file_format\<close>.
  \<^item> \<open>Metadata_Filter\<close> (\<open>src/src/filter.cpp\<close>): where clauses; the JSON library is a record of functions,
    of which \<open>dump\<close> may throw.  What an evaluation answers does not depend on the order of the clause;
    whether it returns can (\<open>clause_runs\<close>).
  \<^item> \<open>Paged_Store\<close>, \<open>Paged_Properties\<close>, \<open>Paged_Index\<close> (\<open>src/src/paged_index.cpp\<close>): pages, the cache
    with its eviction, the lifetime of pointers into it, and the index on top, whose accessor is the
    store.
    \<open>Paged_Failures\<close>: a \<open>get\<close> whose map fails, and what is read after it.  \<open>Paged_Windows\<close>: the branch for Windows, with the
    addresses it computes and who owns the views, blocks and mapping objects.  \<open>Paged_Platforms\<close>: the
    two branches run in step (locale \<open>lockstep\<close>), so pushes and reads have the same results.
  \<^item> \<open>File_Storage\<close> (\<open>src/src/storage.cpp\<close>): the buffered writer and the mapping reader.
    \<open>Storage_Handles\<close>: constructor and destructor of the reader on the resources of the system; both
    branches, for POSIX and Windows, are interpretations of the locale \<open>os_owner\<close>.
  \<^item> \<open>Python_Bindings\<close> (\<open>src/python/bindings.cpp\<close>): conversions and the class \<open>Index\<close>.
    Bytes become Python strings by strict UTF-8 decoding (\<open>to_py_str\<close>), which may throw.
    \<open>Python_Metadata\<close>: which metadata comes back as it went in, from the laws \<open>json_values\<close> and
    \<open>json_text\<close> of the JSON library.
  \<^item> \<open>Cli_Input\<close>, \<open>Cli_Bench\<close> (\<open>src/src/cli.cpp\<close>): options, the \<open>.npy\<close> reader, and the benchmark
    that compares the two indexes; on few vectors both give the same results.

  Abstract specifications.  An index is a list of slots (\<open>live_ids\<close>, \<open>slot_index\<close>); a layer search is
  \<open>layer_best\<close>: a beam that no scored node beats and whose neighbours were all scored; an exact search
  is \<open>is_top_k\<close>; the flat index is the reference of the HNSW index (\<open>flat_of\<close>); a log is a list of
  entries (\<open>log_bytes\<close>); a paged store is the list of vectors pushed (\<open>paged_run\<close>).

  Loops and bounds.  No definition uses fuel.  The loop of the layer search ends because each pass
  takes a candidate and each added candidate marks a node (\<open>beam_work\<close>); replay shortens the input at
  every record; all other loops are folds.  Indexes are smaller than \<open>2 ^ 32\<close> slots, the width of the
  internal ids, \<open>M\<close> is between 1 and \<open>2 ^ 30\<close>, which keeps \<open>2 * M\<close> in \<open>int\<close>; a drawn level is
  hypothesised not to be negative, as the logarithm is a parameter.

  Threads.  The steps of \<open>Hnsw_Threads\<close> interleave over a sequentially consistent memory: a relaxed
  read of the counter gives its current value.  Their safety assumes proper vectors and that the
  thread-local table of visited nodes has room for every node there will be (\<open>room\<close>).  The code does
  not ensure this: the table is sized at the start of a search, and a node inserted later can lie past
  its end.  \<open>Hnsw_Table\<close> gives a reachable failure for a table one entry too small.  The vectors are those of the index itself; the
  state behind an accessor belongs to each thread.  Elsewhere an operation runs as a whole, and the
  parallel loop of the benchmark is any order of whole insertions.

  Platforms.  The branches for POSIX carry the development.  Those for Windows are modelled in
  \<open>Storage_Handles\<close> and \<open>Paged_Windows\<close>, with the calls of the system as their documentation states
  them; system calls fail where a theory makes their success an argument, and succeed elsewhere.

  Not modelled.  Failures of memory allocation below \<open>max_size()\<close>, and of writes except in \<open>File_Storage\<close>;
  the order in which the operating system writes to the disk.  Compilers that contract a
  multiplication and an addition into one rounding.  Printing, clocks and memory sizes of the
  benchmark.  \<open>src/benchmarks\<close>, \<open>src/tests\<close>, \<open>src/scripts\<close> and the build files.  pybind11 and
  nlohmann::json, whose functions are parameters, and the random number generators, whose draws are.
\<close>

end
